(* ===== verification/Prelude.thy ===== *)
theory Prelude
  imports Main "HOL-Library.Word"
begin

text \<open>
  Shared vocabulary of the development: names for the fixed-width integers of the C sources,
  the limits of \<^verbatim>\<open>include/linux/limits.h\<close>, the kernel's typed
  minimum and maximum (\<^verbatim>\<open>min_t\<close>, \<^verbatim>\<open>max_t\<close>) on
  signed values, error numbers, and the word lemmas every component uses.

  A signed C integer is the word with the same bits; comparisons on it are \<open><s\<close> and
  \<open>\<le>s\<close>, a conversion to a wider signed type is \<open>scast\<close>, a conversion to a
  wider unsigned type is \<open>ucast\<close>, truncation is either.
\<close>

unbundle bit_operations_syntax

section \<open>Machine types and limits\<close>

type_synonym u8 = "8 word"
type_synonym u16 = "16 word"
type_synonym u32 = "32 word"
type_synonym u64 = "64 word"
type_synonym s16 = "16 word"
type_synonym s32 = "32 word"
type_synonym s64 = "64 word"

abbreviation U16_MAX :: u32 where "U16_MAX \<equiv> 0xffff"
abbreviation U32_MAX :: u32 where "U32_MAX \<equiv> 0xffffffff"
abbreviation U64_MAX :: u64 where "U64_MAX \<equiv> 0xffffffffffffffff"
abbreviation S32_MIN :: s32 where "S32_MIN \<equiv> 0x80000000"
abbreviation S32_MAX :: s32 where "S32_MAX \<equiv> 0x7fffffff"
abbreviation S64_MIN :: s64 where "S64_MIN \<equiv> 0x8000000000000000"
abbreviation S64_MAX :: s64 where "S64_MAX \<equiv> 0x7fffffffffffffff"

text \<open>Error returns are modelled as the positive error number; C returns its negation.\<close>

datatype errno = EPERM | ENOENT | EIO | E2BIG | EAGAIN | ENOMEM | EACCES | EFAULT | EEXIST | EINVAL
  | ENOSPC | ERANGE | EOPNOTSUPP | EOVERFLOW

section \<open>Signed minimum and maximum\<close>

definition smax :: "'a::len word \<Rightarrow> 'a word \<Rightarrow> 'a word" where
  "smax x y = (if y <s x then x else y)"

definition smin :: "'a::len word \<Rightarrow> 'a word \<Rightarrow> 'a word" where
  "smin x y = (if x <s y then x else y)"

lemma sint_smax [simp]: "sint (smax x y) = max (sint x) (sint y)"
  by (simp add: smax_def word_sless_alt)

lemma sint_smin [simp]: "sint (smin x y) = min (sint x) (sint y)"
  by (simp add: smin_def word_sless_alt)

section \<open>Words as integers\<close>

lemma sint_cases:
  fixes x :: "'a::len word"
  shows "sint x = (if bit x (LENGTH('a) - 1) then uint x - 2 ^ LENGTH('a) else uint x)"
  by (simp add: sint_uint signed_take_bit_eq_take_bit_minus bit_simps take_bit_int_eq_self)

lemma sint_uint_cases:
  fixes x :: "'a::len word"
  shows "sint x = (if 2 ^ (LENGTH('a) - 1) \<le> uint x then uint x - 2 ^ LENGTH('a) else uint x)"
  using sint_cases [of x] bit_last_iff [of x] sint_ge [of x] sint_lt [of x] uint_lt2p [of x]
    power_Suc [of "2::int" "LENGTH('a) - 1"]
  by (auto split: if_splits)

lemma sint_uint64: "sint (x :: 64 word) = (if 2 ^ 63 \<le> uint x then uint x - 2 ^ 64 else uint x)"
  using sint_uint_cases [of x] by simp

lemma sint_uint32: "sint (x :: 32 word) = (if 2 ^ 31 \<le> uint x then uint x - 2 ^ 32 else uint x)"
  using sint_uint_cases [of x] by simp

lemma sint_nonneg_uint: "0 \<le> sint x \<Longrightarrow> uint x = sint x"
  by (smt (verit) sint_uint_cases uint_lt2p)

lemma sint_mono_same_sign:
  fixes x y :: "'a::len word"
  assumes "(sint x < 0) = (sint y < 0)"
  shows "sint x \<le> sint y \<longleftrightarrow> uint x \<le> uint y"
  using assms uint_lt2p [of x] uint_lt2p [of y] by (auto simp: sint_uint_cases split: if_splits)

lemma uint_ucast_32: "uint (ucast (x :: 64 word) :: 32 word) = uint x mod 2 ^ 32"
  by (simp add: unsigned_ucast_eq take_bit_eq_mod)

lemma uint_ucast_64: "uint (ucast (x :: 32 word) :: 64 word) = uint x"
  by (rule uint_up_ucast) (simp add: is_up)

lemma unat_ucast_64: "unat (ucast (w :: u32) :: u64) = unat w"
  by (simp only: unat_eq_nat_uint uint_ucast_64)

lemma unat_drop_bit_1_less: "m \<noteq> 0 \<Longrightarrow> unat (drop_bit 1 m) < unat m" for m :: "'a::len word"
proof -
  assume "m \<noteq> 0"
  then have "0 < unat m" by (simp add: unat_gt_0)
  moreover have "unat (drop_bit 1 m) = unat m div 2"
    using unat_drop_bit_eq [of 1 m] by (simp add: drop_bit_Suc)
  ultimately show ?thesis by simp
qed

lemma not_bit_length: "LENGTH('a) \<le> n \<Longrightarrow> \<not> bit (x :: 'a::len word) n"
  using bit_imp_le_length [of x n] by auto

section \<open>Carries and borrows\<close>

text \<open>
  Bit \<open>n\<close> of a sum is the exclusive or of the two bits and of the carry out of the lower
  bits; the same holds for a difference and its borrow.
\<close>

lemma bit_plus_int_carry:
  fixes a b :: int
  shows "bit (a + b) n \<longleftrightarrow> (bit a n \<noteq> bit b n) \<noteq> (2 ^ n \<le> take_bit n a + take_bit n b)"
proof -
  have lt: "take_bit n a + take_bit n b < 2 * 2 ^ n"
    using take_bit_int_less_exp [of n a] take_bit_int_less_exp [of n b] by linarith
  have "(a + b) div 2 ^ n = a div 2 ^ n + b div 2 ^ n + (take_bit n a + take_bit n b) div 2 ^ n"
    unfolding take_bit_eq_mod by (rule div_add1_eq)
  moreover have "(take_bit n a + take_bit n b) div 2 ^ n = (if 2 ^ n \<le> take_bit n a + take_bit n b then 1 else 0)"
  proof (cases "2 ^ n \<le> take_bit n a + take_bit n b")
    case True
    then have "(take_bit n a + take_bit n b) div 2 ^ n = 1 + (take_bit n a + take_bit n b - 2 ^ n) div 2 ^ n"
      by (simp add: div_pos_geq)
    moreover have "(take_bit n a + take_bit n b - 2 ^ n) div 2 ^ n = 0"
      using True lt by (intro div_pos_pos_trivial) auto
    ultimately show ?thesis using True by simp
  next
    case False
    then show ?thesis by (simp add: div_pos_pos_trivial)
  qed
  ultimately show ?thesis by (simp add: bit_iff_odd)
qed

lemma bit_minus_int_borrow:
  fixes a b :: int
  shows "bit (a - b) n \<longleftrightarrow> (bit a n \<noteq> bit b n) \<noteq> (take_bit n a < take_bit n b)"
proof -
  have "take_bit n (a - b) = (if take_bit n a < take_bit n b then take_bit n a - take_bit n b + 2 ^ n
      else take_bit n a - take_bit n b)"
  proof -
    have bounds: "0 \<le> take_bit n a" "take_bit n a < 2 ^ n" "0 \<le> take_bit n b" "take_bit n b < 2 ^ n"
      by simp_all
    have diff: "take_bit n (a - b) = (take_bit n a - take_bit n b) mod 2 ^ n"
      by (metis take_bit_diff take_bit_eq_mod)
    show ?thesis
    proof (cases "take_bit n a < take_bit n b")
      case True
      have "(take_bit n a - take_bit n b) mod 2 ^ n = (take_bit n a - take_bit n b + 2 ^ n) mod 2 ^ n"
        by simp
      also have "\<dots> = take_bit n a - take_bit n b + 2 ^ n"
        using True bounds by (intro mod_pos_pos_trivial) linarith+
      finally show ?thesis using True diff by simp
    next
      case False
      have "(take_bit n a - take_bit n b) mod 2 ^ n = take_bit n a - take_bit n b"
        using False bounds by (intro mod_pos_pos_trivial) linarith+
      then show ?thesis using False diff by simp
    qed
  qed
  note take_diff = this
  define A B D where "A = a div 2 ^ n" and "B = b div 2 ^ n" and "D = (a - b) div 2 ^ n"
  have eqs: "2 ^ n * A + take_bit n a = a" "2 ^ n * B + take_bit n b = b"
      "2 ^ n * D + take_bit n (a - b) = a - b"
    unfolding A_def B_def D_def take_bit_eq_mod by (rule mult_div_mod_eq)+
  have "2 ^ n * D = 2 ^ n * (A - B - of_bool (take_bit n a < take_bit n b))"
  proof (cases "take_bit n a < take_bit n b")
    case True
    with take_diff have "take_bit n (a - b) = take_bit n a - take_bit n b + 2 ^ n" by simp
    with eqs have "2 ^ n * D = 2 ^ n * A - 2 ^ n * B - 2 ^ n" by linarith
    with True show ?thesis by (simp add: right_diff_distrib)
  next
    case False
    with take_diff have "take_bit n (a - b) = take_bit n a - take_bit n b" by simp
    with eqs have "2 ^ n * D = 2 ^ n * A - 2 ^ n * B" by linarith
    with False show ?thesis by (simp add: right_diff_distrib)
  qed
  then have "D = A - B - of_bool (take_bit n a < take_bit n b)" by simp
  then show ?thesis by (auto simp add: bit_iff_odd simp flip: A_def B_def D_def)
qed

lemma bit_plus_carry:
  fixes x y :: "'a::len word"
  assumes "n < LENGTH('a)"
  shows "bit (x + y) n \<longleftrightarrow> (bit x n \<noteq> bit y n) \<noteq> (2 ^ n \<le> take_bit n (uint x) + take_bit n (uint y))"
proof -
  have "bit (x + y) n = bit (uint (x + y)) n" using assms by (simp add: bit_uint_iff)
  also have "\<dots> = bit (uint x + uint y) n"
    using assms by (simp only: uint_word_arith_bintrs bit_take_bit_iff) simp
  finally have "bit (x + y) n = bit (uint x + uint y) n" .
  moreover have "bit (uint x) n = bit x n" "bit (uint y) n = bit y n"
    using assms by (simp_all add: bit_uint_iff)
  ultimately show ?thesis by (simp only: bit_plus_int_carry)
qed

lemma bit_minus_borrow:
  fixes x y :: "'a::len word"
  assumes "n < LENGTH('a)"
  shows "bit (x - y) n \<longleftrightarrow> (bit x n \<noteq> bit y n) \<noteq> (take_bit n (uint x) < take_bit n (uint y))"
proof -
  have "bit (x - y) n = bit (uint (x - y)) n" using assms by (simp add: bit_uint_iff)
  also have "\<dots> = bit (uint x - uint y) n"
    using assms by (simp only: uint_word_arith_bintrs bit_take_bit_iff) simp
  finally have "bit (x - y) n = bit (uint x - uint y) n" .
  moreover have "bit (uint x) n = bit x n" "bit (uint y) n = bit y n"
    using assms by (simp_all add: bit_uint_iff)
  ultimately show ?thesis by (simp only: bit_minus_int_borrow)
qed

lemma bits_subset_take_bit:
  fixes p q :: "'a::len word"
  assumes "\<And>n. bit p n \<Longrightarrow> bit q n"
  shows "take_bit n (uint p) \<le> take_bit n (uint q)"
proof -
  have "p AND q = p" using assms by (intro bit_word_eqI) (auto simp: bit_simps)
  then have "take_bit n (uint p) = take_bit n (uint (p AND q))" by simp
  also have "\<dots> = take_bit n (uint p) AND take_bit n (uint q)" by (simp only: uint_and take_bit_and)
  also have "\<dots> \<le> take_bit n (uint q)" by (rule AND_upper2) simp
  finally show ?thesis .
qed

lemma bits_subset_le:
  fixes p q :: "'a::len word"
  assumes "\<And>n. bit p n \<Longrightarrow> bit q n"
  shows "p \<le> q"
proof -
  have "p AND q = p" using assms by (intro bit_word_eqI) (auto simp: bit_simps)
  then show ?thesis using word_and_le1 [of p q] by simp
qed

lemma disjoint_plus_or:
  fixes p q :: "'a::len word"
  assumes "\<And>n. bit p n \<Longrightarrow> \<not> bit q n"
  shows "p + q = p OR q"
  using assms by (intro disjunctive_add) auto

section \<open>Signed and unsigned bounds of one value\<close>

lemmas word_order_int = word_sle_eq word_sless_alt word_le_def word_less_def

lemma sint_neg_iff: "sint (x :: 'a::len word) < 0 \<longleftrightarrow> 2 ^ (LENGTH('a) - 1) \<le> uint x"
  by (smt (verit) sint_uint_cases uint_lt2p uint_ge_0)

lemma nonneg_below:
  fixes x y :: "'a::len word"
  assumes "x \<le> y" and "0 \<le>s y"
  shows "0 \<le>s x" and "x \<le>s y"
proof -
  have "\<not> sint y < 0" using assms(2) by (simp add: word_order_int)
  moreover from this have "\<not> sint x < 0"
    using assms(1) unfolding word_order_int sint_neg_iff by linarith
  ultimately show "0 \<le>s x" and "x \<le>s y"
    using assms(1) sint_mono_same_sign [of x y] by (auto simp: word_order_int)
qed

lemma neg_above:
  fixes x y :: "'a::len word"
  assumes "x \<le> y" and "x <s 0"
  shows "y <s 0" and "x \<le>s y"
proof -
  have "sint x < 0" using assms(2) by (simp add: word_order_int)
  moreover from this have "sint y < 0"
    using assms(1) unfolding word_order_int sint_neg_iff by linarith
  ultimately show "y <s 0" and "x \<le>s y"
    using assms(1) sint_mono_same_sign [of x y] by (auto simp: word_order_int)
qed

lemma same_sign_lower:
  fixes x lo ulo :: "'a::len word"
  assumes "lo \<le>s x" and "ulo \<le> x" and "0 \<le>s lo \<or> x <s 0"
  shows "max lo ulo \<le> x" and "max lo ulo \<le>s x"
proof -
  have "lo \<le> x"
    using assms(1,3) sint_mono_same_sign [of lo x] by (auto simp: word_order_int)
  with assms(2) show "max lo ulo \<le> x" by simp
  show "max lo ulo \<le>s x"
  proof (cases "ulo \<le> lo")
    case True
    then show ?thesis using assms(1) by (simp add: max_def)
  next
    case False
    then have "lo \<le> ulo" by simp
    have "ulo \<le>s x"
    proof (cases "x <s 0")
      case True
      then have "lo <s 0" using assms(1) by (simp add: word_order_int)
      then have "ulo <s 0" using neg_above \<open>lo \<le> ulo\<close> by blast
      then show ?thesis using neg_above assms(2) by blast
    next
      case False
      then show ?thesis using nonneg_below assms(2) by (auto simp: word_order_int not_less)
    qed
    then show ?thesis using \<open>lo \<le> ulo\<close> by (simp add: max_def)
  qed
qed

lemma same_sign_upper:
  fixes x hi uhi :: "'a::len word"
  assumes "x \<le>s hi" and "x \<le> uhi" and "0 \<le>s x \<or> hi <s 0"
  shows "x \<le> min hi uhi" and "x \<le>s min hi uhi"
proof -
  have "x \<le> hi"
    using assms(1,3) sint_mono_same_sign [of x hi] by (auto simp: word_order_int)
  with assms(2) show "x \<le> min hi uhi" by simp
  show "x \<le>s min hi uhi"
  proof (cases "hi \<le> uhi")
    case True
    then show ?thesis using assms(1) by (simp add: min_def)
  next
    case False
    then have "uhi \<le> hi" by simp
    have "x \<le>s uhi"
    proof (cases "0 \<le>s x")
      case True
      then have "0 \<le>s hi" using assms(1) by (simp add: word_order_int)
      then have "0 \<le>s uhi" using nonneg_below \<open>uhi \<le> hi\<close> by blast
      then show ?thesis using nonneg_below assms(2) by blast
    next
      case False
      then have "x <s 0" by (simp add: word_order_int)
      then show ?thesis using neg_above assms(2) by blast
    qed
    then show ?thesis using \<open>uhi \<le> hi\<close> False by (simp add: min_def)
  qed
qed

section \<open>Known bits and signed bounds\<close>

text \<open>
  \<open>tri v m x\<close>: the word \<open>x\<close> has the bits of \<open>v\<close> wherever
  \<open>m\<close> is clear, and \<open>v\<close> is clear wherever \<open>m\<close> is set.
\<close>

definition tri :: "'a::len word \<Rightarrow> 'a word \<Rightarrow> 'a word \<Rightarrow> bool" where
  "tri v m x \<longleftrightarrow> (\<forall>n. bit v n = (bit x n \<and> \<not> bit m n))"

lemma tri_unsigned: "tri v m x \<Longrightarrow> v \<le> x" "tri v m x \<Longrightarrow> x \<le> v OR m"
  by (auto simp: tri_def bit_simps intro!: bits_subset_le)

lemma sless_zero_bit: "(x :: 'a::len word) <s 0 \<longleftrightarrow> bit x (LENGTH('a) - 1)"
  by (simp add: word_sless_alt bit_last_iff)

lemma sle_zero_bit: "0 \<le>s (x :: 'a::len word) \<longleftrightarrow> \<not> bit x (LENGTH('a) - 1)"
  by (simp add: word_sle_eq bit_last_iff not_less)

lemma bit_below_top: "bit (x :: 'a::len word) n \<Longrightarrow> n \<noteq> LENGTH('a) - 1 \<Longrightarrow> n < LENGTH('a) - 1"
  using bit_imp_le_length [of x n] by simp

lemma tri_smin:
  fixes v m x :: "'a::len word"
  assumes "tri v m x"
  shows "v OR (m AND push_bit (LENGTH('a) - 1) 1) \<le>s x" (is "?lo \<le>s x")
proof -
  define h where "h = LENGTH('a) - 1"
  have t: "bit v n = (bit x n \<and> \<not> bit m n)" for n using assms by (simp add: tri_def)
  have lo: "bit ?lo n = (bit v n \<or> bit m n \<and> n = h)" for n
    by (auto simp: bit_simps h_def)
  show ?thesis
  proof (cases "bit x h")
    case True
    have "?lo \<le> x" by (rule bits_subset_le) (use True in \<open>simp only: lo t, blast\<close>)
    moreover have "?lo <s 0" using True t [of h] lo [of h] unfolding sless_zero_bit h_def by blast
    ultimately show ?thesis using neg_above by blast
  next
    case False
    then have x: "0 \<le>s x" by (simp add: sle_zero_bit h_def)
    show ?thesis
    proof (cases "bit m h")
      case True
      then have "?lo <s 0" using lo [of h] unfolding sless_zero_bit h_def by blast
      with x show ?thesis by (simp add: word_order_int)
    next
      case False
      have "?lo \<le> x" by (rule bits_subset_le) (use False in \<open>simp only: lo t, blast\<close>)
      with x show ?thesis using nonneg_below by blast
    qed
  qed
qed

lemma tri_smax:
  fixes v m x :: "'a::len word"
  assumes "tri v m x"
  shows "x \<le>s v OR (m AND mask (LENGTH('a) - 1))" (is "x \<le>s ?hi")
proof -
  define h where "h = LENGTH('a) - 1"
  have t: "bit v n = (bit x n \<and> \<not> bit m n)" for n using assms by (simp add: tri_def)
  have hi: "bit ?hi n = (bit v n \<or> bit m n \<and> n \<noteq> h)" for n
    using bit_below_top [of m n] by (auto simp: bit_simps h_def)
  show ?thesis
  proof (cases "bit x h")
    case False
    have "x \<le> ?hi" by (rule bits_subset_le) (use False in \<open>simp only: hi t, blast\<close>)
    moreover have "0 \<le>s ?hi" using False t [of h] hi [of h] unfolding sle_zero_bit h_def by blast
    ultimately show ?thesis using nonneg_below by blast
  next
    case True
    then have x: "x <s 0" by (simp add: sless_zero_bit h_def)
    show ?thesis
    proof (cases "bit m h")
      case True
      then have "0 \<le>s ?hi" using t [of h] hi [of h] unfolding sle_zero_bit h_def by blast
      with x show ?thesis by (simp add: word_order_int)
    next
      case False
      have "x \<le> ?hi" by (rule bits_subset_le) (use False in \<open>simp only: hi t, blast\<close>)
      with x show ?thesis using neg_above by blast
    qed
  qed
qed

section \<open>Arithmetic without overflow\<close>

lemma signed_take_bit_wrap:
  fixes k :: int
  assumes "- 3 * 2 ^ n \<le> k" and "k < 3 * 2 ^ n"
  shows "signed_take_bit n k = (if k < - (2 ^ n) then k + 2 * 2 ^ n else if 2 ^ n \<le> k then k - 2 * 2 ^ n else k)"
proof -
  have eq: "signed_take_bit n k = (k + 2 ^ n) mod (2 * 2 ^ n) - 2 ^ n"
    by (simp add: signed_take_bit_eq_take_bit_shift take_bit_eq_mod)
  consider "k < - (2 ^ n)" | "2 ^ n \<le> k" | "- (2 ^ n) \<le> k" "k < 2 ^ n" by linarith
  then show ?thesis
  proof cases
    case 1
    have "(k + 2 ^ n) mod (2 * 2 ^ n) = (k + 2 ^ n + 2 * 2 ^ n) mod (2 * 2 ^ n)"
      by (rule mod_add_self2 [symmetric])
    also have "\<dots> = k + 2 ^ n + 2 * 2 ^ n" using 1 assms by (intro mod_pos_pos_trivial) linarith+
    finally show ?thesis using 1 eq by simp
  next
    case 2
    have "(k + 2 ^ n) mod (2 * 2 ^ n) = (k + 2 ^ n - 2 * 2 ^ n) mod (2 * 2 ^ n)"
      using mod_add_self2 [of "k + 2 ^ n - 2 * 2 ^ n" "2 * 2 ^ n"] by (simp only: diff_add_cancel)
    also have "\<dots> = k + 2 ^ n - 2 * 2 ^ n" using 2 assms by (intro mod_pos_pos_trivial) linarith+
    finally show ?thesis using 2 eq zero_less_power [of "2::int" n] by (smt (verit))
  next
    case 3
    then show ?thesis using eq by (simp add: mod_pos_pos_trivial)
  qed
qed

lemma sint_add_wrap:
  fixes a b :: "'a::len word"
  defines "h \<equiv> (2::int) ^ (LENGTH('a) - 1)"
  shows "sint (a + b) = (if sint a + sint b < - h then sint a + sint b + 2 * h
     else if h \<le> sint a + sint b then sint a + sint b - 2 * h else sint a + sint b)"
proof -
  have "sint (a + b) = signed_take_bit (LENGTH('a) - 1) (sint a + sint b)"
    by (simp add: sint_word_ariths)
  then show ?thesis
    using sint_ge [of a] sint_ge [of b] sint_lt [of a] sint_lt [of b] unfolding h_def
    by (subst (asm) signed_take_bit_wrap) auto
qed

lemma sint_sub_wrap:
  fixes a b :: "'a::len word"
  defines "h \<equiv> (2::int) ^ (LENGTH('a) - 1)"
  shows "sint (a - b) = (if sint a - sint b < - h then sint a - sint b + 2 * h
     else if h \<le> sint a - sint b then sint a - sint b - 2 * h else sint a - sint b)"
proof -
  have "sint (a - b) = signed_take_bit (LENGTH('a) - 1) (sint a - sint b)"
    by (simp add: sint_word_ariths)
  then show ?thesis
    using sint_ge [of a] sint_ge [of b] sint_lt [of a] sint_lt [of b] unfolding h_def
    by (subst (asm) signed_take_bit_wrap) auto
qed

lemma no_add_overflow:
  fixes a b :: "'a::len word"
  assumes "\<not> (if b <s 0 then a <s a + b else a + b <s a)"
  shows "sint (a + b) = sint a + sint b"
  using assms sint_add_wrap [of a b] sint_ge [of b] sint_lt [of b] sint_ge [of a] sint_lt [of a]
  unfolding word_order_int by (auto split: if_splits)

lemma no_sub_overflow:
  fixes a b :: "'a::len word"
  assumes "\<not> (if b <s 0 then a - b <s a else a <s a - b)"
  shows "sint (a - b) = sint a - sint b"
  using assms sint_sub_wrap [of a b] sint_ge [of b] sint_lt [of b] sint_ge [of a] sint_lt [of a]
  unfolding word_order_int by (auto split: if_splits)

lemma signed_add_bounds:
  fixes x y :: "'a::len word"
  assumes "sint (l + m) = sint l + sint m" and "sint (h + k) = sint h + sint k"
    and "l \<le>s x" and "x \<le>s h" and "m \<le>s y" and "y \<le>s k"
  shows "l + m \<le>s x + y" and "x + y \<le>s h + k"
  using assms sint_add_wrap [of x y] sint_ge [of "l + m"] sint_lt [of "h + k"]
  unfolding word_order_int by (auto split: if_splits)

lemma signed_sub_bounds:
  fixes x y :: "'a::len word"
  assumes "sint (l - k) = sint l - sint k" and "sint (h - m) = sint h - sint m"
    and "l \<le>s x" and "x \<le>s h" and "m \<le>s y" and "y \<le>s k"
  shows "l - k \<le>s x - y" and "x - y \<le>s h - m"
  using assms sint_sub_wrap [of x y] sint_ge [of "l - k"] sint_lt [of "h - m"]
  unfolding word_order_int by (auto split: if_splits)

lemma unsigned_add_bounds:
  fixes x y :: "'a::len word"
  assumes "\<not> h + k < k" and "l \<le> x" and "x \<le> h" and "m \<le> y" and "y \<le> k"
  shows "l + m \<le> x + y" and "x + y \<le> h + k"
proof -
  have "uint h + uint k < 2 ^ LENGTH('a)"
    using assms(1) uint_plus_if' [of h k] uint_lt2p [of h] unfolding word_order_int by (smt (verit))
  then show "l + m \<le> x + y" and "x + y \<le> h + k"
    using assms(2-) uint_plus_if' [of h k] uint_plus_if' [of x y] uint_plus_if' [of l m]
    unfolding word_order_int by (smt (verit))+
qed

lemma unsigned_sub_bounds:
  fixes x y :: "'a::len word"
  assumes "\<not> l < k" and "l \<le> x" and "x \<le> h" and "m \<le> y" and "y \<le> k"
  shows "l - k \<le> x - y" and "x - y \<le> h - m"
  using assms unfolding word_order_int by (simp_all add: uint_sub_if')

lemma unsigned_mul_bounds:
  fixes x y :: "'a::len word"
  assumes "unat h * unat k < 2 ^ LENGTH('a)" and "l \<le> x" and "x \<le> h" and "m \<le> y" and "y \<le> k"
  shows "l * m \<le> x * y" and "x * y \<le> h * k"
proof -
  have le: "unat l \<le> unat x" "unat x \<le> unat h" "unat m \<le> unat y" "unat y \<le> unat k"
    using assms by (simp_all add: word_le_nat_alt)
  then have xy: "unat x * unat y \<le> unat h * unat k" and lm: "unat l * unat m \<le> unat x * unat y"
    by (simp_all add: mult_le_mono)
  with assms(1) have "unat (h * k) = unat h * unat k" "unat (x * y) = unat x * unat y"
    "unat (l * m) = unat l * unat m" by (simp_all add: unat_mult_lem [THEN iffD1])
  with xy lm show "l * m \<le> x * y" and "x * y \<le> h * k" by (simp_all add: word_le_nat_alt)
qed

section \<open>Shifted bounds\<close>

lemma unat_push_bit_small:
  fixes x :: "'a::len word"
  assumes "unat x * 2 ^ n < 2 ^ LENGTH('a)"
  shows "unat (push_bit n x) = unat x * 2 ^ n"
  proof -
  have "unat (push_bit n x) = take_bit LENGTH('a) (push_bit n (unat x))" by (rule unsigned_push_bit_eq)
  also have "push_bit n (unat x) = unat x * 2 ^ n" by (rule push_bit_eq_mult)
  finally show ?thesis using assms by (simp only: take_bit_nat_eq_self)
qed

lemma unsigned_lsh_bounds:
  fixes x :: "'a::len word"
  assumes "unat h * 2 ^ k < 2 ^ LENGTH('a)" and "l \<le> x" and "x \<le> h" and "m \<le> s" and "s \<le> k"
  shows "push_bit m l \<le> push_bit s x" and "push_bit s x \<le> push_bit k h"
proof -
  have p: "(2::nat) ^ m \<le> 2 ^ s" "(2::nat) ^ s \<le> 2 ^ k" using assms by simp_all
  have le: "unat l \<le> unat x" "unat x \<le> unat h" using assms by (simp_all add: word_le_nat_alt)
  have xs: "unat x * 2 ^ s \<le> unat h * 2 ^ k" and lm: "unat l * 2 ^ m \<le> unat x * 2 ^ s"
    using mult_le_mono [OF le(2) p(2)] mult_le_mono [OF le(1) p(1)] by simp_all
  with assms(1) have "unat (push_bit k h) = unat h * 2 ^ k" "unat (push_bit s x) = unat x * 2 ^ s"
    "unat (push_bit m l) = unat l * 2 ^ m" by (simp_all only: unat_push_bit_small)
  with xs lm show "push_bit m l \<le> push_bit s x" and "push_bit s x \<le> push_bit k h"
    by (simp_all only: word_le_nat_alt)
qed

lemma drop_bit_mono:
  fixes x y :: "'a::len word"
  assumes "x \<le> y" and "m \<le> n"
  shows "drop_bit n x \<le> drop_bit m y"
proof -
  have "unat x div 2 ^ n \<le> unat y div 2 ^ n" using assms by (simp add: word_le_nat_alt div_le_mono)
  also have "\<dots> \<le> unat y div 2 ^ m" using assms(2) by (intro div_le_mono2) simp_all
  finally show ?thesis by (simp only: word_le_nat_alt unat_drop_bit_eq drop_bit_eq_div [of _ "unat _"])
qed

lemma signed_drop_bit_mono:
  fixes x y :: "'a::len word"
  assumes "x \<le>s y"
  shows "signed_drop_bit n x \<le>s signed_drop_bit n y"
  using assms by (simp add: word_sle_eq sint_signed_drop_bit_eq drop_bit_eq_div zdiv_mono1)

section \<open>Bitwise bounds\<close>

lemma and_le_min: "(x :: 'a::len word) \<le> h \<Longrightarrow> y \<le> k \<Longrightarrow> x AND y \<le> min h k"
  by (meson min.boundedI order_trans word_and_le1 word_and_le2)

lemma max_le_or: "(l :: 'a::len word) \<le> x \<Longrightarrow> m \<le> y \<Longrightarrow> max l m \<le> x OR y"
  using le_word_or1 [of y x] le_word_or2 [of x y] by (auto simp: or.commute [of y x] intro: order_trans)

end
