(* ===== verification/Tnum.thy ===== *)
theory Tnum
  imports Prelude
begin

text \<open>
  Tracked numbers (\<^verbatim>\<open>kernel/bpf/tnum.c\<close>, \<^verbatim>\<open>include/linux/tnum.h\<close>):
  the bitwise abstract domain of the BPF verifier, with the bit search of
  \<^verbatim>\<open>include/asm-generic/bitops\<close> it uses. Every operation of the file is
  translated except the string formatting of \<^verbatim>\<open>tnum_strn\<close>. The lemmas show that
  each operation over-approximates the corresponding operation on 64-bit words.
\<close>

section \<open>Most significant bit\<close>

text \<open>
  \<^verbatim>\<open>__fls\<close> on a 64-bit long: a binary search in six steps. Each step tests
  the top \<open>k\<close> bits of the word and, when they are clear, shifts the word left by
  \<open>k\<close> and lowers the candidate position.
\<close>

fun fls_step :: "nat \<Rightarrow> nat \<times> u64 \<Rightarrow> nat \<times> u64" where
  "fls_step k (num, word) =
    (if word AND push_bit (64 - k) (NOT 0) = 0 then (num - k, push_bit k word) else (num, word))"

definition fls_long :: "u64 \<Rightarrow> nat" where
  "fls_long word =
    fst (fls_step 1 (fls_step 2 (fls_step 4 (fls_step 8 (fls_step 16 (fls_step 32 (63, word)))))))"

definition fls64 :: "u64 \<Rightarrow> nat" where
  "fls64 x = (if x = 0 then 0 else fls_long x + 1)"

definition highest_bit :: "u64 \<Rightarrow> nat \<Rightarrow> bool" where
  "highest_bit x h \<longleftrightarrow> bit x h \<and> (\<forall>m>h. \<not> bit x m)"

lemma highest_bit_exists: "x \<noteq> 0 \<Longrightarrow> \<exists>h. highest_bit x h"
proof -
  assume "x \<noteq> 0"
  then have "\<exists>n. bit x n" by (metis bit_eq_iff bit_0_eq bot_apply bot_bool_def)
  moreover have "finite {n. bit x n}"
    by (rule finite_subset [of _ "{..<64}"]) (use bit_imp_le_length [of x] in auto)
  ultimately have "bit x (Max {n. bit x n})" "\<forall>m > Max {n. bit x n}. \<not> bit x m"
    using Max_in [of "{n. bit x n}"] Max_ge [of "{n. bit x n}"] by (fastforce simp: not_less [symmetric])+
  then show ?thesis unfolding highest_bit_def by blast
qed

text \<open>The search keeps the highest bit within \<open>k\<close> places below the candidate.\<close>

definition fls_inv :: "u64 \<Rightarrow> nat \<Rightarrow> nat \<Rightarrow> nat \<times> u64 \<Rightarrow> bool" where
  "fls_inv x h k s \<longleftrightarrow> snd s = push_bit (63 - fst s) x \<and> h \<le> fst s \<and> fst s \<le> 63 \<and> fst s < h + k"

lemma fls_step_inv:
  assumes h: "highest_bit x h" and inv: "fls_inv x h (2 * k) s" and k: "0 < k" "k \<le> 64"
  shows "fls_inv x h k (fls_step k s)"
proof -
  obtain num w where s: "s = (num, w)" by fastforce
  with inv have w: "w = push_bit (63 - num) x" and num: "h \<le> num" "num \<le> 63" "num < h + 2 * k"
    by (auto simp: fls_inv_def)
  have top: "w AND push_bit (64 - k) (NOT 0) = 0 \<longleftrightarrow> h + k \<le> num"
  proof
    assume *: "w AND push_bit (64 - k) (NOT 0) = 0"
    show "h + k \<le> num"
    proof (rule ccontr)
      assume "\<not> h + k \<le> num"
      then have "64 - k \<le> h + (63 - num)" and "h + (63 - num) < 64" using num k by linarith+
      then have "bit (w AND push_bit (64 - k) (NOT 0)) (h + (63 - num))"
        using h by (simp add: w highest_bit_def bit_simps)
      with * show False by simp
    qed
  next
    assume *: "h + k \<le> num"
    show "w AND push_bit (64 - k) (NOT 0) = 0"
    proof (rule bit_word_eqI)
      fix n assume n: "n < LENGTH(64)"
      show "bit (w AND push_bit (64 - k) (NOT 0)) n = bit (0 :: u64) n"
      proof (cases "64 - k \<le> n")
        case True
        then have "h < n - (63 - num)" using * num n by simp
        then show ?thesis using h by (simp add: w highest_bit_def bit_simps)
      next
        case False
        then show ?thesis by (simp add: bit_simps)
      qed
    qed
  qed
  show ?thesis
  proof (cases "h + k \<le> num")
    case True
    then have "k + (63 - num) = 63 - (num - k)" using num by linarith
    moreover have "h \<le> num - k" "num - k \<le> 63" "num - k < h + k" using True num by linarith+
    ultimately show ?thesis using True top w by (simp add: s fls_inv_def)
  next
    case False
    then show ?thesis using top num w by (auto simp: s fls_inv_def)
  qed
qed

lemma fls_long_correct:
  assumes h: "highest_bit x h"
  shows "fls_long x = h"
proof -
  have "h < 64" using h bit_imp_le_length [of x h] by (simp add: highest_bit_def)
  then have "fls_inv x h (2 * 32) (63, x)" by (simp add: fls_inv_def)
  from fls_step_inv [OF h this]
  have "fls_inv x h (2 * 16) (fls_step 32 (63, x))" by simp
  from fls_step_inv [OF h this]
  have "fls_inv x h (2 * 8) (fls_step 16 (fls_step 32 (63, x)))" by (simp del: fls_step.simps)
  from fls_step_inv [OF h this]
  have "fls_inv x h (2 * 4) (fls_step 8 (fls_step 16 (fls_step 32 (63, x))))" by (simp del: fls_step.simps)
  from fls_step_inv [OF h this]
  have "fls_inv x h (2 * 2) (fls_step 4 (fls_step 8 (fls_step 16 (fls_step 32 (63, x)))))"
    by (simp del: fls_step.simps)
  from fls_step_inv [OF h this]
  have "fls_inv x h (2 * 1) (fls_step 2 (fls_step 4 (fls_step 8 (fls_step 16 (fls_step 32 (63, x))))))"
    by (simp del: fls_step.simps)
  from fls_step_inv [OF h this]
  show ?thesis by (simp add: fls_inv_def fls_long_def del: fls_step.simps)
qed

lemma fls64_above: "fls64 x \<le> n \<Longrightarrow> \<not> bit x n"
  using highest_bit_exists [of x] fls_long_correct [of x]
  by (cases "x = 0") (auto simp: fls64_def highest_bit_def)

section \<open>The operations\<close>

record tnum =
  tn_value :: u64
  tn_mask :: u64

abbreviation TNUM :: "u64 \<Rightarrow> u64 \<Rightarrow> tnum" where
  "TNUM v m \<equiv> \<lparr>tn_value = v, tn_mask = m\<rparr>"

definition tnum_unknown :: tnum where
  "tnum_unknown = TNUM 0 (- 1)"

definition tnum_const :: "u64 \<Rightarrow> tnum" where
  "tnum_const v = TNUM v 0"

definition tnum_range :: "u64 \<Rightarrow> u64 \<Rightarrow> tnum" where
  "tnum_range mn mx =
    (let chi = mn XOR mx; bits = fls64 chi
     in if bits > 63 then tnum_unknown
        else let delta = push_bit bits 1 - 1 in TNUM (mn AND NOT delta) delta)"

definition tnum_lshift :: "tnum \<Rightarrow> u8 \<Rightarrow> tnum" where
  "tnum_lshift a shift = TNUM (push_bit (unat shift) (tn_value a)) (push_bit (unat shift) (tn_mask a))"

definition tnum_rshift :: "tnum \<Rightarrow> u8 \<Rightarrow> tnum" where
  "tnum_rshift a shift = TNUM (drop_bit (unat shift) (tn_value a)) (drop_bit (unat shift) (tn_mask a))"

definition tnum_arshift :: "tnum \<Rightarrow> u8 \<Rightarrow> u8 \<Rightarrow> tnum" where
  "tnum_arshift a min_shift insn_bitness =
    (if insn_bitness = 32
     then TNUM (ucast (signed_drop_bit (unat min_shift) (ucast (tn_value a) :: s32)))
               (ucast (signed_drop_bit (unat min_shift) (ucast (tn_mask a) :: s32)))
     else TNUM (signed_drop_bit (unat min_shift) (tn_value a))
               (signed_drop_bit (unat min_shift) (tn_mask a)))"

definition tnum_add :: "tnum \<Rightarrow> tnum \<Rightarrow> tnum" where
  "tnum_add a b =
    (let sm = tn_mask a + tn_mask b;
         sv = tn_value a + tn_value b;
         sigma = sm + sv;
         chi = sigma XOR sv;
         mu = chi OR tn_mask a OR tn_mask b
     in TNUM (sv AND NOT mu) mu)"

definition tnum_sub :: "tnum \<Rightarrow> tnum \<Rightarrow> tnum" where
  "tnum_sub a b =
    (let dv = tn_value a - tn_value b;
         alpha = dv + tn_mask a;
         beta = dv - tn_mask b;
         chi = alpha XOR beta;
         mu = chi OR tn_mask a OR tn_mask b
     in TNUM (dv AND NOT mu) mu)"

definition tnum_and :: "tnum \<Rightarrow> tnum \<Rightarrow> tnum" where
  "tnum_and a b =
    (let alpha = tn_value a OR tn_mask a;
         beta = tn_value b OR tn_mask b;
         v = tn_value a AND tn_value b
     in TNUM v (alpha AND beta AND NOT v))"

definition tnum_or :: "tnum \<Rightarrow> tnum \<Rightarrow> tnum" where
  "tnum_or a b =
    (let v = tn_value a OR tn_value b;
         mu = tn_mask a OR tn_mask b
     in TNUM v (mu AND NOT v))"

definition tnum_xor :: "tnum \<Rightarrow> tnum \<Rightarrow> tnum" where
  "tnum_xor a b =
    (let v = tn_value a XOR tn_value b;
         mu = tn_mask a OR tn_mask b
     in TNUM (v AND NOT mu) mu)"

text \<open>The loop runs while \<^verbatim>\<open>mask\<close> is not zero and halves it each time.\<close>

function hma :: "tnum \<Rightarrow> u64 \<Rightarrow> u64 \<Rightarrow> tnum" where
  "hma acc v m =
    (if m \<noteq> 0
     then hma (if m AND 1 \<noteq> 0 then tnum_add acc (TNUM 0 v) else acc) (push_bit 1 v) (drop_bit 1 m)
     else acc)"
  by pat_completeness auto
termination
  by (relation "measure (\<lambda>(acc, v, m). unat m)") (simp_all add: unat_drop_bit_1_less del: One_nat_def)

declare hma.simps [simp del]

definition tnum_mul :: "tnum \<Rightarrow> tnum \<Rightarrow> tnum" where
  "tnum_mul a b =
    (let pi0 = tn_value a * tn_value b;
         acc = hma (TNUM pi0 0) (tn_mask a) (tn_mask b OR tn_value b)
     in hma acc (tn_mask b) (tn_value a))"

definition tnum_intersect :: "tnum \<Rightarrow> tnum \<Rightarrow> tnum" where
  "tnum_intersect a b =
    (let v = tn_value a OR tn_value b;
         mu = tn_mask a AND tn_mask b
     in TNUM (v AND NOT mu) mu)"

definition tnum_cast :: "tnum \<Rightarrow> u8 \<Rightarrow> tnum" where
  "tnum_cast a sz =
    TNUM (tn_value a AND (push_bit (unat sz * 8) 1 - 1)) (tn_mask a AND (push_bit (unat sz * 8) 1 - 1))"

definition tnum_is_aligned :: "tnum \<Rightarrow> u64 \<Rightarrow> bool" where
  "tnum_is_aligned a sz = (if sz = 0 then True else (tn_value a OR tn_mask a) AND (sz - 1) = 0)"

definition tnum_in :: "tnum \<Rightarrow> tnum \<Rightarrow> bool" where
  "tnum_in a b = (if tn_mask b AND NOT (tn_mask a) \<noteq> 0 then False
                  else tn_value a = (tn_value b AND NOT (tn_mask a)))"

definition tnum_subreg :: "tnum \<Rightarrow> tnum" where
  "tnum_subreg a = tnum_cast a 4"

definition tnum_clear_subreg :: "tnum \<Rightarrow> tnum" where
  "tnum_clear_subreg a = tnum_lshift (tnum_rshift a 32) 32"

definition tnum_const_subreg :: "tnum \<Rightarrow> u32 \<Rightarrow> tnum" where
  "tnum_const_subreg a v = tnum_or (tnum_clear_subreg a) (tnum_const (ucast v))"

definition tnum_is_const :: "tnum \<Rightarrow> bool" where
  "tnum_is_const a = (tn_mask a = 0)"

definition tnum_equals_const :: "tnum \<Rightarrow> u64 \<Rightarrow> bool" where
  "tnum_equals_const a b = (tnum_is_const a \<and> tn_value a = b)"

definition tnum_is_unknown :: "tnum \<Rightarrow> bool" where
  "tnum_is_unknown a = (NOT (tn_mask a) = 0)"

definition tnum_subreg_is_const :: "tnum \<Rightarrow> bool" where
  "tnum_subreg_is_const a = (tn_mask (tnum_subreg a) = 0)"

section \<open>Concretisation\<close>

text \<open>The words a tracked number stands for: those that agree with it on every known bit.\<close>

definition tnum_contains :: "tnum \<Rightarrow> u64 \<Rightarrow> bool" where
  "tnum_contains t x \<longleftrightarrow> x AND NOT (tn_mask t) = tn_value t"

lemma tnum_containsI:
  assumes "\<And>n. n < 64 \<Longrightarrow> bit (tn_mask t) n \<Longrightarrow> \<not> bit (tn_value t) n"
    and "\<And>n. n < 64 \<Longrightarrow> \<not> bit (tn_mask t) n \<Longrightarrow> bit (tn_value t) n = bit x n"
  shows "tnum_contains t x"
  unfolding tnum_contains_def using assms by (intro bit_word_eqI) (auto simp: bit_simps)

lemma tnum_containsD:
  assumes "tnum_contains t x"
  shows "\<forall>n. bit (tn_value t) n = (bit x n \<and> \<not> bit (tn_mask t) n)"
proof
  fix n
  have "tn_value t = x AND NOT (tn_mask t)"
    using assms by (simp add: tnum_contains_def)
  then show "bit (tn_value t) n = (bit x n \<and> \<not> bit (tn_mask t) n)"
    using bit_imp_le_length [of x n] by (auto simp: bit_simps)
qed

lemma tnum_contains_bits:
  assumes "tnum_contains t x"
  shows "bit (tn_value t) n \<Longrightarrow> bit x n"
    and "bit x n \<Longrightarrow> bit (tn_value t) n \<or> bit (tn_mask t) n"
    and "bit (tn_mask t) n \<Longrightarrow> \<not> bit (tn_value t) n"
  using tnum_containsD [OF assms] by auto

lemma tnum_contains_upper:
  assumes "tnum_contains t x"
  shows "tn_value t + tn_mask t = tn_value t OR tn_mask t"
  using tnum_contains_bits(3) [OF assms] by (intro disjoint_plus_or) blast

lemma tnum_contains_bounds:
  assumes "tnum_contains t x"
  shows "tn_value t \<le> x" and "x \<le> tn_value t OR tn_mask t"
  using tnum_contains_bits [OF assms] by (auto intro!: bits_subset_le simp: bit_simps)

section \<open>Soundness of the bitwise operations\<close>

named_theorems tnum_sound \<open>soundness of the operations on tracked numbers\<close>

lemma tnum_unknown_contains [simp, tnum_sound]: "tnum_contains tnum_unknown x"
  by (simp add: tnum_contains_def tnum_unknown_def)

lemma tnum_const_contains [simp]: "tnum_contains (tnum_const v) x \<longleftrightarrow> x = v"
  by (simp add: tnum_contains_def tnum_const_def)

lemma tnum_contains_const: "tnum_is_const t \<Longrightarrow> tnum_contains t x \<longleftrightarrow> x = tn_value t"
  by (simp add: tnum_contains_def tnum_is_const_def)

lemma tnum_and_sound [tnum_sound]:
  "tnum_contains a x \<Longrightarrow> tnum_contains b y \<Longrightarrow> tnum_contains (tnum_and a b) (x AND y)"
  by (drule tnum_containsD, drule tnum_containsD, rule tnum_containsI) (auto simp: tnum_and_def Let_def bit_simps)

lemma tnum_or_sound [tnum_sound]:
  "tnum_contains a x \<Longrightarrow> tnum_contains b y \<Longrightarrow> tnum_contains (tnum_or a b) (x OR y)"
  by (drule tnum_containsD, drule tnum_containsD, rule tnum_containsI) (auto simp: tnum_or_def Let_def bit_simps)

lemma tnum_xor_sound [tnum_sound]:
  "tnum_contains a x \<Longrightarrow> tnum_contains b y \<Longrightarrow> tnum_contains (tnum_xor a b) (x XOR y)"
  by (drule tnum_containsD, drule tnum_containsD, rule tnum_containsI) (auto simp: tnum_xor_def Let_def bit_simps)

lemma tnum_intersect_sound [tnum_sound]:
  "tnum_contains a x \<Longrightarrow> tnum_contains b x \<Longrightarrow> tnum_contains (tnum_intersect a b) x"
  by (drule tnum_containsD, drule tnum_containsD, rule tnum_containsI) (auto simp: tnum_intersect_def Let_def bit_simps)

lemma tnum_lshift_sound [tnum_sound]:
  "tnum_contains a x \<Longrightarrow> tnum_contains (tnum_lshift a s) (push_bit (unat s) x)"
  by (drule tnum_containsD, rule tnum_containsI) (auto simp: tnum_lshift_def bit_simps)

lemma tnum_rshift_sound [tnum_sound]:
  "tnum_contains a x \<Longrightarrow> tnum_contains (tnum_rshift a s) (drop_bit (unat s) x)"
  by (drule tnum_containsD, rule tnum_containsI) (auto simp: tnum_rshift_def bit_simps)

lemma tnum_arshift64_sound [tnum_sound]:
  "tnum_contains a x \<Longrightarrow> tnum_contains (tnum_arshift a s 64) (signed_drop_bit (unat s) x)"
  by (drule tnum_containsD, rule tnum_containsI) (auto simp: tnum_arshift_def bit_simps bit_signed_drop_bit_iff)

lemma bit_arshift32:
  "bit (ucast (signed_drop_bit k (ucast (w :: u64) :: s32)) :: u64) n \<longleftrightarrow>
    n < 32 \<and> bit w (if 32 - k \<le> n then 31 else k + n)"
  by (auto simp: bit_unsigned_iff bit_signed_drop_bit_iff)

lemma tnum_arshift32_sound [tnum_sound]:
  assumes "tnum_contains a x"
  shows "tnum_contains (tnum_arshift a s 32) (ucast (signed_drop_bit (unat s) (ucast x :: s32)))"
  by (rule tnum_containsI) (auto simp: tnum_arshift_def bit_arshift32 tnum_containsD [OF assms, rule_format] split: if_splits)

lemma tnum_cast_sound [tnum_sound]:
  "tnum_contains a x \<Longrightarrow> tnum_contains (tnum_cast a sz) (x AND (push_bit (unat sz * 8) 1 - 1))"
  by (drule tnum_containsD, rule tnum_containsI) (auto simp: tnum_cast_def bit_simps)

lemma subreg_mask: "(push_bit (unat (4 :: u8) * 8) 1 - 1 :: u64) = mask 32"
  by (simp add: mask_eq_exp_minus_1)

lemma and_mask32: "(x :: u64) AND mask 32 = ucast (ucast x :: u32)"
  by (intro bit_word_eqI) (auto simp: bit_simps)

lemma tnum_subreg_sound [tnum_sound]:
  "tnum_contains a x \<Longrightarrow> tnum_contains (tnum_subreg a) (ucast (ucast x :: u32))"
  using tnum_cast_sound [of a x 4] by (simp only: tnum_subreg_def subreg_mask and_mask32)

lemma tnum_clear_subreg_sound [tnum_sound]:
  "tnum_contains a x \<Longrightarrow> tnum_contains (tnum_clear_subreg a) (push_bit 32 (drop_bit 32 x))"
  using tnum_lshift_sound [OF tnum_rshift_sound, of a x 32 32] by (simp add: tnum_clear_subreg_def)

lemma split_subreg: "(x :: u64) = push_bit 32 (drop_bit 32 x) OR ucast (ucast x :: u32)"
  by (intro bit_word_eqI) (auto simp: bit_simps)

lemma tnum_const_subreg_sound [tnum_sound]:
  assumes "tnum_contains a x" and "ucast x = v"
  shows "tnum_contains (tnum_const_subreg a v) x"
proof -
  have "tnum_contains (tnum_const_subreg a v) (push_bit 32 (drop_bit 32 x) OR ucast v)"
    unfolding tnum_const_subreg_def by (intro tnum_sound assms(1)) simp
  then show ?thesis using split_subreg [of x] assms(2) by simp
qed

lemma tnum_in_sound:
  assumes "tnum_in a b" and "tnum_contains b x"
  shows "tnum_contains a x"
proof -
  have sub: "\<And>n. bit (tn_mask b) n \<Longrightarrow> bit (tn_mask a) n"
  proof -
    fix n assume m: "bit (tn_mask b) n"
    have "\<not> bit (tn_mask b AND NOT (tn_mask a)) n"
      using assms(1) by (simp add: tnum_in_def split: if_splits)
    with m show "bit (tn_mask a) n" using bit_imp_le_length [OF m] by (simp add: bit_simps)
  qed
  have "tn_value a = tn_value b AND NOT (tn_mask a)"
    using assms(1) by (simp add: tnum_in_def split: if_splits)
  then show ?thesis
    using sub tnum_containsD [OF assms(2)] by (intro tnum_containsI) (auto simp: bit_simps)
qed

section \<open>Soundness of the arithmetic operations\<close>

lemma tnum_add_sound [tnum_sound]:
  assumes x: "tnum_contains a x" and y: "tnum_contains b y"
  shows "tnum_contains (tnum_add a b) (x + y)"
proof -
  define A where "A = tn_value a OR tn_mask a"
  define B where "B = tn_value b OR tn_mask b"
  define sv where "sv = tn_value a + tn_value b"
  define mu where "mu = (((tn_mask a + tn_mask b) + sv) XOR sv) OR tn_mask a OR tn_mask b"
  have "(tn_mask a + tn_mask b) + sv = (tn_value a + tn_mask a) + (tn_value b + tn_mask b)"
    by (simp add: sv_def algebra_simps)
  then have sigma: "(tn_mask a + tn_mask b) + sv = A + B"
    by (simp only: tnum_contains_upper [OF x] tnum_contains_upper [OF y] A_def B_def)
  have key: "bit (x + y) n = bit sv n" if n: "n < 64" and unknown: "\<not> bit mu n" for n
  proof -
    have am: "\<not> bit (tn_mask a) n" and bm: "\<not> bit (tn_mask b) n"
      and same: "bit (A + B) n = bit sv n"
      using unknown by (auto simp: mu_def sigma bit_simps)
    have digits: "bit A n = bit (tn_value a) n" "bit B n = bit (tn_value b) n"
      "bit x n = bit (tn_value a) n" "bit y n = bit (tn_value b) n"
      using am bm tnum_containsD [OF x, rule_format, of n] tnum_containsD [OF y, rule_format, of n]
      by (auto simp: A_def B_def bit_simps)
    have lower: "take_bit n (uint (tn_value a)) \<le> take_bit n (uint x)"
        "take_bit n (uint (tn_value b)) \<le> take_bit n (uint y)"
      by (rule bits_subset_take_bit, erule tnum_contains_bits(1) [OF x])
        (rule bits_subset_take_bit, erule tnum_contains_bits(1) [OF y])
    have upper: "take_bit n (uint x) \<le> take_bit n (uint A)" "take_bit n (uint y) \<le> take_bit n (uint B)"
      unfolding A_def B_def using tnum_contains_bits(2) [OF x] tnum_contains_bits(2) [OF y]
      by (auto intro!: bits_subset_take_bit simp: bit_simps)
    let ?c = "\<lambda>p q. 2 ^ n \<le> take_bit n (uint (p :: u64)) + take_bit n (uint (q :: u64))"
    have "?c (tn_value a) (tn_value b) \<Longrightarrow> ?c x y" "?c x y \<Longrightarrow> ?c A B"
      using lower upper by linarith+
    moreover have "?c A B = ?c (tn_value a) (tn_value b)"
      using same n by (simp only: sv_def bit_plus_carry digits len_of_numeral_defs) blast
    ultimately have "?c x y = ?c (tn_value a) (tn_value b)" by blast
    then show ?thesis
      using n by (simp only: sv_def bit_plus_carry digits len_of_numeral_defs)
  qed
  have "tnum_add a b = TNUM (sv AND NOT mu) mu"
    by (simp add: tnum_add_def Let_def sv_def mu_def)
  then show ?thesis using key by (intro tnum_containsI) (auto simp: bit_simps)
qed


lemma tnum_sub_sound [tnum_sound]:
  assumes x: "tnum_contains a x" and y: "tnum_contains b y"
  shows "tnum_contains (tnum_sub a b) (x - y)"
proof -
  define A where "A = tn_value a OR tn_mask a"
  define B where "B = tn_value b OR tn_mask b"
  define dv where "dv = tn_value a - tn_value b"
  define mu where "mu = ((dv + tn_mask a) XOR (dv - tn_mask b)) OR tn_mask a OR tn_mask b"
  have alpha: "dv + tn_mask a = A - tn_value b"
    using tnum_contains_upper [OF x] by (simp add: dv_def A_def algebra_simps)
  have beta: "dv - tn_mask b = tn_value a - B"
    using tnum_contains_upper [OF y] by (simp add: dv_def B_def algebra_simps)
  have key: "bit (x - y) n = bit dv n" if n: "n < 64" and unknown: "\<not> bit mu n" for n
  proof -
    have am: "\<not> bit (tn_mask a) n" and bm: "\<not> bit (tn_mask b) n"
      and same: "bit (A - tn_value b) n = bit (tn_value a - B) n"
      using unknown by (auto simp: mu_def alpha beta bit_simps)
    have digits: "bit A n = bit (tn_value a) n" "bit B n = bit (tn_value b) n"
      "bit x n = bit (tn_value a) n" "bit y n = bit (tn_value b) n"
      using am bm tnum_containsD [OF x, rule_format, of n] tnum_containsD [OF y, rule_format, of n]
      by (auto simp: A_def B_def bit_simps)
    have lower: "take_bit n (uint (tn_value a)) \<le> take_bit n (uint x)"
        "take_bit n (uint (tn_value b)) \<le> take_bit n (uint y)"
      by (rule bits_subset_take_bit, erule tnum_contains_bits(1) [OF x])
        (rule bits_subset_take_bit, erule tnum_contains_bits(1) [OF y])
    have upper: "take_bit n (uint x) \<le> take_bit n (uint A)" "take_bit n (uint y) \<le> take_bit n (uint B)"
      unfolding A_def B_def using tnum_contains_bits(2) [OF x] tnum_contains_bits(2) [OF y]
      by (auto intro!: bits_subset_take_bit simp: bit_simps)
    let ?b = "\<lambda>p q. take_bit n (uint (p :: u64)) < take_bit n (uint (q :: u64))"
    have "?b A (tn_value b) \<Longrightarrow> ?b x y" "?b x y \<Longrightarrow> ?b (tn_value a) B"
      "?b A (tn_value b) \<Longrightarrow> ?b (tn_value a) (tn_value b)"
      "?b (tn_value a) (tn_value b) \<Longrightarrow> ?b (tn_value a) B"
      using lower upper by linarith+
    moreover have "?b A (tn_value b) = ?b (tn_value a) B"
      using same n by (simp only: bit_minus_borrow digits len_of_numeral_defs) blast
    ultimately have "?b x y = ?b (tn_value a) (tn_value b)" by blast
    then show ?thesis
      using n by (simp only: dv_def bit_minus_borrow digits len_of_numeral_defs)
  qed
  have "tnum_sub a b = TNUM (dv AND NOT mu) mu"
    by (simp add: tnum_sub_def Let_def dv_def mu_def)
  then show ?thesis using key by (intro tnum_containsI) (auto simp: bit_simps)
qed

text \<open>
  One half-multiply: if \<^verbatim>\<open>acc\<close> stands for \<open>z\<close>, the multiplicand
  \<open>d\<close> uses only bits of \<open>v\<close> and the multiplier \<open>e\<close> only bits
  of \<open>m\<close>, the accumulated value stands for \<open>z + d * e\<close>.
\<close>

lemma word_split_lsb: "(e :: u64) = of_bool (bit e 0) + 2 * drop_bit 1 e"
proof -
  have "2 * (e div 2) + e mod 2 = e" by (rule mult_div_mod_eq)
  then show ?thesis by (simp add: drop_bit_Suc mod_2_eq_odd bit_0 add.commute)
qed

lemma hma_sound:
  assumes "tnum_contains acc z" "\<And>n. bit d n \<Longrightarrow> bit v n" "\<And>n. bit e n \<Longrightarrow> bit m n"
  shows "tnum_contains (hma acc v m) (z + d * e)"
  using assms
proof (induction acc v m arbitrary: z d e rule: hma.induct)
  case (1 acc v m)
  show ?case
  proof (cases "m = 0")
    case True
    with "1.prems"(3) have "e = 0" by (intro bit_word_eqI) auto
    with True "1.prems"(1) show ?thesis by (simp add: hma.simps)
  next
    case False
    let ?acc = "if m AND 1 \<noteq> 0 then tnum_add acc (TNUM 0 v) else acc"
    have odd_m: "m AND 1 \<noteq> 0 \<longleftrightarrow> bit m 0" by (simp add: and_one_eq mod_2_eq_odd bit_0)
    have d: "tnum_contains (TNUM 0 v) (of_bool (bit e 0) * d)"
      using "1.prems"(2) by (intro tnum_containsI) auto
    have "tnum_contains ?acc (z + of_bool (bit e 0) * d)"
    proof (cases "bit m 0")
      case True
      then show ?thesis using tnum_add_sound [OF "1.prems"(1) d] by (simp add: odd_m)
    next
      case False
      then have "\<not> bit e 0" using "1.prems"(3) by blast
      with False "1.prems"(1) show ?thesis by (simp add: odd_m)
    qed
    moreover have "bit (push_bit 1 d) n \<Longrightarrow> bit (push_bit 1 v) n" for n
      using "1.prems"(2) by (simp only: bit_push_bit_iff)
    moreover have "bit (drop_bit 1 e) n \<Longrightarrow> bit (drop_bit 1 m) n" for n
      using "1.prems"(3) by (simp only: bit_drop_bit_eq comp_apply)
    ultimately have "tnum_contains (hma ?acc (push_bit 1 v) (drop_bit 1 m))
        (z + of_bool (bit e 0) * d + push_bit 1 d * drop_bit 1 e)"
      using "1.IH" [OF False] by blast
    moreover have "z + of_bool (bit e 0) * d + push_bit 1 d * drop_bit 1 e = z + d * e"
      by (subst (3) word_split_lsb) (simp add: push_bit_eq_mult algebra_simps)
    ultimately show ?thesis by (simp only: hma.simps [of acc v m] False not_False_eq_True if_True)
  qed
qed

lemma tnum_mul_sound [tnum_sound]:
  assumes x: "tnum_contains a x" and y: "tnum_contains b y"
  shows "tnum_contains (tnum_mul a b) (x * y)"
proof -
  define dx where "dx = x AND tn_mask a"
  define dy where "dy = y AND tn_mask b"
  have splitx: "x = tn_value a + dx"
  proof -
    have "tn_value a + dx = tn_value a OR dx"
      using tnum_contains_bits(3) [OF x] by (intro disjoint_plus_or) (auto simp: dx_def bit_simps)
    also have "\<dots> = x"
      using tnum_containsD [OF x] by (intro bit_word_eqI) (auto simp: dx_def bit_simps)
    finally show ?thesis by simp
  qed
  have splity: "y = tn_value b + dy"
  proof -
    have "tn_value b + dy = tn_value b OR dy"
      using tnum_contains_bits(3) [OF y] by (intro disjoint_plus_or) (auto simp: dy_def bit_simps)
    also have "\<dots> = y"
      using tnum_containsD [OF y] by (intro bit_word_eqI) (auto simp: dy_def bit_simps)
    finally show ?thesis by simp
  qed
  have "tnum_contains (TNUM (tn_value a * tn_value b) 0) (tn_value a * tn_value b)"
    by (simp add: tnum_contains_def)
  moreover have "bit dx n \<Longrightarrow> bit (tn_mask a) n" "bit dy n \<Longrightarrow> bit (tn_mask b) n"
    "bit y n \<Longrightarrow> bit (tn_mask b OR tn_value b) n" for n
    using tnum_contains_bits(2) [OF y] by (auto simp: dx_def dy_def bit_simps)
  ultimately have "tnum_contains (tnum_mul a b) (tn_value a * tn_value b + dx * y + dy * tn_value a)"
    unfolding tnum_mul_def Let_def by (intro hma_sound) auto
  moreover have "tn_value a * tn_value b + dx * y + dy * tn_value a = x * y"
    by (subst splitx, subst (2) splity) (simp add: splity algebra_simps)
  ultimately show ?thesis by simp
qed


section \<open>Ranges\<close>

lemma tnum_range_sound [tnum_sound]:
  assumes "mn \<le> x" and "x \<le> mx"
  shows "tnum_contains (tnum_range mn mx) x"
proof (cases "fls64 (mn XOR mx) > 63")
  case True
  then show ?thesis by (simp add: tnum_range_def Let_def)
next
  case False
  define b where "b = fls64 (mn XOR mx)"
  have delta: "push_bit b 1 - 1 = (mask b :: u64)" by (simp add: mask_eq_exp_minus_1)
  have "drop_bit b mn = drop_bit b mx"
  proof (rule bit_word_eqI)
    fix n assume "n < LENGTH(64)"
    have "\<not> bit (mn XOR mx) (b + n)" by (rule fls64_above) (simp add: b_def)
    then show "bit (drop_bit b mn) n = bit (drop_bit b mx) n" by (simp add: bit_simps)
  qed
  moreover have "drop_bit b mn \<le> drop_bit b x" "drop_bit b x \<le> drop_bit b mx"
    using assms by (simp_all only: word_le_nat_alt unat_drop_bit_eq) (simp_all add: drop_bit_eq_div div_le_mono)
  ultimately have eq: "drop_bit b x = drop_bit b mn" by simp
  have same: "bit x n = bit mn n" if "b \<le> n" for n
    using arg_cong [OF eq, of "\<lambda>w. bit w (n - b)"] that by (simp add: bit_drop_bit_eq)
  have "tnum_range mn mx = TNUM (mn AND NOT (mask b)) (mask b)"
    using False by (simp only: tnum_range_def Let_def b_def [symmetric] delta if_False)
  then show ?thesis
    using same by (intro tnum_containsI) (auto simp: bit_simps)
qed

section \<open>Properties\<close>

text \<open>
  C36. Tracked arithmetic: a sum, a difference or a product of tracked numbers contains the sum, the
  difference or the product, modulo the word size, of any values the operands contain.
\<close>

theorem tnum_arith_contains:
  assumes "tnum_contains a x" and "tnum_contains b y"
  shows "tnum_contains (tnum_add a b) (x + y) \<and> tnum_contains (tnum_sub a b) (x - y) \<and> tnum_contains (tnum_mul a b) (x * y)"
  by (simp add: tnum_add_sound [OF assms] tnum_sub_sound [OF assms] tnum_mul_sound [OF assms])

theorem tnum_arith_contains_witness:
  "tnum_contains (tnum_add (TNUM 4 3) (TNUM 0 8)) (6 + 8) \<and> tnum_contains (tnum_sub (TNUM 4 3) (TNUM 0 8)) (6 - 8) \<and>
   tnum_contains (tnum_mul (TNUM 4 3) (TNUM 0 8)) (6 * 8)"
proof -
  have "tnum_contains (TNUM 4 3) 6" "tnum_contains (TNUM 0 8) 8" by code_simp+
  from tnum_arith_contains [OF this] show ?thesis .
qed

text \<open>The tracked number of a range contains every value of the range.\<close>

theorem tnum_range_contains:
  assumes "mn \<le> x" and "x \<le> mx"
  shows "tnum_contains (tnum_range mn mx) x"
  by (rule tnum_range_sound [OF assms])

theorem tnum_range_contains_witness: "tnum_contains (tnum_range 16 20) 19"
  by (rule tnum_range_contains) simp_all

text \<open>The bit search: all bits from \<open>fls64 x\<close> on are zero, and for a nonzero word the bit below is set.\<close>

theorem fls64_highest:
  "(\<forall>n. fls64 x \<le> n \<longrightarrow> \<not> bit x n) \<and> (x = 0 \<longrightarrow> fls64 x = 0) \<and> (x \<noteq> 0 \<longrightarrow> 0 < fls64 x \<and> bit x (fls64 x - 1))"
proof -
  have "0 < fls64 x \<and> bit x (fls64 x - 1)" if "x \<noteq> 0"
    using highest_bit_exists [OF that] fls_long_correct [of x] that by (auto simp: fls64_def highest_bit_def)
  then show ?thesis using fls64_above [of x] by (auto simp: fls64_def)
qed

theorem fls64_highest_witness: "fls64 8 = 4 \<and> bit (8 :: u64) 3"
proof -
  have "fls64 8 = 4" by code_simp
  then show ?thesis using fls64_highest [of 8] by simp
qed

end
