(* ===== verification/Bpf_Reg.thy ===== *)
theory Bpf_Reg
  imports Tnum
begin

text \<open>
  The register state of the BPF verifier (\<^verbatim>\<open>struct bpf_reg_state\<close> of
  \<^verbatim>\<open>include/linux/bpf_verifier.h\<close>) and the functions of
  \<^verbatim>\<open>kernel/bpf/verifier.c\<close> that set, widen and refine its bounds. A C function
  with leading underscores keeps one \<open>u\<close> for each of them, so that
  \<^verbatim>\<open>__mark_reg_unknown\<close> is \<open>uu_mark_reg_unknown\<close> and stays apart from
  \<^verbatim>\<open>mark_reg_unknown\<close>.

  \<open>reg_contains r x\<close> says that the state \<open>r\<close> of a scalar register allows the
  64-bit value \<open>x\<close>. The lemmas show that no refinement step excludes a value the
  register can have.
\<close>

section \<open>Data\<close>

datatype bpf_reg_type = NOT_INIT | SCALAR_VALUE | PTR_TO_CTX | CONST_PTR_TO_MAP | PTR_TO_MAP_VALUE
  | PTR_TO_MAP_VALUE_OR_NULL | PTR_TO_STACK | PTR_TO_PACKET_META | PTR_TO_PACKET | PTR_TO_PACKET_END
  | PTR_TO_FLOW_KEYS | PTR_TO_SOCKET | PTR_TO_SOCKET_OR_NULL | PTR_TO_SOCK_COMMON
  | PTR_TO_SOCK_COMMON_OR_NULL | PTR_TO_TCP_SOCK | PTR_TO_TCP_SOCK_OR_NULL | PTR_TO_TP_BUFFER
  | PTR_TO_XDP_SOCK | PTR_TO_BTF_ID | PTR_TO_BTF_ID_OR_NULL | PTR_TO_MEM | PTR_TO_MEM_OR_NULL
  | PTR_TO_RDONLY_BUF | PTR_TO_RDONLY_BUF_OR_NULL | PTR_TO_RDWR_BUF | PTR_TO_RDWR_BUF_OR_NULL
  | PTR_TO_PERCPU_BTF_ID

text \<open>
  The union of \<^verbatim>\<open>range\<close>, \<^verbatim>\<open>map_ptr\<close>, \<^verbatim>\<open>btf_id\<close> and
  \<^verbatim>\<open>mem_size\<close> is its widest member \<^verbatim>\<open>raw\<close>;
  \<^verbatim>\<open>parent\<close> is a handle of the parent state.
\<close>

record bpf_reg_state =
  reg_type :: bpf_reg_type
  reg_raw :: u64
  reg_off :: s32
  reg_id :: u32
  ref_obj_id :: u32
  var_off :: tnum
  smin_value :: s64
  smax_value :: s64
  umin_value :: u64
  umax_value :: u64
  s32_min_value :: s32
  s32_max_value :: s32
  u32_min_value :: u32
  u32_max_value :: u32
  reg_parent :: "nat option"
  frameno :: u32
  subreg_def :: s32
  reg_live :: u32
  reg_precise :: bool

abbreviation BPF_REG_FP :: nat where "BPF_REG_FP \<equiv> 10"
abbreviation MAX_BPF_REG :: nat where "MAX_BPF_REG \<equiv> 11"

text \<open>The per-instruction data and the verifier environment, as far as the modelled functions use them.\<close>

record bpf_insn_aux_data =
  alu_state :: u8
  alu_limit :: u32
  zext_dst :: bool

text \<open>The attributes of a map the checks read.\<close>

record bpf_map =
  value_size :: u32
  spin_lock_off :: s32

text \<open>
  The part of a verifier state the modelled functions use: the registers of the current frame, and
  whether the path is only explored as a speculative one.
\<close>

record bpf_verifier_state =
  st_regs :: "bpf_reg_state list"
  st_speculative :: bool

record bpf_verifier_stack_elem =
  elem_st :: bpf_verifier_state
  elem_insn_idx :: u32
  elem_prev_insn_idx :: u32

text \<open>
  The registers of the parent states are in \<open>parent_regs\<close>, indexed by the handles of
  \<open>reg_parent\<close>; \<open>kzalloc_ok\<close> says whether the next allocation succeeds, and
  \<open>map_of_ptr\<close> gives the map a \<^verbatim>\<open>map_ptr\<close> points to.
\<close>

record bpf_verifier_env =
  insn_idx :: u32
  cur_state :: bpf_verifier_state
  parent_regs :: "bpf_reg_state list"
  stack_head :: "bpf_verifier_stack_elem list"
  stack_size :: u32
  kzalloc_ok :: bool
  id_gen :: u32
  explore_alu_limits :: bool
  allow_ptr_leaks :: bool
  bpf_capable :: bool
  bypass_spec_v1 :: bool
  longest_mark_read_walk :: u32
  insn_aux_data :: "u32 \<Rightarrow> bpf_insn_aux_data"
  map_of_ptr :: "u64 \<Rightarrow> bpf_map"
  subprog_cnt :: u32

definition cur_regs :: "bpf_verifier_env \<Rightarrow> bpf_reg_state list" where
  "cur_regs env = st_regs (cur_state env)"

definition set_cur_regs :: "bpf_verifier_env \<Rightarrow> bpf_reg_state list \<Rightarrow> bpf_verifier_env" where
  "set_cur_regs env regs = env\<lparr>cur_state := (cur_state env)\<lparr>st_regs := regs\<rparr>\<rparr>"

section \<open>Setting bounds\<close>

definition uuu_mark_reg_known :: "bpf_reg_state \<Rightarrow> u64 \<Rightarrow> bpf_reg_state" where
  "uuu_mark_reg_known reg imm = reg\<lparr>
     var_off := tnum_const imm,
     smin_value := imm, smax_value := imm, umin_value := imm, umax_value := imm,
     s32_min_value := ucast imm, s32_max_value := ucast imm,
     u32_min_value := ucast imm, u32_max_value := ucast imm\<rparr>"

definition uu_mark_reg_known :: "bpf_reg_state \<Rightarrow> u64 \<Rightarrow> bpf_reg_state" where
  "uu_mark_reg_known reg imm =
     uuu_mark_reg_known (reg\<lparr>reg_raw := 0, reg_off := 0, reg_id := 0, ref_obj_id := 0\<rparr>) imm"

definition uu_mark_reg32_known :: "bpf_reg_state \<Rightarrow> u64 \<Rightarrow> bpf_reg_state" where
  "uu_mark_reg32_known reg imm = reg\<lparr>
     var_off := tnum_const_subreg (var_off reg) (ucast imm),
     s32_min_value := ucast imm, s32_max_value := ucast imm,
     u32_min_value := ucast imm, u32_max_value := ucast imm\<rparr>"

definition uu_mark_reg_known_zero :: "bpf_reg_state \<Rightarrow> bpf_reg_state" where
  "uu_mark_reg_known_zero reg = uu_mark_reg_known reg 0"

definition uu_mark_reg_const_zero :: "bpf_reg_state \<Rightarrow> bpf_reg_state" where
  "uu_mark_reg_const_zero reg = (uu_mark_reg_known reg 0)\<lparr>reg_type := SCALAR_VALUE\<rparr>"

definition uu_mark_reg_unbounded :: "bpf_reg_state \<Rightarrow> bpf_reg_state" where
  "uu_mark_reg_unbounded reg = reg\<lparr>
     smin_value := S64_MIN, smax_value := S64_MAX, umin_value := 0, umax_value := U64_MAX,
     s32_min_value := S32_MIN, s32_max_value := S32_MAX, u32_min_value := 0, u32_max_value := U32_MAX\<rparr>"

definition uu_mark_reg64_unbounded :: "bpf_reg_state \<Rightarrow> bpf_reg_state" where
  "uu_mark_reg64_unbounded reg = reg\<lparr>
     smin_value := S64_MIN, smax_value := S64_MAX, umin_value := 0, umax_value := U64_MAX\<rparr>"

definition uu_mark_reg32_unbounded :: "bpf_reg_state \<Rightarrow> bpf_reg_state" where
  "uu_mark_reg32_unbounded reg = reg\<lparr>
     s32_min_value := S32_MIN, s32_max_value := S32_MAX, u32_min_value := 0, u32_max_value := U32_MAX\<rparr>"

definition uu_mark_reg_unknown :: "bpf_verifier_env \<Rightarrow> bpf_reg_state \<Rightarrow> bpf_reg_state" where
  "uu_mark_reg_unknown env reg = uu_mark_reg_unbounded (reg\<lparr>
     reg_type := SCALAR_VALUE, reg_raw := 0, reg_off := 0, reg_id := 0, ref_obj_id := 0,
     var_off := tnum_unknown, frameno := 0,
     reg_precise := (subprog_cnt env > 1 \<or> \<not> bpf_capable env)\<rparr>)"

definition uu_mark_reg_not_init :: "bpf_verifier_env \<Rightarrow> bpf_reg_state \<Rightarrow> bpf_reg_state" where
  "uu_mark_reg_not_init env reg = (uu_mark_reg_unknown env reg)\<lparr>reg_type := NOT_INIT\<rparr>"

text \<open>
  The three functions that take a register number. Out of range they reset registers: all of them
  for \<^verbatim>\<open>mark_reg_known_zero\<close>, all below the frame pointer for the others.
\<close>

definition mark_reg_known_zero :: "bpf_verifier_env \<Rightarrow> bpf_reg_state list \<Rightarrow> nat \<Rightarrow> bpf_reg_state list" where
  "mark_reg_known_zero env regs regno =
    (if regno \<ge> MAX_BPF_REG then map (uu_mark_reg_not_init env) (take MAX_BPF_REG regs) @ drop MAX_BPF_REG regs
     else regs[regno := uu_mark_reg_known_zero (regs ! regno)])"

definition mark_reg_unknown :: "bpf_verifier_env \<Rightarrow> bpf_reg_state list \<Rightarrow> nat \<Rightarrow> bpf_reg_state list" where
  "mark_reg_unknown env regs regno =
    (if regno \<ge> MAX_BPF_REG then map (uu_mark_reg_not_init env) (take BPF_REG_FP regs) @ drop BPF_REG_FP regs
     else regs[regno := uu_mark_reg_unknown env (regs ! regno)])"

definition mark_reg_not_init :: "bpf_verifier_env \<Rightarrow> bpf_reg_state list \<Rightarrow> nat \<Rightarrow> bpf_reg_state list" where
  "mark_reg_not_init env regs regno =
    (if regno \<ge> MAX_BPF_REG then map (uu_mark_reg_not_init env) (take BPF_REG_FP regs) @ drop BPF_REG_FP regs
     else regs[regno := uu_mark_reg_not_init env (regs ! regno)])"

section \<open>Refining bounds\<close>

definition uu_update_reg32_bounds :: "bpf_reg_state \<Rightarrow> bpf_reg_state" where
  "uu_update_reg32_bounds reg =
    (let var32_off = tnum_subreg (var_off reg) in reg\<lparr>
       s32_min_value := smax (s32_min_value reg)
         (ucast (tn_value var32_off OR (tn_mask var32_off AND scast S32_MIN))),
       s32_max_value := smin (s32_max_value reg)
         (ucast (tn_value var32_off OR (tn_mask var32_off AND scast S32_MAX))),
       u32_min_value := max (u32_min_value reg) (ucast (tn_value var32_off)),
       u32_max_value := min (u32_max_value reg) (ucast (tn_value var32_off OR tn_mask var32_off))\<rparr>)"

definition uu_update_reg64_bounds :: "bpf_reg_state \<Rightarrow> bpf_reg_state" where
  "uu_update_reg64_bounds reg = reg\<lparr>
     smin_value := smax (smin_value reg) (tn_value (var_off reg) OR (tn_mask (var_off reg) AND S64_MIN)),
     smax_value := smin (smax_value reg) (tn_value (var_off reg) OR (tn_mask (var_off reg) AND S64_MAX)),
     umin_value := max (umin_value reg) (tn_value (var_off reg)),
     umax_value := min (umax_value reg) (tn_value (var_off reg) OR tn_mask (var_off reg))\<rparr>"

definition uu_update_reg_bounds :: "bpf_reg_state \<Rightarrow> bpf_reg_state" where
  "uu_update_reg_bounds reg = uu_update_reg64_bounds (uu_update_reg32_bounds reg)"

definition uu_reg32_deduce_bounds :: "bpf_reg_state \<Rightarrow> bpf_reg_state" where
  "uu_reg32_deduce_bounds reg =
    (if 0 \<le>s s32_min_value reg \<or> s32_max_value reg <s 0
     then let mn = max (s32_min_value reg) (u32_min_value reg);
              mx = min (s32_max_value reg) (u32_max_value reg)
          in reg\<lparr>s32_min_value := mn, u32_min_value := mn, s32_max_value := mx, u32_max_value := mx\<rparr>
     else if 0 \<le>s u32_max_value reg
     then let mx = min (s32_max_value reg) (u32_max_value reg)
          in reg\<lparr>s32_min_value := u32_min_value reg, s32_max_value := mx, u32_max_value := mx\<rparr>
     else if u32_min_value reg <s 0
     then let mn = max (s32_min_value reg) (u32_min_value reg)
          in reg\<lparr>s32_min_value := mn, u32_min_value := mn, s32_max_value := u32_max_value reg\<rparr>
     else reg)"

definition uu_reg64_deduce_bounds :: "bpf_reg_state \<Rightarrow> bpf_reg_state" where
  "uu_reg64_deduce_bounds reg =
    (if 0 \<le>s smin_value reg \<or> smax_value reg <s 0
     then let mn = max (smin_value reg) (umin_value reg);
              mx = min (smax_value reg) (umax_value reg)
          in reg\<lparr>smin_value := mn, umin_value := mn, smax_value := mx, umax_value := mx\<rparr>
     else if 0 \<le>s umax_value reg
     then let mx = min (smax_value reg) (umax_value reg)
          in reg\<lparr>smin_value := umin_value reg, smax_value := mx, umax_value := mx\<rparr>
     else if umin_value reg <s 0
     then let mn = max (smin_value reg) (umin_value reg)
          in reg\<lparr>smin_value := mn, umin_value := mn, smax_value := umax_value reg\<rparr>
     else reg)"

definition uu_reg_deduce_bounds :: "bpf_reg_state \<Rightarrow> bpf_reg_state" where
  "uu_reg_deduce_bounds reg = uu_reg64_deduce_bounds (uu_reg32_deduce_bounds reg)"

definition uu_reg_bound_offset :: "bpf_reg_state \<Rightarrow> bpf_reg_state" where
  "uu_reg_bound_offset reg =
    (let var64_off = tnum_intersect (var_off reg) (tnum_range (umin_value reg) (umax_value reg));
         var32_off = tnum_intersect (tnum_subreg (var_off reg))
                       (tnum_range (ucast (u32_min_value reg)) (ucast (u32_max_value reg)))
     in reg\<lparr>var_off := tnum_or (tnum_clear_subreg var64_off) var32_off\<rparr>)"

definition uu_reg32_bound_s64 :: "s32 \<Rightarrow> bool" where
  "uu_reg32_bound_s64 a \<longleftrightarrow> 0 \<le>s a \<and> a \<le>s S32_MAX"

definition uu_reg_assign_32_into_64 :: "bpf_reg_state \<Rightarrow> bpf_reg_state" where
  "uu_reg_assign_32_into_64 reg0 =
    (let reg = reg0\<lparr>umin_value := ucast (u32_min_value reg0), umax_value := ucast (u32_max_value reg0)\<rparr>
     in if uu_reg32_bound_s64 (s32_min_value reg) \<and> uu_reg32_bound_s64 (s32_max_value reg)
        then reg\<lparr>smin_value := scast (s32_min_value reg), smax_value := scast (s32_max_value reg)\<rparr>
        else reg\<lparr>smin_value := 0, smax_value := ucast U32_MAX\<rparr>)"

definition uu_reg_combine_32_into_64 :: "bpf_reg_state \<Rightarrow> bpf_reg_state" where
  "uu_reg_combine_32_into_64 reg =
    (let reg1 = (if tnum_equals_const (tnum_clear_subreg (var_off reg)) 0
                 then uu_reg_assign_32_into_64 reg
                 else uu_update_reg_bounds (uu_mark_reg64_unbounded reg))
     in uu_update_reg_bounds (uu_reg_bound_offset (uu_reg_deduce_bounds reg1)))"

definition uu_reg64_bound_s32 :: "s64 \<Rightarrow> bool" where
  "uu_reg64_bound_s32 a \<longleftrightarrow> scast S32_MIN \<le>s a \<and> a \<le>s scast S32_MAX"

definition uu_reg64_bound_u32 :: "u64 \<Rightarrow> bool" where
  "uu_reg64_bound_u32 a \<longleftrightarrow> 0 \<le> a \<and> a \<le> ucast U32_MAX"

definition uu_reg_combine_64_into_32 :: "bpf_reg_state \<Rightarrow> bpf_reg_state" where
  "uu_reg_combine_64_into_32 reg0 =
    (let reg1 = uu_mark_reg32_unbounded reg0;
         reg2 = (if uu_reg64_bound_s32 (smin_value reg1) \<and> uu_reg64_bound_s32 (smax_value reg1)
                 then reg1\<lparr>s32_min_value := ucast (smin_value reg1), s32_max_value := ucast (smax_value reg1)\<rparr>
                 else reg1);
         reg3 = (if uu_reg64_bound_u32 (umin_value reg2) \<and> uu_reg64_bound_u32 (umax_value reg2)
                 then reg2\<lparr>u32_min_value := ucast (umin_value reg2), u32_max_value := ucast (umax_value reg2)\<rparr>
                 else reg2)
     in uu_update_reg_bounds (uu_reg_bound_offset (uu_reg_deduce_bounds reg3)))"

definition zext_32_to_64 :: "bpf_reg_state \<Rightarrow> bpf_reg_state" where
  "zext_32_to_64 reg = uu_reg_assign_32_into_64 (reg\<lparr>var_off := tnum_subreg (var_off reg)\<rparr>)"

definition coerce_reg_to_size :: "bpf_reg_state \<Rightarrow> nat \<Rightarrow> bpf_reg_state" where
  "coerce_reg_to_size reg0 sz =
    (let reg1 = reg0\<lparr>var_off := tnum_cast (var_off reg0) (of_nat sz)\<rparr>;
         msk = push_bit (sz * 8) 1 - 1;
         reg2 = (if umin_value reg1 AND NOT msk = umax_value reg1 AND NOT msk
                 then reg1\<lparr>umin_value := umin_value reg1 AND msk, umax_value := umax_value reg1 AND msk\<rparr>
                 else reg1\<lparr>umin_value := 0, umax_value := msk\<rparr>);
         reg3 = reg2\<lparr>smin_value := umin_value reg2, smax_value := umax_value reg2\<rparr>
     in if sz \<ge> 4 then reg3 else uu_reg_combine_64_into_32 reg3)"

section \<open>Concretisation\<close>

definition bounds64 :: "bpf_reg_state \<Rightarrow> u64 \<Rightarrow> bool" where
  "bounds64 r x \<longleftrightarrow>
    umin_value r \<le> x \<and> x \<le> umax_value r \<and> smin_value r \<le>s x \<and> x \<le>s smax_value r"

definition bounds32 :: "bpf_reg_state \<Rightarrow> u32 \<Rightarrow> bool" where
  "bounds32 r w \<longleftrightarrow>
    u32_min_value r \<le> w \<and> w \<le> u32_max_value r \<and> s32_min_value r \<le>s w \<and> w \<le>s s32_max_value r"

definition reg_contains :: "bpf_reg_state \<Rightarrow> u64 \<Rightarrow> bool" where
  "reg_contains r x \<longleftrightarrow> tnum_contains (var_off r) x \<and> bounds64 r x \<and> bounds32 r (ucast x)"

named_theorems reg_sound \<open>operations on register states that lose no value\<close>

lemma reg_containsI:
  "tnum_contains (var_off r) x \<Longrightarrow> bounds64 r x \<Longrightarrow> bounds32 r (ucast x) \<Longrightarrow> reg_contains r x"
  by (simp add: reg_contains_def)

lemma reg_containsD:
  assumes "reg_contains r x"
  shows "tnum_contains (var_off r) x" and "bounds64 r x" and "bounds32 r (ucast x)"
  using assms by (simp_all add: reg_contains_def)

section \<open>Extreme bounds\<close>

lemma max_words:
  "(x :: u64) \<le> U64_MAX" "(w :: u32) \<le> U32_MAX"
  "S64_MIN \<le>s (x :: u64)" "(x :: u64) \<le>s S64_MAX" "S32_MIN \<le>s (w :: u32)" "(w :: u32) \<le>s S32_MAX"
proof -
  show "x \<le> U64_MAX" using uint_lt2p [of x] unfolding word_le_def by simp
  show "w \<le> U32_MAX" using uint_lt2p [of w] unfolding word_le_def by simp
  show "S64_MIN \<le>s x" "x \<le>s S64_MAX"
    using sint_ge [of x] sint_lt [of x] by (simp_all add: word_sle_eq)
  show "S32_MIN \<le>s w" "w \<le>s S32_MAX"
    using sint_ge [of w] sint_lt [of w] by (simp_all add: word_sle_eq)
qed

lemma uu_mark_reg64_unbounded_bounds [simp]: "bounds64 (uu_mark_reg64_unbounded r) x"
  by (simp add: bounds64_def uu_mark_reg64_unbounded_def max_words)

lemma uu_mark_reg32_unbounded_bounds [simp]: "bounds32 (uu_mark_reg32_unbounded r) w"
  by (simp add: bounds32_def uu_mark_reg32_unbounded_def max_words)

lemma uu_mark_reg_unknown_contains [simp, reg_sound]: "reg_contains (uu_mark_reg_unknown env r) x"
  by (simp add: reg_contains_def bounds64_def bounds32_def uu_mark_reg_unknown_def
      uu_mark_reg_unbounded_def max_words)

lemma signed_word_refl [simp]: "(x :: 'a::len word) \<le>s x"
  by (simp add: word_sle_eq)

lemma uuu_mark_reg_known_contains [reg_sound]: "reg_contains (uuu_mark_reg_known r x) x"
  by (simp add: reg_contains_def bounds64_def bounds32_def uuu_mark_reg_known_def)

lemma uu_mark_reg_known_contains [reg_sound]: "reg_contains (uu_mark_reg_known r x) x"
  by (simp add: uu_mark_reg_known_def uuu_mark_reg_known_contains)

lemma uu_mark_reg_known_exact: "reg_contains (uu_mark_reg_known r v) x \<longleftrightarrow> x = v"
  by (auto simp: reg_contains_def uu_mark_reg_known_def uuu_mark_reg_known_def bounds64_def bounds32_def)

section \<open>Refinement from the tracked bits\<close>

lemma tnum_contains_tri: "tnum_contains t x \<Longrightarrow> tri (tn_value t) (tn_mask t) x"
  by (simp add: tri_def tnum_containsD)

lemma tnum_contains_tri32:
  assumes "tnum_contains t x"
  shows "tri (ucast (tn_value t) :: u32) (ucast (tn_mask t)) (ucast x)"
  using tnum_containsD [OF assms] by (auto simp: tri_def bit_simps)

lemma ucast_down_up: "ucast (ucast (w :: u32) :: u64) = w"
  by (intro bit_word_eqI) (simp add: bit_simps)

lemma tnum_subreg_low:
  "ucast (tn_value (tnum_subreg t)) = (ucast (tn_value t) :: u32)"
  "ucast (tn_mask (tnum_subreg t)) = (ucast (tn_mask t) :: u32)"
proof -
  have "tnum_subreg t = TNUM (ucast (ucast (tn_value t) :: u32)) (ucast (ucast (tn_mask t) :: u32))"
    by (simp only: tnum_subreg_def tnum_cast_def subreg_mask and_mask32)
  then show "ucast (tn_value (tnum_subreg t)) = (ucast (tn_value t) :: u32)"
    "ucast (tn_mask (tnum_subreg t)) = (ucast (tn_mask t) :: u32)"
    by (simp_all only: tnum.simps ucast_down_up)
qed

lemma ucast32_bitops:
  "ucast (a OR b :: u64) = (ucast a OR ucast b :: u32)"
  "ucast (a AND b :: u64) = (ucast a AND ucast b :: u32)"
  by (auto intro!: bit_word_eqI simp: bit_simps)

lemma sign_masks:
  "(ucast (scast S32_MIN :: u64) :: u32) = push_bit (LENGTH(32) - 1) 1"
  "(ucast (scast S32_MAX :: u64) :: u32) = mask (LENGTH(32) - 1)"
  "(S64_MIN :: u64) = push_bit (LENGTH(64) - 1) 1"
  "(S64_MAX :: u64) = mask (LENGTH(64) - 1)"
  by (simp_all add: mask_eq_exp_minus_1)

lemma uu_update_reg64_bounds_sound:
  assumes "tnum_contains (var_off r) x" and "bounds64 r x"
  shows "bounds64 (uu_update_reg64_bounds r) x"
proof -
  note t = tnum_contains_tri [OF assms(1)]
  have "tn_value (var_off r) OR (tn_mask (var_off r) AND S64_MIN) \<le>s x"
    unfolding sign_masks by (rule tri_smin [OF t])
  moreover have "x \<le>s tn_value (var_off r) OR (tn_mask (var_off r) AND S64_MAX)"
    unfolding sign_masks by (rule tri_smax [OF t])
  ultimately show ?thesis
    using assms(2) tri_unsigned [OF t] by (simp add: bounds64_def uu_update_reg64_bounds_def word_sle_eq)
qed

lemma uu_update_reg32_bounds_sound:
  assumes "tnum_contains (var_off r) x" and "bounds32 r (ucast x)"
  shows "bounds32 (uu_update_reg32_bounds r) (ucast x)"
proof -
  note t = tnum_contains_tri32 [OF assms(1)]
  have "ucast (tn_value (var_off r)) OR (ucast (tn_mask (var_off r)) AND ucast (scast S32_MIN :: u64)) \<le>s (ucast x :: u32)"
    unfolding sign_masks by (rule tri_smin [OF t])
  moreover have "(ucast x :: u32) \<le>s ucast (tn_value (var_off r)) OR (ucast (tn_mask (var_off r)) AND ucast (scast S32_MAX :: u64))"
    unfolding sign_masks by (rule tri_smax [OF t])
  ultimately show ?thesis
    using assms(2) tri_unsigned [OF t]
    by (simp add: bounds32_def uu_update_reg32_bounds_def Let_def word_sle_eq ucast32_bitops tnum_subreg_low)
qed

lemma var_off_update32 [simp]: "var_off (uu_update_reg32_bounds r) = var_off r"
  by (simp add: uu_update_reg32_bounds_def Let_def)

lemma var_off_update64 [simp]: "var_off (uu_update_reg64_bounds r) = var_off r"
  by (simp add: uu_update_reg64_bounds_def)

lemma bounds64_update32 [simp]: "bounds64 (uu_update_reg32_bounds r) = bounds64 r"
  by (simp add: bounds64_def fun_eq_iff uu_update_reg32_bounds_def Let_def)

lemma bounds32_update64 [simp]: "bounds32 (uu_update_reg64_bounds r) = bounds32 r"
  by (simp add: bounds32_def fun_eq_iff uu_update_reg64_bounds_def)

lemma uu_update_reg_bounds_sound [reg_sound]:
  "reg_contains r x \<Longrightarrow> reg_contains (uu_update_reg_bounds r) x"
  by (simp add: reg_contains_def uu_update_reg_bounds_def uu_update_reg64_bounds_sound
      uu_update_reg32_bounds_sound)

section \<open>Refinement between signed and unsigned bounds\<close>

lemma uu_reg64_deduce_bounds_sound:
  assumes "bounds64 r x"
  shows "bounds64 (uu_reg64_deduce_bounds r) x"
proof -
  from assms have b: "umin_value r \<le> x" "x \<le> umax_value r" "smin_value r \<le>s x" "x \<le>s smax_value r"
    by (simp_all add: bounds64_def)
  consider (same) "0 \<le>s smin_value r \<or> smax_value r <s 0"
    | (pos) "\<not> (0 \<le>s smin_value r \<or> smax_value r <s 0)" "0 \<le>s umax_value r"
    | (neg) "\<not> (0 \<le>s smin_value r \<or> smax_value r <s 0)" "\<not> 0 \<le>s umax_value r" "umin_value r <s 0"
    | (none) "\<not> (0 \<le>s smin_value r \<or> smax_value r <s 0)" "\<not> 0 \<le>s umax_value r" "\<not> umin_value r <s 0"
    by blast
  then show ?thesis
  proof cases
    case same
    then have "0 \<le>s smin_value r \<or> x <s 0" "0 \<le>s x \<or> smax_value r <s 0"
      using b(3,4) by (auto simp: word_order_int)
    then show ?thesis
      using same same_sign_lower [OF b(3,1)] same_sign_upper [OF b(4,2)]
      by (simp add: uu_reg64_deduce_bounds_def Let_def bounds64_def)
  next
    case pos
    have x: "0 \<le>s x" using nonneg_below [OF b(2) pos(2)] by simp
    show ?thesis
      using pos b nonneg_below [OF b(1) x] same_sign_upper [OF b(4,2)] x
      by (simp add: uu_reg64_deduce_bounds_def Let_def bounds64_def)
  next
    case neg
    have x: "x <s 0" using neg_above [OF b(1) neg(3)] by simp
    show ?thesis
      using neg b neg_above [OF b(2) x] same_sign_lower [OF b(3,1)] x
      by (simp add: uu_reg64_deduce_bounds_def Let_def bounds64_def)
  next
    case none
    then show ?thesis using assms by (simp add: uu_reg64_deduce_bounds_def)
  qed
qed

lemma uu_reg32_deduce_bounds_sound:
  assumes "bounds32 r x"
  shows "bounds32 (uu_reg32_deduce_bounds r) x"
proof -
  from assms have b: "u32_min_value r \<le> x" "x \<le> u32_max_value r" "s32_min_value r \<le>s x" "x \<le>s s32_max_value r"
    by (simp_all add: bounds32_def)
  consider (same) "0 \<le>s s32_min_value r \<or> s32_max_value r <s 0"
    | (pos) "\<not> (0 \<le>s s32_min_value r \<or> s32_max_value r <s 0)" "0 \<le>s u32_max_value r"
    | (neg) "\<not> (0 \<le>s s32_min_value r \<or> s32_max_value r <s 0)" "\<not> 0 \<le>s u32_max_value r" "u32_min_value r <s 0"
    | (none) "\<not> (0 \<le>s s32_min_value r \<or> s32_max_value r <s 0)" "\<not> 0 \<le>s u32_max_value r" "\<not> u32_min_value r <s 0"
    by blast
  then show ?thesis
  proof cases
    case same
    then have "0 \<le>s s32_min_value r \<or> x <s 0" "0 \<le>s x \<or> s32_max_value r <s 0"
      using b(3,4) by (auto simp: word_order_int)
    then show ?thesis
      using same same_sign_lower [OF b(3,1)] same_sign_upper [OF b(4,2)]
      by (simp add: uu_reg32_deduce_bounds_def Let_def bounds32_def)
  next
    case pos
    have x: "0 \<le>s x" using nonneg_below [OF b(2) pos(2)] by simp
    show ?thesis
      using pos b nonneg_below [OF b(1) x] same_sign_upper [OF b(4,2)] x
      by (simp add: uu_reg32_deduce_bounds_def Let_def bounds32_def)
  next
    case neg
    have x: "x <s 0" using neg_above [OF b(1) neg(3)] by simp
    show ?thesis
      using neg b neg_above [OF b(2) x] same_sign_lower [OF b(3,1)] x
      by (simp add: uu_reg32_deduce_bounds_def Let_def bounds32_def)
  next
    case none
    then show ?thesis using assms by (simp add: uu_reg32_deduce_bounds_def)
  qed
qed

lemma var_off_deduce [simp]:
  "var_off (uu_reg64_deduce_bounds r) = var_off r" "var_off (uu_reg32_deduce_bounds r) = var_off r"
  by (simp_all add: uu_reg64_deduce_bounds_def uu_reg32_deduce_bounds_def Let_def)

lemma bounds64_deduce32 [simp]: "bounds64 (uu_reg32_deduce_bounds r) = bounds64 r"
  by (simp add: bounds64_def fun_eq_iff uu_reg32_deduce_bounds_def Let_def)

lemma bounds32_deduce64 [simp]: "bounds32 (uu_reg64_deduce_bounds r) = bounds32 r"
  by (simp add: bounds32_def fun_eq_iff uu_reg64_deduce_bounds_def Let_def)

lemma uu_reg_deduce_bounds_sound [reg_sound]:
  "reg_contains r x \<Longrightarrow> reg_contains (uu_reg_deduce_bounds r) x"
  by (simp add: reg_contains_def uu_reg_deduce_bounds_def uu_reg64_deduce_bounds_sound
      uu_reg32_deduce_bounds_sound)

lemma ucast_mono_64: "(a :: u32) \<le> b \<Longrightarrow> (ucast a :: u64) \<le> ucast b"
  by (simp add: word_le_def uint_ucast_64)

lemma uu_reg_bound_offset_sound [reg_sound]:
  assumes "reg_contains r x"
  shows "reg_contains (uu_reg_bound_offset r) x"
proof -
  note t = reg_containsD [OF assms]
  have "tnum_contains (tnum_intersect (var_off r) (tnum_range (umin_value r) (umax_value r))) x"
    using t by (intro tnum_sound) (auto simp: bounds64_def)
  moreover have "tnum_contains (tnum_intersect (tnum_subreg (var_off r))
      (tnum_range (ucast (u32_min_value r)) (ucast (u32_max_value r)))) (ucast (ucast x :: u32))"
    using t by (intro tnum_sound) (auto simp: bounds32_def intro!: ucast_mono_64)
  ultimately have "tnum_contains (var_off (uu_reg_bound_offset r))
      (push_bit 32 (drop_bit 32 x) OR ucast (ucast x :: u32))"
    unfolding uu_reg_bound_offset_def Let_def by (simp add: tnum_or_sound tnum_clear_subreg_sound)
  then have "tnum_contains (var_off (uu_reg_bound_offset r)) x"
    using split_subreg [of x] by simp
  then show ?thesis
    using t(2,3) by (simp add: reg_contains_def uu_reg_bound_offset_def Let_def bounds64_def bounds32_def)
qed

section \<open>Synchronised bounds\<close>

text \<open>
  The bitwise transfer functions copy an unsigned bound into the signed one once both operands are
  known not to be negative. This is only right for registers whose three abstractions agree on the
  sign: a register with a non-negative signed minimum has an unsigned maximum and tracked bits with
  a clear sign bit, in the full register and in its lower half. The refinement steps establish it.
\<close>

definition reg_synced :: "bpf_reg_state \<Rightarrow> bool" where
  "reg_synced r \<longleftrightarrow>
    (0 \<le>s smin_value r \<longrightarrow> 0 \<le>s umax_value r \<and> \<not> bit (tn_mask (var_off r)) 63) \<and>
    (0 \<le>s s32_min_value r \<longrightarrow> 0 \<le>s u32_max_value r \<and> \<not> bit (tn_mask (var_off r)) 31)"

lemma fls64_le:
  assumes "\<And>n. k \<le> n \<Longrightarrow> \<not> bit x n"
  shows "fls64 x \<le> k"
proof (cases "x = 0")
  case False
  then obtain h where h: "highest_bit x h" using highest_bit_exists by blast
  then have "h < k" using assms [of h] by (force simp: highest_bit_def)
  then show ?thesis using False fls_long_correct [OF h] by (simp add: fls64_def)
qed (simp add: fls64_def)

lemma tnum_range_mask:
  assumes "\<And>n. k \<le> n \<Longrightarrow> \<not> bit lo n" and "\<And>n. k \<le> n \<Longrightarrow> \<not> bit hi n" and "k < 64" and "k \<le> n"
  shows "\<not> bit (tn_mask (tnum_range lo hi)) n"
proof -
  have b: "fls64 (lo XOR hi) \<le> k" using assms by (intro fls64_le) (simp add: bit_simps)
  have "tn_mask (tnum_range lo hi) = mask (fls64 (lo XOR hi))"
    using b assms(3) by (simp add: tnum_range_def Let_def mask_eq_exp_minus_1)
  then show ?thesis using b assms(4) by (simp add: bit_simps)
qed

lemma nonneg_bits:
  assumes "0 \<le>s (x :: 'a::len word)" and "LENGTH('a) - 1 \<le> n"
  shows "\<not> bit x n"
  using assms not_bit_length [of n x] by (cases "n = LENGTH('a) - 1") (auto simp: sle_zero_bit)

lemma min_nonneg: "0 \<le>s a \<Longrightarrow> 0 \<le>s min (a :: 'a::len word) b" "0 \<le>s b \<Longrightarrow> 0 \<le>s min a b"
  using nonneg_below(1) [of "min a b" a] nonneg_below(1) [of "min a b" b] by simp_all

lemma deduce64_synced:
  assumes "bounds64 r x" and "0 \<le>s smin_value (uu_reg64_deduce_bounds r)"
  shows "0 \<le>s umax_value (uu_reg64_deduce_bounds r)"
proof (cases "smax_value r <s 0")
  case True
  have "smin_value (uu_reg64_deduce_bounds r) \<le>s x"
    using uu_reg64_deduce_bounds_sound [OF assms(1)] by (simp add: bounds64_def)
  moreover have "x <s 0" using True assms(1) by (simp add: bounds64_def word_order_int)
  ultimately show ?thesis using assms(2) by (simp add: word_order_int)
next
  case False
  then have "0 \<le>s smax_value r" by (simp add: word_order_int)
  then show ?thesis
    using assms(2) by (auto simp: uu_reg64_deduce_bounds_def Let_def min_nonneg split: if_splits)
      (simp add: max_def word_order_int not_less split: if_splits)
qed

lemma deduce32_synced:
  assumes "bounds32 r x" and "0 \<le>s s32_min_value (uu_reg32_deduce_bounds r)"
  shows "0 \<le>s u32_max_value (uu_reg32_deduce_bounds r)"
proof (cases "s32_max_value r <s 0")
  case True
  have "s32_min_value (uu_reg32_deduce_bounds r) \<le>s x"
    using uu_reg32_deduce_bounds_sound [OF assms(1)] by (simp add: bounds32_def)
  moreover have "x <s 0" using True assms(1) by (simp add: bounds32_def word_order_int)
  ultimately show ?thesis using assms(2) by (simp add: word_order_int)
next
  case False
  then have "0 \<le>s s32_max_value r" by (simp add: word_order_int)
  then show ?thesis
    using assms(2) by (auto simp: uu_reg32_deduce_bounds_def Let_def min_nonneg split: if_splits)
      (simp add: max_def word_order_int not_less split: if_splits)
qed

definition bounds_synced :: "bpf_reg_state \<Rightarrow> bool" where
  "bounds_synced r \<longleftrightarrow>
    (0 \<le>s smin_value r \<longrightarrow> 0 \<le>s umax_value r) \<and> (0 \<le>s s32_min_value r \<longrightarrow> 0 \<le>s u32_max_value r)"

lemma deduce32_frame:
  "smin_value (uu_reg32_deduce_bounds r) = smin_value r" "smax_value (uu_reg32_deduce_bounds r) = smax_value r"
  "umin_value (uu_reg32_deduce_bounds r) = umin_value r" "umax_value (uu_reg32_deduce_bounds r) = umax_value r"
  by (simp_all add: uu_reg32_deduce_bounds_def Let_def)

lemma deduce64_frame:
  "s32_min_value (uu_reg64_deduce_bounds r) = s32_min_value r"
  "u32_max_value (uu_reg64_deduce_bounds r) = u32_max_value r"
  by (simp_all add: uu_reg64_deduce_bounds_def Let_def)

lemma deduce_frame:
  "smin_value (uu_reg_deduce_bounds r) = smin_value (uu_reg64_deduce_bounds r)"
  "umax_value (uu_reg_deduce_bounds r) = umax_value (uu_reg64_deduce_bounds r)"
  "s32_min_value (uu_reg_deduce_bounds r) = s32_min_value (uu_reg32_deduce_bounds r)"
  "u32_max_value (uu_reg_deduce_bounds r) = u32_max_value (uu_reg32_deduce_bounds r)"
  unfolding uu_reg_deduce_bounds_def deduce64_frame
  by (simp_all add: uu_reg64_deduce_bounds_def deduce32_frame Let_def)

lemma deduce_synced:
  "bounds64 r x \<Longrightarrow> bounds32 r w \<Longrightarrow> bounds_synced (uu_reg_deduce_bounds r)"
  by (simp add: bounds_synced_def deduce_frame deduce64_synced deduce32_synced)

lemma tnum_subreg_eq: "tnum_subreg t = TNUM (tn_value t AND mask 32) (tn_mask t AND mask 32)"
  by (simp only: tnum_subreg_def tnum_cast_def subreg_mask)

lemma bound_offset_mask:
  "bit (tn_mask (var_off (uu_reg_bound_offset r))) n \<Longrightarrow>
    (if n < 32 then bit (tn_mask (tnum_range (ucast (u32_min_value r)) (ucast (u32_max_value r)))) n
     else bit (tn_mask (tnum_range (umin_value r) (umax_value r))) n)"
  by (auto simp: uu_reg_bound_offset_def Let_def tnum_or_def tnum_intersect_def tnum_clear_subreg_def
      tnum_lshift_def tnum_rshift_def tnum_subreg_eq bit_simps)

lemma bound_offset_synced:
  assumes "bounds_synced r" and "bounds64 r x" and "bounds32 r w"
  shows "reg_synced (uu_reg_bound_offset r)"
proof -
  have u: "umin_value r \<le> umax_value r" "u32_min_value r \<le> u32_max_value r"
    using assms(2,3) by (auto simp: bounds64_def bounds32_def)
  have "\<not> bit (tn_mask (var_off (uu_reg_bound_offset r))) 63" if "0 \<le>s umax_value r"
  proof -
    have "\<not> bit (tn_mask (tnum_range (umin_value r) (umax_value r))) 63"
      using nonneg_bits [OF that] nonneg_bits [OF nonneg_below(1) [OF u(1) that]]
      by (intro tnum_range_mask [where k = 63]) simp_all
    then show ?thesis using bound_offset_mask [of r 63] by auto
  qed
  moreover have "\<not> bit (tn_mask (var_off (uu_reg_bound_offset r))) 31" if "0 \<le>s u32_max_value r"
  proof -
    have "\<not> bit (tn_mask (tnum_range (ucast (u32_min_value r)) (ucast (u32_max_value r)))) 31"
      using nonneg_bits [OF that] nonneg_bits [OF nonneg_below(1) [OF u(2) that]]
      by (intro tnum_range_mask [where k = 31]) (simp_all add: bit_simps)
    then show ?thesis using bound_offset_mask [of r 31] by auto
  qed
  ultimately show ?thesis
    using assms(1) by (simp add: reg_synced_def bounds_synced_def)
      (simp add: uu_reg_bound_offset_def Let_def)
qed

lemma deduce_offset_synced:
  assumes "reg_contains r x"
  shows "reg_synced (uu_reg_bound_offset (uu_reg_deduce_bounds r))"
  using reg_containsD [OF assms] reg_containsD [OF uu_reg_deduce_bounds_sound [OF assms]]
  by (intro bound_offset_synced deduce_synced)

lemma tri_lower_nonneg:
  fixes v m :: "'a::len word"
  assumes "0 \<le>s smax a (v OR (m AND push_bit (LENGTH('a) - 1) 1))"
  shows "0 \<le>s a \<or> 0 \<le>s v OR m \<and> \<not> bit m (LENGTH('a) - 1)"
proof (cases "0 \<le>s a")
  case False
  then have "0 \<le>s v OR (m AND push_bit (LENGTH('a) - 1) 1)"
    using assms unfolding word_sle_eq sint_smax by simp
  then show ?thesis unfolding sle_zero_bit by (simp add: bit_or_iff bit_and_iff bit_exp_iff)
qed simp

lemma update_reg_bounds_synced:
  assumes "reg_synced r"
  shows "reg_synced (uu_update_reg_bounds r)"
proof -
  let ?v = "tn_value (var_off r)" and ?m = "tn_mask (var_off r)" and ?r = "uu_update_reg_bounds r"
  have smin: "smin_value ?r = smax (smin_value r) (?v OR (?m AND push_bit (LENGTH(64) - 1) 1))"
    unfolding sign_masks [symmetric]
    by (simp add: uu_update_reg_bounds_def uu_update_reg64_bounds_def uu_update_reg32_bounds_def Let_def)
  have s32_min: "s32_min_value ?r = smax (s32_min_value r) (ucast ?v OR (ucast ?m AND push_bit (LENGTH(32) - 1) 1))"
    unfolding sign_masks [symmetric]
    by (simp add: uu_update_reg_bounds_def uu_update_reg64_bounds_def uu_update_reg32_bounds_def Let_def
        tnum_subreg_low ucast32_bitops)
  have max: "umax_value ?r = min (umax_value r) (?v OR ?m)"
    "u32_max_value ?r = min (u32_max_value r) (ucast ?v OR ucast ?m)" "var_off ?r = var_off r"
    by (simp_all add: uu_update_reg_bounds_def uu_update_reg64_bounds_def uu_update_reg32_bounds_def Let_def
        tnum_subreg_low ucast32_bitops)
  have "0 \<le>s umax_value ?r \<and> \<not> bit ?m 63" if "0 \<le>s smin_value ?r"
    using tri_lower_nonneg [OF that [unfolded smin]] assms by (auto simp: reg_synced_def max min_nonneg)
  moreover have "0 \<le>s u32_max_value ?r \<and> \<not> bit ?m 31" if "0 \<le>s s32_min_value ?r"
    using tri_lower_nonneg [OF that [unfolded s32_min]] assms
    by (auto simp: reg_synced_def max min_nonneg bit_simps)
  ultimately show ?thesis by (simp add: reg_synced_def max)
qed

text \<open>
  \<open>reg_ok r x\<close>: the state \<open>r\<close> allows the value \<open>x\<close> and its abstractions agree
  on the sign. Every complete transfer function of the verifier keeps it.
\<close>

definition reg_ok :: "bpf_reg_state \<Rightarrow> u64 \<Rightarrow> bool" where
  "reg_ok r x \<longleftrightarrow> reg_contains r x \<and> reg_synced r"

lemma reg_okD: "reg_ok r x \<Longrightarrow> reg_contains r x" "reg_ok r x \<Longrightarrow> reg_synced r"
  by (simp_all add: reg_ok_def)

text \<open>The combined refinement every transfer function ends with.\<close>

lemma refine_ok [reg_sound]:
  "reg_contains r x \<Longrightarrow>
   reg_ok (uu_update_reg_bounds (uu_reg_bound_offset (uu_reg_deduce_bounds r))) x"
  by (simp add: reg_ok_def uu_update_reg_bounds_sound uu_reg_bound_offset_sound uu_reg_deduce_bounds_sound
      update_reg_bounds_synced deduce_offset_synced)

lemma finish_ok [reg_sound]:
  "reg_contains r x \<Longrightarrow>
   reg_ok (uu_reg_bound_offset (uu_reg_deduce_bounds (uu_update_reg_bounds r))) x"
  unfolding reg_ok_def
  by (blast intro: uu_update_reg_bounds_sound uu_reg_bound_offset_sound uu_reg_deduce_bounds_sound
      deduce_offset_synced)

lemma uu_mark_reg_unknown_ok [simp, reg_sound]: "reg_ok (uu_mark_reg_unknown env r) x"
  by (simp add: reg_ok_def reg_synced_def)
    (simp add: uu_mark_reg_unknown_def uu_mark_reg_unbounded_def word_order_int)

lemma uuu_mark_reg_known_ok [reg_sound]: "reg_ok (uuu_mark_reg_known r x) x"
  by (simp add: reg_ok_def reg_synced_def uuu_mark_reg_known_contains)
    (simp add: uuu_mark_reg_known_def tnum_const_def)

lemma uu_mark_reg_known_ok [reg_sound]: "reg_ok (uu_mark_reg_known r x) x"
  by (simp add: uu_mark_reg_known_def uuu_mark_reg_known_ok)

section \<open>Moving bounds between the 32-bit and the 64-bit view\<close>

lemma sint_ucast_64: "sint (ucast (w :: u32) :: u64) = uint w"
  using uint_lt2p [of w] by (simp add: sint_uint64 uint_ucast_64)

lemma sint_scast_64: "sint (scast (w :: u32) :: u64) = sint w"
  by (rule sint_up_scast) (simp add: is_up)

lemma uu_reg_assign_32_into_64_sound:
  assumes "bounds32 r (ucast x)" and zext: "x = ucast (ucast x :: u32)"
  shows "bounds64 (uu_reg_assign_32_into_64 r) x"
proof -
  define w :: u32 where "w = ucast x"
  have x: "x = ucast w" using zext by (simp add: w_def)
  have b: "u32_min_value r \<le> w" "w \<le> u32_max_value r" "s32_min_value r \<le>s w" "w \<le>s s32_max_value r"
    using assms(1) by (simp_all add: bounds32_def w_def)
  have s: "scast (s32_min_value r) \<le>s x" "x \<le>s scast (s32_max_value r)" if "0 \<le>s s32_min_value r"
    using b(3,4) that sint_nonneg_uint [of w]
    by (simp_all add: x word_sle_eq sint_scast_64 sint_ucast_64)
  have u: "0 \<le>s x" "x \<le>s ucast U32_MAX"
    using uint_lt2p [of w] by (simp_all add: x word_sle_eq sint_ucast_64)
  show ?thesis
    using b(1,2) s u
    by (simp add: uu_reg_assign_32_into_64_def Let_def bounds64_def uu_reg32_bound_s64_def x
        ucast_mono_64 del: unsigned_numeral)
qed

lemma uu_reg_assign_32_into_64_frame [simp]:
  "var_off (uu_reg_assign_32_into_64 r) = var_off r"
  "bounds32 (uu_reg_assign_32_into_64 r) = bounds32 r"
  by (simp_all add: uu_reg_assign_32_into_64_def Let_def bounds32_def fun_eq_iff)

lemma tnum_clear_subreg_zero:
  assumes "tnum_contains t x" and "tnum_equals_const (tnum_clear_subreg t) 0"
  shows "x = ucast (ucast x :: u32)"
proof -
  have "push_bit 32 (drop_bit 32 x) = 0"
    using tnum_clear_subreg_sound [OF assms(1)] assms(2) tnum_contains_const [of "tnum_clear_subreg t"]
    by (simp add: tnum_equals_const_def)
  then show ?thesis using split_subreg [of x] by simp
qed

lemma uu_reg_combine_32_into_64_sound:
  assumes "tnum_contains (var_off r) x" and "bounds32 r (ucast x)"
  shows "reg_ok (uu_reg_combine_32_into_64 r) x"
proof (cases "tnum_equals_const (tnum_clear_subreg (var_off r)) 0")
  case True
  then have "reg_contains (uu_reg_assign_32_into_64 r) x"
    using assms tnum_clear_subreg_zero [OF assms(1)]
    by (simp add: reg_contains_def uu_reg_assign_32_into_64_sound)
  with True show ?thesis by (simp add: uu_reg_combine_32_into_64_def refine_ok)
next
  case False
  have "reg_contains (uu_mark_reg64_unbounded r) x"
    using assms by (simp add: reg_contains_def) (simp add: uu_mark_reg64_unbounded_def bounds32_def)
  with False show ?thesis
    by (simp add: uu_reg_combine_32_into_64_def refine_ok uu_update_reg_bounds_sound)
qed

lemma ucast_of_small_signed:
  assumes "- (2 ^ 31) \<le> sint (x :: u64)" and "sint x < 2 ^ 31"
  shows "sint (ucast x :: u32) = sint x"
proof -
  have "sint (ucast x :: u32) = signed_take_bit 31 (sint x)"
    by (simp add: signed_ucast_eq uint_sint signed_take_bit_take_bit)
  with assms show ?thesis by (simp add: signed_take_bit_int_eq_self)
qed

lemma uu_reg64_bound_s32_iff: "uu_reg64_bound_s32 a \<longleftrightarrow> - (2 ^ 31) \<le> sint a \<and> sint a < 2 ^ 31"
  by (auto simp: uu_reg64_bound_s32_def word_sle_eq)

lemma uu_reg_combine_64_into_32_sound:
  assumes "tnum_contains (var_off r) x" and "bounds64 r x"
  shows "reg_ok (uu_reg_combine_64_into_32 r) x"
proof -
  define r1 where "r1 = uu_mark_reg32_unbounded r"
  define r2 where "r2 = (if uu_reg64_bound_s32 (smin_value r1) \<and> uu_reg64_bound_s32 (smax_value r1)
    then r1\<lparr>s32_min_value := ucast (smin_value r1), s32_max_value := ucast (smax_value r1)\<rparr> else r1)"
  define r3 where "r3 = (if uu_reg64_bound_u32 (umin_value r2) \<and> uu_reg64_bound_u32 (umax_value r2)
    then r2\<lparr>u32_min_value := ucast (umin_value r2), u32_max_value := ucast (umax_value r2)\<rparr> else r2)"
  have r1: "tnum_contains (var_off r1) x" "bounds64 r1 x" "bounds32 r1 (ucast x)"
    using assms by (simp_all add: r1_def) (simp_all add: uu_mark_reg32_unbounded_def bounds64_def)
  have r2: "tnum_contains (var_off r2) x" "bounds64 r2 x" "bounds32 r2 (ucast x)"
  proof -
    show "tnum_contains (var_off r2) x" "bounds64 r2 x"
      using r1 by (simp_all add: r2_def bounds64_def)
    have "ucast (smin_value r1) \<le>s (ucast x :: u32)" "(ucast x :: u32) \<le>s ucast (smax_value r1)"
      if "uu_reg64_bound_s32 (smin_value r1)" "uu_reg64_bound_s32 (smax_value r1)"
    proof -
      have b: "smin_value r1 \<le>s x" "x \<le>s smax_value r1" using r1(2) by (simp_all add: bounds64_def)
      have "sint (ucast (smin_value r1) :: u32) = sint (smin_value r1)"
        "sint (ucast (smax_value r1) :: u32) = sint (smax_value r1)"
        using that by (simp_all add: uu_reg64_bound_s32_iff ucast_of_small_signed)
      moreover have "sint (ucast x :: u32) = sint x"
        using that b by (intro ucast_of_small_signed) (auto simp: uu_reg64_bound_s32_iff word_sle_eq)
      ultimately show "ucast (smin_value r1) \<le>s (ucast x :: u32)" "(ucast x :: u32) \<le>s ucast (smax_value r1)"
        using b by (simp_all add: word_sle_eq)
    qed
    then show "bounds32 r2 (ucast x)" using r1(3) by (simp add: r2_def bounds32_def)
  qed
  have r3: "reg_contains r3 x"
  proof -
    have "ucast (umin_value r2) \<le> (ucast x :: u32)" "(ucast x :: u32) \<le> ucast (umax_value r2)"
      if "uu_reg64_bound_u32 (umin_value r2)" "uu_reg64_bound_u32 (umax_value r2)"
      using that r2(2) by (simp_all add: uu_reg64_bound_u32_def bounds64_def word_le_def uint_ucast_32)
    then show ?thesis using r2 by (simp add: r3_def reg_contains_def bounds64_def bounds32_def)
  qed
  have "uu_reg_combine_64_into_32 r = uu_update_reg_bounds (uu_reg_bound_offset (uu_reg_deduce_bounds r3))"
    by (simp only: uu_reg_combine_64_into_32_def Let_def r1_def r2_def r3_def)
  then show ?thesis using refine_ok [OF r3] by simp
qed

lemma zext_32_to_64_sound:
  assumes "tnum_contains (tnum_subreg (var_off r)) (ucast (w :: u32))" and "bounds32 r w"
  shows "reg_contains (zext_32_to_64 r) (ucast w)"
proof -
  let ?r = "r\<lparr>var_off := tnum_subreg (var_off r)\<rparr>"
  have "bounds32 ?r (ucast (ucast w :: u64))" using assms(2) by (simp add: bounds32_def ucast_down_up)
  then show ?thesis
    using assms(1) uu_reg_assign_32_into_64_sound [of ?r "ucast w"]
    by (simp add: zext_32_to_64_def reg_contains_def ucast_down_up)
qed

lemma coerce_mask: "(push_bit (sz * 8) 1 - 1 :: u64) = mask (sz * 8)"
  by (simp add: mask_eq_exp_minus_1)

lemma and_mask_same_high:
  fixes lo x hi :: u64
  assumes "lo \<le> x" "x \<le> hi" "lo AND NOT (mask k) = hi AND NOT (mask k)"
  shows "lo AND mask k \<le> x AND mask k" and "x AND mask k \<le> hi AND mask k"
proof -
  have d: "drop_bit k lo = drop_bit k hi"
  proof (rule bit_word_eqI)
    fix n assume "n < LENGTH(64)"
    show "bit (drop_bit k lo) n = bit (drop_bit k hi) n"
      using arg_cong [OF assms(3), of "\<lambda>w. bit w (k + n)"] bit_imp_le_length [of lo "k + n"]
        bit_imp_le_length [of hi "k + n"]
      by (auto simp: bit_simps)
  qed
  have q: "unat lo div 2 ^ k = unat x div 2 ^ k" "unat x div 2 ^ k = unat hi div 2 ^ k"
  proof -
    have "unat lo div 2 ^ k \<le> unat x div 2 ^ k" "unat x div 2 ^ k \<le> unat hi div 2 ^ k"
      using assms(1,2) by (simp_all add: word_le_nat_alt div_le_mono)
    moreover have "unat lo div 2 ^ k = unat hi div 2 ^ k"
      using arg_cong [OF d, of unat] by (simp only: unat_drop_bit_eq) (simp add: drop_bit_eq_div)
    ultimately show "unat lo div 2 ^ k = unat x div 2 ^ k" "unat x div 2 ^ k = unat hi div 2 ^ k" by simp_all
  qed
  have m: "unat (w AND mask k) = unat w mod 2 ^ k" for w :: u64
    using unsigned_take_bit_eq [of k w, where 'a = nat] by (simp add: take_bit_eq_mod [of _ "unat _"] flip: take_bit_eq_mask)
  have "unat lo mod 2 ^ k \<le> unat x mod 2 ^ k" "unat x mod 2 ^ k \<le> unat hi mod 2 ^ k"
    using assms(1,2) q by (simp_all add: word_le_nat_alt modulo_nat_def)
  then show "lo AND mask k \<le> x AND mask k" and "x AND mask k \<le> hi AND mask k"
    by (simp_all add: word_le_nat_alt m)
qed

lemma mask_small_nonneg:
  assumes "k < 64"
  shows "0 \<le>s (x AND mask k :: u64)"
  using assms by (simp add: sle_zero_bit bit_simps)

lemma coerce_reg_to_size_sound:
  assumes "reg_ok r x" and "sz < 8"
  shows "reg_ok (coerce_reg_to_size r sz) (x AND mask (sz * 8))"
proof -
  note rc = reg_okD(1) [OF assms(1)]
  define msk :: u64 where "msk = mask (sz * 8)"
  define r1 where "r1 = r\<lparr>var_off := tnum_cast (var_off r) (of_nat sz)\<rparr>"
  define r2 where "r2 = (if umin_value r1 AND NOT msk = umax_value r1 AND NOT msk
    then r1\<lparr>umin_value := umin_value r1 AND msk, umax_value := umax_value r1 AND msk\<rparr>
    else r1\<lparr>umin_value := 0, umax_value := msk\<rparr>)"
  define r3 where "r3 = r2\<lparr>smin_value := umin_value r2, smax_value := umax_value r2\<rparr>"
  have x: "umin_value r \<le> x" "x \<le> umax_value r" using rc by (simp_all add: reg_contains_def bounds64_def)
  have "unat (of_nat sz :: u8) = sz" using assms(2) by (simp add: unat_of_nat)
  then have v: "var_off r3 = TNUM (tn_value (var_off r) AND msk) (tn_mask (var_off r) AND msk)"
    by (simp add: r3_def r2_def r1_def tnum_cast_def msk_def del: push_bit_of_1 add: coerce_mask)
  with rc have t: "tnum_contains (var_off r3) (x AND msk)"
    by (intro tnum_containsI) (auto simp: reg_contains_def bit_simps dest: tnum_containsD)
  have u: "umin_value r2 \<le> x AND msk" "x AND msk \<le> umax_value r2"
    using and_mask_same_high [OF x, of "sz * 8"]
    by (auto simp: r2_def r1_def msk_def word_and_le1)
  have "\<exists>y. umax_value r2 = y AND msk"
    by (auto simp: r2_def intro: exI [of _ msk])
  then have nn: "0 \<le>s umax_value r2" using assms(2) mask_small_nonneg [of "sz * 8"] by (auto simp: msk_def)
  with u have "umin_value r2 \<le>s x AND msk" "x AND msk \<le>s umax_value r2"
    using nonneg_below by blast+
  with u have b: "bounds64 r3 (x AND msk)" by (simp add: bounds64_def r3_def)
  have c: "coerce_reg_to_size r sz = (if sz \<ge> 4 then r3 else uu_reg_combine_64_into_32 r3)"
    by (simp only: coerce_reg_to_size_def Let_def coerce_mask msk_def r1_def r2_def r3_def)
  show ?thesis
  proof (cases "sz \<ge> 4")
    case True
    then have "ucast (x AND msk) = (ucast x :: u32)"
      by (intro bit_word_eqI) (auto simp: msk_def bit_simps)
    moreover have "bounds32 r3 = bounds32 r" by (simp add: bounds32_def fun_eq_iff r3_def r2_def r1_def)
    ultimately have "reg_contains r3 (x AND msk)"
      using t b reg_containsD(3) [OF rc] by (simp add: reg_contains_def)
    moreover have "reg_synced r3"
      using True assms(2) nn reg_okD(2) [OF assms(1)]
      by (simp add: reg_synced_def v bit_simps msk_def) (simp add: r3_def r2_def r1_def)
    ultimately show ?thesis using True by (simp add: c reg_ok_def flip: msk_def)
  next
    case False
    then show ?thesis using uu_reg_combine_64_into_32_sound [OF t b] by (simp add: c flip: msk_def)
  qed
qed

end
