(* ===== verification/Bpf_Scalar.thy ===== *)
theory Bpf_Scalar
  imports Bpf_Reg
begin

text \<open>
  The transfer functions on scalar registers of \<^verbatim>\<open>kernel/bpf/verifier.c\<close>: for every
  arithmetic or bitwise instruction, how the 32-bit and 64-bit bounds of the destination follow from
  those of both operands. The lemmas show that each of them covers every concrete result.
\<close>

section \<open>Overflow tests\<close>

definition signed_add_overflows :: "s64 \<Rightarrow> s64 \<Rightarrow> bool" where
  "signed_add_overflows a b = (let res = a + b in if b <s 0 then a <s res else res <s a)"

definition signed_add32_overflows :: "s32 \<Rightarrow> s32 \<Rightarrow> bool" where
  "signed_add32_overflows a b = (let res = a + b in if b <s 0 then a <s res else res <s a)"

definition signed_sub_overflows :: "s64 \<Rightarrow> s64 \<Rightarrow> bool" where
  "signed_sub_overflows a b = (let res = a - b in if b <s 0 then res <s a else a <s res)"

definition signed_sub32_overflows :: "s32 \<Rightarrow> s32 \<Rightarrow> bool" where
  "signed_sub32_overflows a b = (let res = a - b in if b <s 0 then res <s a else a <s res)"

section \<open>Addition and subtraction\<close>

definition scalar32_min_max_add :: "bpf_reg_state \<Rightarrow> bpf_reg_state \<Rightarrow> bpf_reg_state" where
  "scalar32_min_max_add dst src =
    (let smin_val = s32_min_value src; smax_val = s32_max_value src;
         umin_val = u32_min_value src; umax_val = u32_max_value src;
         dst1 = (if signed_add32_overflows (s32_min_value dst) smin_val \<or>
                    signed_add32_overflows (s32_max_value dst) smax_val
                 then dst\<lparr>s32_min_value := S32_MIN, s32_max_value := S32_MAX\<rparr>
                 else dst\<lparr>s32_min_value := s32_min_value dst + smin_val,
                          s32_max_value := s32_max_value dst + smax_val\<rparr>)
     in if u32_min_value dst1 + umin_val < umin_val \<or> u32_max_value dst1 + umax_val < umax_val
        then dst1\<lparr>u32_min_value := 0, u32_max_value := U32_MAX\<rparr>
        else dst1\<lparr>u32_min_value := u32_min_value dst1 + umin_val,
                  u32_max_value := u32_max_value dst1 + umax_val\<rparr>)"

definition scalar_min_max_add :: "bpf_reg_state \<Rightarrow> bpf_reg_state \<Rightarrow> bpf_reg_state" where
  "scalar_min_max_add dst src =
    (let smin_val = smin_value src; smax_val = smax_value src;
         umin_val = umin_value src; umax_val = umax_value src;
         dst1 = (if signed_add_overflows (smin_value dst) smin_val \<or>
                    signed_add_overflows (smax_value dst) smax_val
                 then dst\<lparr>smin_value := S64_MIN, smax_value := S64_MAX\<rparr>
                 else dst\<lparr>smin_value := smin_value dst + smin_val,
                          smax_value := smax_value dst + smax_val\<rparr>)
     in if umin_value dst1 + umin_val < umin_val \<or> umax_value dst1 + umax_val < umax_val
        then dst1\<lparr>umin_value := 0, umax_value := U64_MAX\<rparr>
        else dst1\<lparr>umin_value := umin_value dst1 + umin_val,
                  umax_value := umax_value dst1 + umax_val\<rparr>)"

definition scalar32_min_max_sub :: "bpf_reg_state \<Rightarrow> bpf_reg_state \<Rightarrow> bpf_reg_state" where
  "scalar32_min_max_sub dst src =
    (let smin_val = s32_min_value src; smax_val = s32_max_value src;
         umin_val = u32_min_value src; umax_val = u32_max_value src;
         dst1 = (if signed_sub32_overflows (s32_min_value dst) smax_val \<or>
                    signed_sub32_overflows (s32_max_value dst) smin_val
                 then dst\<lparr>s32_min_value := S32_MIN, s32_max_value := S32_MAX\<rparr>
                 else dst\<lparr>s32_min_value := s32_min_value dst - smax_val,
                          s32_max_value := s32_max_value dst - smin_val\<rparr>)
     in if u32_min_value dst1 < umax_val
        then dst1\<lparr>u32_min_value := 0, u32_max_value := U32_MAX\<rparr>
        else dst1\<lparr>u32_min_value := u32_min_value dst1 - umax_val,
                  u32_max_value := u32_max_value dst1 - umin_val\<rparr>)"

definition scalar_min_max_sub :: "bpf_reg_state \<Rightarrow> bpf_reg_state \<Rightarrow> bpf_reg_state" where
  "scalar_min_max_sub dst src =
    (let smin_val = smin_value src; smax_val = smax_value src;
         umin_val = umin_value src; umax_val = umax_value src;
         dst1 = (if signed_sub_overflows (smin_value dst) smax_val \<or>
                    signed_sub_overflows (smax_value dst) smin_val
                 then dst\<lparr>smin_value := S64_MIN, smax_value := S64_MAX\<rparr>
                 else dst\<lparr>smin_value := smin_value dst - smax_val,
                          smax_value := smax_value dst - smin_val\<rparr>)
     in if umin_value dst1 < umax_val
        then dst1\<lparr>umin_value := 0, umax_value := U64_MAX\<rparr>
        else dst1\<lparr>umin_value := umin_value dst1 - umax_val,
                  umax_value := umax_value dst1 - umin_val\<rparr>)"

section \<open>Multiplication\<close>

definition scalar32_min_max_mul :: "bpf_reg_state \<Rightarrow> bpf_reg_state \<Rightarrow> bpf_reg_state" where
  "scalar32_min_max_mul dst src =
    (let smin_val = s32_min_value src; umin_val = u32_min_value src; umax_val = u32_max_value src
     in if smin_val <s 0 \<or> s32_min_value dst <s 0 then uu_mark_reg32_unbounded dst
        else if umax_val > U16_MAX \<or> u32_max_value dst > U16_MAX then uu_mark_reg32_unbounded dst
        else let dst1 = dst\<lparr>u32_min_value := u32_min_value dst * umin_val,
                            u32_max_value := u32_max_value dst * umax_val\<rparr>
             in if u32_max_value dst1 > S32_MAX
                then dst1\<lparr>s32_min_value := S32_MIN, s32_max_value := S32_MAX\<rparr>
                else dst1\<lparr>s32_min_value := u32_min_value dst1, s32_max_value := u32_max_value dst1\<rparr>)"

definition scalar_min_max_mul :: "bpf_reg_state \<Rightarrow> bpf_reg_state \<Rightarrow> bpf_reg_state" where
  "scalar_min_max_mul dst src =
    (let smin_val = smin_value src; umin_val = umin_value src; umax_val = umax_value src
     in if smin_val <s 0 \<or> smin_value dst <s 0 then uu_mark_reg64_unbounded dst
        else if umax_val > ucast U32_MAX \<or> umax_value dst > ucast U32_MAX then uu_mark_reg64_unbounded dst
        else let dst1 = dst\<lparr>umin_value := umin_value dst * umin_val,
                            umax_value := umax_value dst * umax_val\<rparr>
             in if umax_value dst1 > S64_MAX
                then dst1\<lparr>smin_value := S64_MIN, smax_value := S64_MAX\<rparr>
                else dst1\<lparr>smin_value := umin_value dst1, smax_value := umax_value dst1\<rparr>)"

section \<open>Bitwise operations\<close>

text \<open>The caller has already replaced \<^verbatim>\<open>dst_reg->var_off\<close> by the result of the tnum operation.\<close>

definition scalar32_min_max_and :: "bpf_reg_state \<Rightarrow> bpf_reg_state \<Rightarrow> bpf_reg_state" where
  "scalar32_min_max_and dst src =
    (let src_known = tnum_subreg_is_const (var_off src);
         dst_known = tnum_subreg_is_const (var_off dst);
         var32_off = tnum_subreg (var_off dst);
         smin_val = s32_min_value src; umax_val = u32_max_value src
     in if src_known \<and> dst_known then uu_mark_reg32_known dst (tn_value var32_off)
        else let dst1 = dst\<lparr>u32_min_value := ucast (tn_value var32_off),
                            u32_max_value := min (u32_max_value dst) umax_val\<rparr>
             in if s32_min_value dst1 <s 0 \<or> smin_val <s 0
                then dst1\<lparr>s32_min_value := S32_MIN, s32_max_value := S32_MAX\<rparr>
                else dst1\<lparr>s32_min_value := u32_min_value dst1, s32_max_value := u32_max_value dst1\<rparr>)"

definition scalar_min_max_and :: "bpf_reg_state \<Rightarrow> bpf_reg_state \<Rightarrow> bpf_reg_state" where
  "scalar_min_max_and dst src =
    (let src_known = tnum_is_const (var_off src);
         dst_known = tnum_is_const (var_off dst);
         smin_val = smin_value src; umax_val = umax_value src
     in if src_known \<and> dst_known then uu_mark_reg_known dst (tn_value (var_off dst))
        else let dst1 = dst\<lparr>umin_value := tn_value (var_off dst),
                            umax_value := min (umax_value dst) umax_val\<rparr>;
                 dst2 = (if smin_value dst1 <s 0 \<or> smin_val <s 0
                         then dst1\<lparr>smin_value := S64_MIN, smax_value := S64_MAX\<rparr>
                         else dst1\<lparr>smin_value := umin_value dst1, smax_value := umax_value dst1\<rparr>)
             in uu_update_reg_bounds dst2)"

definition scalar32_min_max_or :: "bpf_reg_state \<Rightarrow> bpf_reg_state \<Rightarrow> bpf_reg_state" where
  "scalar32_min_max_or dst src =
    (let src_known = tnum_subreg_is_const (var_off src);
         dst_known = tnum_subreg_is_const (var_off dst);
         var32_off = tnum_subreg (var_off dst);
         smin_val = s32_min_value src; umin_val = u32_min_value src
     in if src_known \<and> dst_known then uu_mark_reg32_known dst (tn_value var32_off)
        else let dst1 = dst\<lparr>u32_min_value := max (u32_min_value dst) umin_val,
                            u32_max_value := ucast (tn_value var32_off OR tn_mask var32_off)\<rparr>
             in if s32_min_value dst1 <s 0 \<or> smin_val <s 0
                then dst1\<lparr>s32_min_value := S32_MIN, s32_max_value := S32_MAX\<rparr>
                else dst1\<lparr>s32_min_value := u32_min_value dst1, s32_max_value := u32_max_value dst1\<rparr>)"

definition scalar_min_max_or :: "bpf_reg_state \<Rightarrow> bpf_reg_state \<Rightarrow> bpf_reg_state" where
  "scalar_min_max_or dst src =
    (let src_known = tnum_is_const (var_off src);
         dst_known = tnum_is_const (var_off dst);
         smin_val = smin_value src; umin_val = umin_value src
     in if src_known \<and> dst_known then uu_mark_reg_known dst (tn_value (var_off dst))
        else let dst1 = dst\<lparr>umin_value := max (umin_value dst) umin_val,
                            umax_value := tn_value (var_off dst) OR tn_mask (var_off dst)\<rparr>;
                 dst2 = (if smin_value dst1 <s 0 \<or> smin_val <s 0
                         then dst1\<lparr>smin_value := S64_MIN, smax_value := S64_MAX\<rparr>
                         else dst1\<lparr>smin_value := umin_value dst1, smax_value := umax_value dst1\<rparr>)
             in uu_update_reg_bounds dst2)"

definition scalar32_min_max_xor :: "bpf_reg_state \<Rightarrow> bpf_reg_state \<Rightarrow> bpf_reg_state" where
  "scalar32_min_max_xor dst src =
    (let src_known = tnum_subreg_is_const (var_off src);
         dst_known = tnum_subreg_is_const (var_off dst);
         var32_off = tnum_subreg (var_off dst);
         smin_val = s32_min_value src
     in if src_known \<and> dst_known then uu_mark_reg32_known dst (tn_value var32_off)
        else let dst1 = dst\<lparr>u32_min_value := ucast (tn_value var32_off),
                            u32_max_value := ucast (tn_value var32_off OR tn_mask var32_off)\<rparr>
             in if 0 \<le>s s32_min_value dst1 \<and> 0 \<le>s smin_val
                then dst1\<lparr>s32_min_value := u32_min_value dst1, s32_max_value := u32_max_value dst1\<rparr>
                else dst1\<lparr>s32_min_value := S32_MIN, s32_max_value := S32_MAX\<rparr>)"

definition scalar_min_max_xor :: "bpf_reg_state \<Rightarrow> bpf_reg_state \<Rightarrow> bpf_reg_state" where
  "scalar_min_max_xor dst src =
    (let src_known = tnum_is_const (var_off src);
         dst_known = tnum_is_const (var_off dst);
         smin_val = smin_value src
     in if src_known \<and> dst_known then uu_mark_reg_known dst (tn_value (var_off dst))
        else let dst1 = dst\<lparr>umin_value := tn_value (var_off dst),
                            umax_value := tn_value (var_off dst) OR tn_mask (var_off dst)\<rparr>;
                 dst2 = (if 0 \<le>s smin_value dst1 \<and> 0 \<le>s smin_val
                         then dst1\<lparr>smin_value := umin_value dst1, smax_value := umax_value dst1\<rparr>
                         else dst1\<lparr>smin_value := S64_MIN, smax_value := S64_MAX\<rparr>)
             in uu_update_reg_bounds dst2)"

section \<open>Shifts\<close>

definition uu_scalar32_min_max_lsh :: "bpf_reg_state \<Rightarrow> u64 \<Rightarrow> u64 \<Rightarrow> bpf_reg_state" where
  "uu_scalar32_min_max_lsh dst umin_val umax_val =
    (let dst1 = dst\<lparr>s32_min_value := S32_MIN, s32_max_value := S32_MAX\<rparr>
     in if umax_val > 31 \<or> ucast (u32_max_value dst1) > (push_bit (unat (31 - umax_val)) 1 :: u64)
        then dst1\<lparr>u32_min_value := 0, u32_max_value := U32_MAX\<rparr>
        else dst1\<lparr>u32_min_value := push_bit (unat umin_val) (u32_min_value dst1),
                  u32_max_value := push_bit (unat umax_val) (u32_max_value dst1)\<rparr>)"

definition scalar32_min_max_lsh :: "bpf_reg_state \<Rightarrow> bpf_reg_state \<Rightarrow> bpf_reg_state" where
  "scalar32_min_max_lsh dst src =
    (let umax_val = u32_max_value src; umin_val = u32_min_value src;
         subreg = tnum_subreg (var_off dst);
         dst1 = uu_scalar32_min_max_lsh dst (ucast umin_val) (ucast umax_val);
         dst2 = dst1\<lparr>var_off := tnum_subreg (tnum_lshift subreg (ucast umin_val))\<rparr>
     in uu_update_reg32_bounds (uu_mark_reg64_unbounded dst2))"

definition uu_scalar64_min_max_lsh :: "bpf_reg_state \<Rightarrow> u64 \<Rightarrow> u64 \<Rightarrow> bpf_reg_state" where
  "uu_scalar64_min_max_lsh dst umin_val umax_val =
    (let dst1 = (if umin_val = 32 \<and> umax_val = 32 \<and> 0 \<le>s s32_max_value dst
                 then dst\<lparr>smax_value := push_bit 32 (scast (s32_max_value dst))\<rparr>
                 else dst\<lparr>smax_value := S64_MAX\<rparr>);
         dst2 = (if umin_val = 32 \<and> umax_val = 32 \<and> 0 \<le>s s32_min_value dst1
                 then dst1\<lparr>smin_value := push_bit 32 (scast (s32_min_value dst1))\<rparr>
                 else dst1\<lparr>smin_value := S64_MIN\<rparr>)
     in if umax_value dst2 > push_bit (unat (63 - umax_val)) 1
        then dst2\<lparr>umin_value := 0, umax_value := U64_MAX\<rparr>
        else dst2\<lparr>umin_value := push_bit (unat umin_val) (umin_value dst2),
                  umax_value := push_bit (unat umax_val) (umax_value dst2)\<rparr>)"

definition scalar_min_max_lsh :: "bpf_reg_state \<Rightarrow> bpf_reg_state \<Rightarrow> bpf_reg_state" where
  "scalar_min_max_lsh dst src =
    (let umax_val = umax_value src; umin_val = umin_value src;
         dst1 = uu_scalar64_min_max_lsh dst umin_val umax_val;
         dst2 = uu_scalar32_min_max_lsh dst1 umin_val umax_val;
         dst3 = dst2\<lparr>var_off := tnum_lshift (var_off dst2) (ucast umin_val)\<rparr>
     in uu_update_reg_bounds dst3)"

definition scalar32_min_max_rsh :: "bpf_reg_state \<Rightarrow> bpf_reg_state \<Rightarrow> bpf_reg_state" where
  "scalar32_min_max_rsh dst src =
    (let subreg = tnum_subreg (var_off dst);
         umax_val = u32_max_value src; umin_val = u32_min_value src;
         dst1 = dst\<lparr>s32_min_value := S32_MIN, s32_max_value := S32_MAX,
                     var_off := tnum_rshift subreg (ucast umin_val),
                     u32_min_value := drop_bit (unat umax_val) (u32_min_value dst),
                     u32_max_value := drop_bit (unat umin_val) (u32_max_value dst)\<rparr>
     in uu_update_reg32_bounds (uu_mark_reg64_unbounded dst1))"

definition scalar_min_max_rsh :: "bpf_reg_state \<Rightarrow> bpf_reg_state \<Rightarrow> bpf_reg_state" where
  "scalar_min_max_rsh dst src =
    (let umax_val = umax_value src; umin_val = umin_value src;
         dst1 = dst\<lparr>smin_value := S64_MIN, smax_value := S64_MAX,
                     var_off := tnum_rshift (var_off dst) (ucast umin_val),
                     umin_value := drop_bit (unat umax_val) (umin_value dst),
                     umax_value := drop_bit (unat umin_val) (umax_value dst)\<rparr>
     in uu_update_reg_bounds (uu_mark_reg32_unbounded dst1))"

definition scalar32_min_max_arsh :: "bpf_reg_state \<Rightarrow> bpf_reg_state \<Rightarrow> bpf_reg_state" where
  "scalar32_min_max_arsh dst src =
    (let umin_val = u32_min_value src;
         dst1 = dst\<lparr>s32_min_value := signed_drop_bit (unat umin_val) (s32_min_value dst),
                     s32_max_value := signed_drop_bit (unat umin_val) (s32_max_value dst),
                     var_off := tnum_arshift (tnum_subreg (var_off dst)) (ucast umin_val) 32,
                     u32_min_value := 0, u32_max_value := U32_MAX\<rparr>
     in uu_update_reg32_bounds (uu_mark_reg64_unbounded dst1))"

definition scalar_min_max_arsh :: "bpf_reg_state \<Rightarrow> bpf_reg_state \<Rightarrow> bpf_reg_state" where
  "scalar_min_max_arsh dst src =
    (let umin_val = umin_value src;
         dst1 = dst\<lparr>smin_value := signed_drop_bit (unat umin_val) (smin_value dst),
                     smax_value := signed_drop_bit (unat umin_val) (smax_value dst),
                     var_off := tnum_arshift (var_off dst) (ucast umin_val) 64,
                     umin_value := 0, umax_value := U64_MAX\<rparr>
     in uu_update_reg_bounds (uu_mark_reg32_unbounded dst1))"

section \<open>Soundness of addition, subtraction and multiplication\<close>

text \<open>A state update outside a group of fields does not change what that group allows.\<close>

lemma bounds64_frame [simp]:
  "bounds64 (r\<lparr>var_off := t\<rparr>) = bounds64 r" "bounds64 (r\<lparr>s32_min_value := a\<rparr>) = bounds64 r"
  "bounds64 (r\<lparr>s32_max_value := a\<rparr>) = bounds64 r" "bounds64 (r\<lparr>u32_min_value := a\<rparr>) = bounds64 r"
  "bounds64 (r\<lparr>u32_max_value := a\<rparr>) = bounds64 r"
  by (simp_all add: bounds64_def fun_eq_iff)

lemma bounds32_frame [simp]:
  "bounds32 (r\<lparr>var_off := t\<rparr>) = bounds32 r" "bounds32 (r\<lparr>smin_value := b\<rparr>) = bounds32 r"
  "bounds32 (r\<lparr>smax_value := b\<rparr>) = bounds32 r" "bounds32 (r\<lparr>umin_value := b\<rparr>) = bounds32 r"
  "bounds32 (r\<lparr>umax_value := b\<rparr>) = bounds32 r"
  by (simp_all add: bounds32_def fun_eq_iff)

lemma scalar_min_max_add_sound:
  assumes "bounds64 dst x" and "bounds64 src y"
  shows "bounds64 (scalar_min_max_add dst src) (x + y)"
  using assms signed_add_bounds [OF no_add_overflow no_add_overflow, of "smin_value src" "smin_value dst"
      "smax_value src" "smax_value dst" x y] unsigned_add_bounds [of "umax_value dst" "umax_value src"]
  by (simp add: scalar_min_max_add_def signed_add_overflows_def bounds64_def Let_def max_words)

lemma scalar32_min_max_add_sound:
  assumes "bounds32 dst x" and "bounds32 src y"
  shows "bounds32 (scalar32_min_max_add dst src) (x + y)"
  using assms signed_add_bounds [OF no_add_overflow no_add_overflow, of "s32_min_value src" "s32_min_value dst"
      "s32_max_value src" "s32_max_value dst" x y] unsigned_add_bounds [of "u32_max_value dst" "u32_max_value src"]
  by (simp add: scalar32_min_max_add_def signed_add32_overflows_def bounds32_def Let_def max_words)

lemma scalar_min_max_sub_sound:
  assumes "bounds64 dst x" and "bounds64 src y"
  shows "bounds64 (scalar_min_max_sub dst src) (x - y)"
  using assms signed_sub_bounds [OF no_sub_overflow no_sub_overflow, of "smax_value src" "smin_value dst"
      "smin_value src" "smax_value dst" x y] unsigned_sub_bounds [of "umin_value dst" "umax_value src"]
  by (simp add: scalar_min_max_sub_def signed_sub_overflows_def bounds64_def Let_def max_words)

lemma scalar32_min_max_sub_sound:
  assumes "bounds32 dst x" and "bounds32 src y"
  shows "bounds32 (scalar32_min_max_sub dst src) (x - y)"
  using assms signed_sub_bounds [OF no_sub_overflow no_sub_overflow, of "s32_max_value src" "s32_min_value dst"
      "s32_min_value src" "s32_max_value dst" x y] unsigned_sub_bounds [of "u32_min_value dst" "u32_max_value src"]
  by (simp add: scalar32_min_max_sub_def signed_sub32_overflows_def bounds32_def Let_def max_words)

lemma signed_copy:
  fixes x :: "'a::len word"
  assumes "l \<le> x" and "x \<le> h" and "0 \<le>s h"
  shows "l \<le>s x" and "x \<le>s h"
  using nonneg_below [OF assms(2,3)] nonneg_below(2) [OF assms(1)] by simp_all

lemma small_factors:
  "a \<le> ucast U32_MAX \<Longrightarrow> b \<le> (ucast U32_MAX :: u64) \<Longrightarrow> unat (a :: u64) * unat b < 2 ^ LENGTH(64)"
  "c \<le> U16_MAX \<Longrightarrow> d \<le> U16_MAX \<Longrightarrow> unat (c :: u32) * unat d < 2 ^ LENGTH(32)"
  using mult_le_mono [of "unat a" "2 ^ 32 - 1" "unat b" "2 ^ 32 - 1"]
    mult_le_mono [of "unat c" "2 ^ 16 - 1" "unat d" "2 ^ 16 - 1"]
  by (simp_all add: word_le_nat_alt)

lemma scalar_min_max_mul_sound:
  assumes "bounds64 dst x" and "bounds64 src y"
  shows "bounds64 (scalar_min_max_mul dst src) (x * y)"
proof -
  let ?l = "umin_value dst * umin_value src" and ?h = "umax_value dst * umax_value src"
  have "?l \<le> x * y \<and> x * y \<le> ?h"
    if "umax_value src \<le> ucast U32_MAX" "umax_value dst \<le> ucast U32_MAX"
    using unsigned_mul_bounds [OF small_factors(1) [OF that(2,1)]] assms by (simp add: bounds64_def)
  moreover have "0 \<le>s ?h" if "\<not> ?h > S64_MAX"
    using that by (simp add: word_order_int sint_uint64)
  ultimately show ?thesis
    using signed_copy [of ?l "x * y" ?h]
    by (simp add: scalar_min_max_mul_def Let_def) (simp add: bounds64_def max_words not_less)
qed

lemma scalar32_min_max_mul_sound:
  assumes "bounds32 dst x" and "bounds32 src y"
  shows "bounds32 (scalar32_min_max_mul dst src) (x * y)"
proof -
  let ?l = "u32_min_value dst * u32_min_value src" and ?h = "u32_max_value dst * u32_max_value src"
  have "?l \<le> x * y \<and> x * y \<le> ?h"
    if "u32_max_value src \<le> U16_MAX" "u32_max_value dst \<le> U16_MAX"
    using unsigned_mul_bounds [OF small_factors(2) [OF that(2,1)]] assms by (simp add: bounds32_def)
  moreover have "0 \<le>s ?h" if "\<not> ?h > S32_MAX"
    using that by (simp add: word_order_int sint_uint32)
  ultimately show ?thesis
    using signed_copy [of ?l "x * y" ?h]
    by (simp add: scalar32_min_max_mul_def Let_def) (simp add: bounds32_def max_words not_less)
qed

section \<open>Soundness of the bitwise operations\<close>

lemma tnum_nonneg:
  assumes "tnum_contains t x" and "0 \<le>s x" and "\<not> bit (tn_mask t) 63"
  shows "0 \<le>s tn_value t OR tn_mask t"
  using assms tnum_contains_bits(1) [OF assms(1), of 63] by (auto simp: sle_zero_bit bit_simps)

lemma uu_mark_reg32_known_sound:
  assumes "tnum_contains (var_off r) x" and "tnum_subreg_is_const (var_off r)"
  shows "tnum_contains (var_off (uu_mark_reg32_known r (tn_value (tnum_subreg (var_off r))))) x"
    and "bounds32 (uu_mark_reg32_known r (tn_value (tnum_subreg (var_off r)))) (ucast x)"
proof -
  have "ucast (ucast x :: u32) = tn_value (tnum_subreg (var_off r))"
    using tnum_subreg_sound [OF assms(1)] assms(2)
    by (simp add: tnum_subreg_is_const_def tnum_contains_const tnum_is_const_def)
  then have "ucast x = (ucast (tn_value (tnum_subreg (var_off r))) :: u32)"
    by (metis ucast_down_up)
  then show "tnum_contains (var_off (uu_mark_reg32_known r (tn_value (tnum_subreg (var_off r))))) x"
    and "bounds32 (uu_mark_reg32_known r (tn_value (tnum_subreg (var_off r)))) (ucast x)"
    using tnum_const_subreg_sound [OF assms(1)] by (simp_all add: uu_mark_reg32_known_def bounds32_def)
qed

lemma not_sless: "\<not> (a :: 'a::len word) <s b \<longleftrightarrow> b \<le>s a"
  by (simp add: word_order_int not_less)

lemma var32_bounds:
  assumes "tnum_contains t x"
  shows "ucast (tn_value (tnum_subreg t)) \<le> (ucast x :: u32)"
    and "(ucast x :: u32) \<le> ucast (tn_value (tnum_subreg t) OR tn_mask (tnum_subreg t))"
    and "0 \<le>s (ucast x :: u32) \<Longrightarrow> \<not> bit (tn_mask t) 31 \<Longrightarrow>
      0 \<le>s (ucast (tn_value (tnum_subreg t) OR tn_mask (tnum_subreg t)) :: u32)"
  using tri_unsigned [OF tnum_contains_tri32 [OF assms]] tnum_contains_bits(1) [OF assms, of 31]
  by (auto simp: tnum_subreg_low ucast32_bitops sle_zero_bit bit_simps)

lemma ucast32_xor: "ucast (a XOR b :: u64) = (ucast a XOR ucast b :: u32)"
  by (auto intro!: bit_word_eqI simp: bit_simps)

lemma nonneg_or: "0 \<le>s x \<Longrightarrow> 0 \<le>s y \<Longrightarrow> 0 \<le>s (x OR y :: 'a::len word)"
  and nonneg_xor: "0 \<le>s x \<Longrightarrow> 0 \<le>s y \<Longrightarrow> 0 \<le>s (x XOR y :: 'a::len word)"
  by (simp_all add: sle_zero_bit bit_simps)

lemma bounds64_nonneg: "bounds64 r x \<Longrightarrow> 0 \<le>s smin_value r \<Longrightarrow> 0 \<le>s x"
  and bounds32_nonneg: "bounds32 r w \<Longrightarrow> 0 \<le>s s32_min_value r \<Longrightarrow> 0 \<le>s w"
  by (simp_all add: bounds64_def bounds32_def word_sle_eq)

lemma scalar32_min_max_and_sound:
  assumes t: "tnum_contains (var_off dst) (x AND y)"
    and b: "bounds32 dst (ucast x)" "bounds32 src (ucast y)"
    and sync: "0 \<le>s s32_min_value dst \<Longrightarrow> 0 \<le>s u32_max_value dst"
  shows "tnum_contains (var_off (scalar32_min_max_and dst src)) (x AND y)"
    and "bounds32 (scalar32_min_max_and dst src) (ucast (x AND y))"
proof -
  have le: "(ucast (x AND y) :: u32) \<le> min (u32_max_value dst) (u32_max_value src)"
    unfolding ucast32_bitops by (rule and_le_min) (use b in \<open>simp_all add: bounds32_def\<close>)
  show "tnum_contains (var_off (scalar32_min_max_and dst src)) (x AND y)"
    using t uu_mark_reg32_known_sound [OF t] by (simp add: scalar32_min_max_and_def Let_def)
  show "bounds32 (scalar32_min_max_and dst src) (ucast (x AND y))"
    using uu_mark_reg32_known_sound [OF t] le var32_bounds(1) [OF t] sync
      signed_copy [OF var32_bounds(1) [OF t] le]
    by (auto simp: scalar32_min_max_and_def Let_def)
      (auto simp: bounds32_def max_words min_nonneg not_sless)
qed

lemma scalar_min_max_and_sound:
  assumes t: "tnum_contains (var_off dst) (x AND y)" and b32: "bounds32 dst (ucast (x AND y))"
    and b: "bounds64 dst x" "bounds64 src y"
    and sync: "0 \<le>s smin_value dst \<Longrightarrow> 0 \<le>s umax_value dst"
  shows "reg_contains (scalar_min_max_and dst src) (x AND y)"
proof (cases "tnum_is_const (var_off src) \<and> tnum_is_const (var_off dst)")
  case True
  then have "x AND y = tn_value (var_off dst)" using t tnum_contains_const by blast
  with True show ?thesis by (simp add: scalar_min_max_and_def uu_mark_reg_known_contains)
next
  case False
  have le: "x AND y \<le> min (umax_value dst) (umax_value src)"
    by (rule and_le_min) (use b in \<open>simp_all add: bounds64_def\<close>)
  show ?thesis
    using False t b32 le tnum_contains_bounds(1) [OF t] sync signed_copy [OF tnum_contains_bounds(1) [OF t] le]
    by (auto simp: scalar_min_max_and_def Let_def intro!: uu_update_reg_bounds_sound)
      (auto simp: reg_contains_def bounds64_def max_words min_nonneg not_sless)
qed

lemma scalar32_min_max_or_sound:
  assumes t: "tnum_contains (var_off dst) (x OR y)"
    and b: "bounds32 dst (ucast x)" "bounds32 src (ucast y)"
    and sync: "0 \<le>s s32_min_value dst \<Longrightarrow> 0 \<le>s s32_min_value src \<Longrightarrow> \<not> bit (tn_mask (var_off dst)) 31"
  shows "tnum_contains (var_off (scalar32_min_max_or dst src)) (x OR y)"
    and "bounds32 (scalar32_min_max_or dst src) (ucast (x OR y))"
proof -
  have le: "max (u32_min_value dst) (u32_min_value src) \<le> (ucast (x OR y) :: u32)"
    unfolding ucast32_bitops by (rule max_le_or) (use b in \<open>simp_all add: bounds32_def\<close>)
  have nn: "0 \<le>s (ucast (x OR y) :: u32)" if "0 \<le>s s32_min_value dst" "0 \<le>s s32_min_value src"
    using that b unfolding ucast32_bitops by (simp add: nonneg_or bounds32_nonneg)
  show "tnum_contains (var_off (scalar32_min_max_or dst src)) (x OR y)"
    using t uu_mark_reg32_known_sound [OF t] by (simp add: scalar32_min_max_or_def Let_def)
  show "bounds32 (scalar32_min_max_or dst src) (ucast (x OR y))"
    using uu_mark_reg32_known_sound [OF t] le var32_bounds [OF t] sync nn
      signed_copy [OF le var32_bounds(2) [OF t]]
    by (auto simp: scalar32_min_max_or_def Let_def)
      (auto simp: bounds32_def max_words not_sless)
qed

lemma scalar_min_max_or_sound:
  assumes t: "tnum_contains (var_off dst) (x OR y)" and b32: "bounds32 dst (ucast (x OR y))"
    and b: "bounds64 dst x" "bounds64 src y"
    and sync: "0 \<le>s smin_value dst \<Longrightarrow> 0 \<le>s smin_value src \<Longrightarrow> \<not> bit (tn_mask (var_off dst)) 63"
  shows "reg_contains (scalar_min_max_or dst src) (x OR y)"
proof (cases "tnum_is_const (var_off src) \<and> tnum_is_const (var_off dst)")
  case True
  then have "x OR y = tn_value (var_off dst)" using t tnum_contains_const by blast
  with True show ?thesis by (simp add: scalar_min_max_or_def uu_mark_reg_known_contains)
next
  case False
  have le: "max (umin_value dst) (umin_value src) \<le> x OR y"
    by (rule max_le_or) (use b in \<open>simp_all add: bounds64_def\<close>)
  have nn: "0 \<le>s x OR y" if "0 \<le>s smin_value dst" "0 \<le>s smin_value src"
    using that b by (simp add: nonneg_or bounds64_nonneg)
  show ?thesis
    using False t b32 le tnum_contains_bounds(2) [OF t] sync nn tnum_nonneg [OF t]
      signed_copy [OF le tnum_contains_bounds(2) [OF t]]
    by (auto simp: scalar_min_max_or_def Let_def intro!: uu_update_reg_bounds_sound)
      (auto simp: reg_contains_def bounds64_def max_words not_sless)
qed

lemma scalar32_min_max_xor_sound:
  assumes t: "tnum_contains (var_off dst) (x XOR y)"
    and b: "bounds32 dst (ucast x)" "bounds32 src (ucast y)"
    and sync: "0 \<le>s s32_min_value dst \<Longrightarrow> 0 \<le>s s32_min_value src \<Longrightarrow> \<not> bit (tn_mask (var_off dst)) 31"
  shows "tnum_contains (var_off (scalar32_min_max_xor dst src)) (x XOR y)"
    and "bounds32 (scalar32_min_max_xor dst src) (ucast (x XOR y))"
proof -
  have nn: "0 \<le>s (ucast (x XOR y) :: u32)" if "0 \<le>s s32_min_value dst" "0 \<le>s s32_min_value src"
    using that b unfolding ucast32_xor by (simp add: nonneg_xor bounds32_nonneg)
  show "tnum_contains (var_off (scalar32_min_max_xor dst src)) (x XOR y)"
    using t uu_mark_reg32_known_sound [OF t] by (simp add: scalar32_min_max_xor_def Let_def)
  show "bounds32 (scalar32_min_max_xor dst src) (ucast (x XOR y))"
    using uu_mark_reg32_known_sound [OF t] var32_bounds [OF t] sync nn
      signed_copy [OF var32_bounds(1,2) [OF t]]
    by (auto simp: scalar32_min_max_xor_def Let_def)
      (auto simp: bounds32_def max_words)
qed

lemma scalar_min_max_xor_sound:
  assumes t: "tnum_contains (var_off dst) (x XOR y)" and b32: "bounds32 dst (ucast (x XOR y))"
    and b: "bounds64 dst x" "bounds64 src y"
    and sync: "0 \<le>s smin_value dst \<Longrightarrow> 0 \<le>s smin_value src \<Longrightarrow> \<not> bit (tn_mask (var_off dst)) 63"
  shows "reg_contains (scalar_min_max_xor dst src) (x XOR y)"
proof (cases "tnum_is_const (var_off src) \<and> tnum_is_const (var_off dst)")
  case True
  then have "x XOR y = tn_value (var_off dst)" using t tnum_contains_const by blast
  with True show ?thesis by (simp add: scalar_min_max_xor_def uu_mark_reg_known_contains)
next
  case False
  have nn: "0 \<le>s x XOR y" if "0 \<le>s smin_value dst" "0 \<le>s smin_value src"
    using that b by (simp add: nonneg_xor bounds64_nonneg)
  show ?thesis
    using False t b32 tnum_contains_bounds [OF t] sync nn tnum_nonneg [OF t]
      signed_copy [OF tnum_contains_bounds [OF t]]
    by (auto simp: scalar_min_max_xor_def Let_def intro!: uu_update_reg_bounds_sound)
      (auto simp: reg_contains_def bounds64_def max_words)
qed

section \<open>Soundness of the shifts\<close>

text \<open>
  The caller only shifts by a known amount below the width, so both bounds of the source are the
  shift count.
\<close>

lemma ucast_push_bit: "ucast (push_bit n x :: u64) = (push_bit n (ucast x) :: u32)"
  by (intro bit_word_eqI) (auto simp: bit_simps)

lemma unat_push_bit_one: "k < LENGTH('a) \<Longrightarrow> unat (push_bit k 1 :: 'a::len word) = 2 ^ k"
  using unat_push_bit_small [of "1 :: 'a word" k] by (simp del: push_bit_of_1)

lemma lsh_room:
  assumes "unat h \<le> 2 ^ (LENGTH('a) - 1 - k)" and "k < LENGTH('a)"
  shows "unat (h :: 'a::len word) * 2 ^ k < 2 ^ LENGTH('a)"
proof -
  have "unat h * 2 ^ k \<le> 2 ^ (LENGTH('a) - 1 - k) * 2 ^ k" using assms(1) by (rule mult_le_mono1)
  also have "\<dots> = 2 ^ (LENGTH('a) - 1)" using assms(2) by (simp flip: power_add)
  finally show ?thesis by (smt (verit) diff_less le_less_trans len_gt_0 less_one nat_power_less_imp_less
        one_less_numeral_iff power_strict_increasing semiring_norm(76))
qed

lemma uu_scalar32_min_max_lsh_sound:
  assumes "bounds32 dst w"
  shows "bounds32 (uu_scalar32_min_max_lsh dst s s) (push_bit (unat s) w)"
proof (cases "s > 31 \<or> ucast (u32_max_value dst) > (push_bit (unat (31 - s)) 1 :: u64)")
  case True
  then show ?thesis by (simp add: uu_scalar32_min_max_lsh_def Let_def bounds32_def max_words)
next
  case False
  have "unat (31 - s) = 31 - unat s" "unat s < 32"
    using False by (simp_all add: unat_sub word_le_nat_alt not_less)
  with False have "unat (u32_max_value dst) \<le> 2 ^ (31 - unat s)"
    by (simp add: not_less word_le_nat_alt unat_push_bit_one unat_ucast_64 del: push_bit_of_1)
  then have "unat (u32_max_value dst) * 2 ^ unat s < 2 ^ LENGTH(32)"
    using \<open>unat s < 32\<close> by (intro lsh_room) simp_all
  then show ?thesis
    using assms False unsigned_lsh_bounds [of "u32_max_value dst" "unat s" "u32_min_value dst" w "unat s" "unat s"]
    by (simp add: uu_scalar32_min_max_lsh_def Let_def bounds32_def max_words not_less del: push_bit_of_1)
qed

lemma sint_push_bit_32: "sint (push_bit 32 (x :: u64)) = sint (ucast x :: u32) * 2 ^ 32"
proof -
  have "uint (push_bit 32 x) = (uint x * 2 ^ 32) mod 2 ^ 64"
    by (simp only: unsigned_push_bit_eq push_bit_eq_mult [of _ "uint _"] take_bit_eq_mod) simp
  also have "\<dots> = (uint x mod 2 ^ 32) * 2 ^ 32"
    using mult_mod_left [of "uint x" "2 ^ 32" "2 ^ 32"] by simp
  finally have "uint (push_bit 32 x) = uint (ucast x :: u32) * 2 ^ 32" by (simp only: uint_ucast_32)
  then show ?thesis unfolding sint_uint64 sint_uint32 by simp
qed

lemma ucast_scast_id: "ucast (scast (w :: u32) :: u64) = w"
  by (intro bit_word_eqI) (auto simp: bit_simps)

lemma uu_scalar64_min_max_lsh_sound:
  assumes "bounds64 dst x" and "bounds32 dst (ucast x)" and "s < 64"
  shows "bounds64 (uu_scalar64_min_max_lsh dst s s) (push_bit (unat s) x)"
proof -
  have sgn: "push_bit 32 (scast (s32_min_value dst)) \<le>s push_bit 32 x"
    "push_bit 32 x \<le>s push_bit 32 (scast (s32_max_value dst))"
    using assms(2) by (simp_all add: word_sle_eq sint_push_bit_32 ucast_scast_id bounds32_def)
  have s: "unat (63 - s) = 63 - unat s" "unat s < 64"
    using assms(3) by (simp_all add: unat_sub word_le_nat_alt word_less_nat_alt)
  have "push_bit (unat s) (umin_value dst) \<le> push_bit (unat s) x \<and> push_bit (unat s) x \<le> push_bit (unat s) (umax_value dst)"
    if "\<not> umax_value dst > push_bit (unat (63 - s)) 1"
  proof -
    have "unat (umax_value dst) \<le> 2 ^ (63 - unat s)"
      using that s by (simp add: not_less word_le_nat_alt unat_push_bit_one del: push_bit_of_1)
    then have "unat (umax_value dst) * 2 ^ unat s < 2 ^ LENGTH(64)"
      using s by (intro lsh_room) simp_all
    then show ?thesis
      using assms(1) unsigned_lsh_bounds [of "umax_value dst" "unat s" "umin_value dst" x "unat s" "unat s"]
      by (simp add: bounds64_def)
  qed
  then show ?thesis
    using sgn by (auto simp: uu_scalar64_min_max_lsh_def Let_def bounds64_def max_words simp del: push_bit_of_1)
qed

lemma shift_count:
  "(s :: u64) < 64 \<Longrightarrow> unat (ucast s :: u8) = unat s"
  "(c :: u32) < 32 \<Longrightarrow> unat (ucast c :: u8) = unat c"
  by (simp_all add: word_less_nat_alt unsigned_ucast_eq take_bit_nat_eq_self)

lemma lsh_frame [simp]:
  "var_off (uu_scalar64_min_max_lsh dst a b) = var_off dst"
  "bounds32 (uu_scalar64_min_max_lsh dst a b) = bounds32 dst"
  "var_off (uu_scalar32_min_max_lsh dst a b) = var_off dst"
  "bounds64 (uu_scalar32_min_max_lsh dst a b) = bounds64 dst"
  by (simp_all add: uu_scalar64_min_max_lsh_def uu_scalar32_min_max_lsh_def Let_def)

lemma scalar_min_max_lsh_sound:
  assumes "reg_contains dst x" and "umin_value src = s" "umax_value src = s" and "s < 64"
  shows "reg_contains (scalar_min_max_lsh dst src) (push_bit (unat s) x)"
  using assms uu_scalar64_min_max_lsh_sound [of dst x s]
    uu_scalar32_min_max_lsh_sound [of "uu_scalar64_min_max_lsh dst s s" "ucast x" s]
    tnum_lshift_sound [of "var_off dst" x "ucast s"]
  unfolding scalar_min_max_lsh_def Let_def
  by (intro uu_update_reg_bounds_sound) (simp add: reg_contains_def ucast_push_bit shift_count)

text \<open>A 32-bit shift leaves a state that allows the lower half of the result, which is then zero-extended.\<close>

definition sub_contains :: "bpf_reg_state \<Rightarrow> u32 \<Rightarrow> bool" where
  "sub_contains r w \<longleftrightarrow> tnum_contains (var_off r) (ucast w) \<and> bounds32 r w"

lemma sub_contains_zext: "sub_contains r w \<Longrightarrow> reg_contains (zext_32_to_64 r) (ucast w)"
  using tnum_subreg_sound [of "var_off r" "ucast w"]
  by (simp add: sub_contains_def zext_32_to_64_sound ucast_down_up)

lemma sub_contains_update:
  assumes "sub_contains r w"
  shows "sub_contains (uu_update_reg32_bounds r) w"
  using assms uu_update_reg32_bounds_sound [of r "ucast w"]
  by (simp add: sub_contains_def ucast_down_up)

lemma sub_contains_unbounded64 [simp]: "sub_contains (uu_mark_reg64_unbounded r) = sub_contains r"
  by (simp add: sub_contains_def fun_eq_iff) (simp add: uu_mark_reg64_unbounded_def)

lemma scalar32_min_max_lsh_sound:
  assumes "reg_contains dst x" and "u32_min_value src = s" "u32_max_value src = s" and "s < 32"
  shows "sub_contains (scalar32_min_max_lsh dst src) (push_bit (unat s) (ucast x))"
proof -
  have "tnum_contains (tnum_subreg (tnum_lshift (tnum_subreg (var_off dst)) (ucast s)))
      (ucast (ucast (push_bit (unat s) (ucast (ucast x :: u32)) :: u64) :: u32))"
    using tnum_subreg_sound [OF tnum_lshift_sound [OF tnum_subreg_sound [OF reg_containsD(1) [OF assms(1)]]], of "ucast s"]
      assms(4) by (simp add: shift_count)
  then show ?thesis
    using assms uu_scalar32_min_max_lsh_sound [OF reg_containsD(3) [OF assms(1)], of "ucast s"]
    unfolding scalar32_min_max_lsh_def Let_def
    by (intro sub_contains_update) (simp add: sub_contains_def unat_ucast_64 ucast_push_bit ucast_down_up)
qed

lemma scalar_min_max_rsh_sound:
  assumes "reg_contains dst x" and "umin_value src = s" "umax_value src = s" and "s < 64"
  shows "reg_contains (scalar_min_max_rsh dst src) (drop_bit (unat s) x)"
  using assms tnum_rshift_sound [of "var_off dst" x "ucast s"]
  unfolding scalar_min_max_rsh_def Let_def
  by (intro uu_update_reg_bounds_sound reg_containsI)
    (simp_all add: reg_contains_def shift_count uu_mark_reg32_unbounded_def bounds64_def bounds32_def
      max_words drop_bit_mono)

lemma ucast_drop_bit32: "ucast (drop_bit n (w :: u32)) = (drop_bit n (ucast w) :: u64)"
proof (rule bit_word_eqI)
  fix m
  show "bit (ucast (drop_bit n w) :: u64) m = bit (drop_bit n (ucast w) :: u64) m"
    using bit_imp_le_length [of w "n + m"] by (auto simp: bit_simps)
qed

lemma scalar32_min_max_rsh_sound:
  assumes "reg_contains dst x" and "u32_min_value src = s" "u32_max_value src = s" and "s < 32"
  shows "sub_contains (scalar32_min_max_rsh dst src) (drop_bit (unat s) (ucast x))"
  using assms tnum_rshift_sound [OF tnum_subreg_sound [OF reg_containsD(1) [OF assms(1)]], of "ucast s"]
  unfolding scalar32_min_max_rsh_def Let_def
  by (intro sub_contains_update)
    (simp add: sub_contains_def reg_contains_def shift_count bounds32_def max_words drop_bit_mono ucast_drop_bit32)

lemma scalar_min_max_arsh_sound:
  assumes "reg_contains dst x" and "umin_value src = s" and "s < 64"
  shows "reg_contains (scalar_min_max_arsh dst src) (signed_drop_bit (unat s) x)"
  using assms tnum_arshift64_sound [of "var_off dst" x "ucast s"]
  unfolding scalar_min_max_arsh_def Let_def
  by (intro uu_update_reg_bounds_sound reg_containsI)
    (simp_all add: reg_contains_def shift_count uu_mark_reg32_unbounded_def bounds64_def bounds32_def
      max_words signed_drop_bit_mono)

lemma scalar32_min_max_arsh_sound:
  assumes "reg_contains dst x" and "u32_min_value src = s" and "s < 32"
  shows "sub_contains (scalar32_min_max_arsh dst src) (signed_drop_bit (unat s) (ucast x))"
  using assms tnum_arshift32_sound [OF tnum_subreg_sound [OF reg_containsD(1) [OF assms(1)]], of "ucast s"]
  unfolding scalar32_min_max_arsh_def Let_def
  by (intro sub_contains_update)
    (simp add: sub_contains_def reg_contains_def shift_count bounds32_def max_words signed_drop_bit_mono ucast_down_up)

end
