(* ===== verification/Bpf_Insn.thy ===== *)
theory Bpf_Insn
  imports Prelude
begin

text \<open>
  The instruction format and the opcode tables of eBPF: \<^verbatim>\<open>struct bpf_insn\<close> and the encodings of
  \<^verbatim>\<open>include/uapi/linux/bpf_common.h\<close> and \<^verbatim>\<open>include/uapi/linux/bpf.h\<close>, and the
  macro \<^verbatim>\<open>BPF_INSN_MAP\<close> of \<^verbatim>\<open>kernel/bpf/core.c\<close>, from which both the table of
  accepted opcodes and the jump table of the interpreter are built. A label of the interpreter is a
  constructor of \<open>bpf_label\<close>, its first argument the width where there are two.
\<close>

section \<open>Encodings\<close>

abbreviation BPF_LD :: u8 where "BPF_LD \<equiv> 0x00"
abbreviation BPF_LDX :: u8 where "BPF_LDX \<equiv> 0x01"
abbreviation BPF_ST :: u8 where "BPF_ST \<equiv> 0x02"
abbreviation BPF_STX :: u8 where "BPF_STX \<equiv> 0x03"
abbreviation BPF_ALU :: u8 where "BPF_ALU \<equiv> 0x04"
abbreviation BPF_JMP :: u8 where "BPF_JMP \<equiv> 0x05"
abbreviation BPF_JMP32 :: u8 where "BPF_JMP32 \<equiv> 0x06"
abbreviation BPF_ALU64 :: u8 where "BPF_ALU64 \<equiv> 0x07"

abbreviation BPF_W :: u8 where "BPF_W \<equiv> 0x00"
abbreviation BPF_H :: u8 where "BPF_H \<equiv> 0x08"
abbreviation BPF_B :: u8 where "BPF_B \<equiv> 0x10"
abbreviation BPF_DW :: u8 where "BPF_DW \<equiv> 0x18"

abbreviation BPF_IMM :: u8 where "BPF_IMM \<equiv> 0x00"
abbreviation BPF_ABS :: u8 where "BPF_ABS \<equiv> 0x20"
abbreviation BPF_IND :: u8 where "BPF_IND \<equiv> 0x40"
abbreviation BPF_MEM :: u8 where "BPF_MEM \<equiv> 0x60"
abbreviation BPF_XADD :: u8 where "BPF_XADD \<equiv> 0xc0"
abbreviation BPF_PROBE_MEM :: u8 where "BPF_PROBE_MEM \<equiv> 0x20"
abbreviation BPF_NOSPEC :: u8 where "BPF_NOSPEC \<equiv> 0xc0"

abbreviation BPF_ADD :: u8 where "BPF_ADD \<equiv> 0x00"
abbreviation BPF_SUB :: u8 where "BPF_SUB \<equiv> 0x10"
abbreviation BPF_MUL :: u8 where "BPF_MUL \<equiv> 0x20"
abbreviation BPF_DIV :: u8 where "BPF_DIV \<equiv> 0x30"
abbreviation BPF_OR :: u8 where "BPF_OR \<equiv> 0x40"
abbreviation BPF_AND :: u8 where "BPF_AND \<equiv> 0x50"
abbreviation BPF_LSH :: u8 where "BPF_LSH \<equiv> 0x60"
abbreviation BPF_RSH :: u8 where "BPF_RSH \<equiv> 0x70"
abbreviation BPF_NEG :: u8 where "BPF_NEG \<equiv> 0x80"
abbreviation BPF_MOD :: u8 where "BPF_MOD \<equiv> 0x90"
abbreviation BPF_XOR :: u8 where "BPF_XOR \<equiv> 0xa0"
abbreviation BPF_MOV :: u8 where "BPF_MOV \<equiv> 0xb0"
abbreviation BPF_ARSH :: u8 where "BPF_ARSH \<equiv> 0xc0"
abbreviation BPF_END :: u8 where "BPF_END \<equiv> 0xd0"

abbreviation BPF_JA :: u8 where "BPF_JA \<equiv> 0x00"
abbreviation BPF_JEQ :: u8 where "BPF_JEQ \<equiv> 0x10"
abbreviation BPF_JGT :: u8 where "BPF_JGT \<equiv> 0x20"
abbreviation BPF_JGE :: u8 where "BPF_JGE \<equiv> 0x30"
abbreviation BPF_JSET :: u8 where "BPF_JSET \<equiv> 0x40"
abbreviation BPF_JNE :: u8 where "BPF_JNE \<equiv> 0x50"
abbreviation BPF_JSGT :: u8 where "BPF_JSGT \<equiv> 0x60"
abbreviation BPF_JSGE :: u8 where "BPF_JSGE \<equiv> 0x70"
abbreviation BPF_CALL :: u8 where "BPF_CALL \<equiv> 0x80"
abbreviation BPF_EXIT :: u8 where "BPF_EXIT \<equiv> 0x90"
abbreviation BPF_JLT :: u8 where "BPF_JLT \<equiv> 0xa0"
abbreviation BPF_JLE :: u8 where "BPF_JLE \<equiv> 0xb0"
abbreviation BPF_JSLT :: u8 where "BPF_JSLT \<equiv> 0xc0"
abbreviation BPF_JSLE :: u8 where "BPF_JSLE \<equiv> 0xd0"
abbreviation BPF_CALL_ARGS :: u8 where "BPF_CALL_ARGS \<equiv> 0xe0"
abbreviation BPF_TAIL_CALL :: u8 where "BPF_TAIL_CALL \<equiv> 0xf0"

abbreviation BPF_K :: u8 where "BPF_K \<equiv> 0x00"
abbreviation BPF_X :: u8 where "BPF_X \<equiv> 0x08"
abbreviation BPF_TO_LE :: u8 where "BPF_TO_LE \<equiv> 0x00"
abbreviation BPF_TO_BE :: u8 where "BPF_TO_BE \<equiv> 0x08"

definition BPF_CLASS :: "u8 \<Rightarrow> u8" where "BPF_CLASS c = c AND 0x07"
definition BPF_OP :: "u8 \<Rightarrow> u8" where "BPF_OP c = c AND 0xf0"
definition BPF_SRC :: "u8 \<Rightarrow> u8" where "BPF_SRC c = c AND 0x08"
definition BPF_SIZE :: "u8 \<Rightarrow> u8" where "BPF_SIZE c = c AND 0x18"
definition BPF_MODE :: "u8 \<Rightarrow> u8" where "BPF_MODE c = c AND 0xe0"

text \<open>The four-bit register fields are natural numbers.\<close>

record bpf_insn =
  insn_code :: u8
  insn_dst :: nat
  insn_src :: nat
  insn_off :: s16
  insn_imm :: s32

section \<open>The instruction table\<close>

datatype bpf_alu_op = OP_ADD | OP_SUB | OP_AND | OP_OR | OP_LSH | OP_RSH | OP_XOR | OP_MUL | OP_MOV
  | OP_ARSH | OP_DIV | OP_MOD

datatype bpf_cond = C_JEQ | C_JNE | C_JGT | C_JLT | C_JGE | C_JLE | C_JSGT | C_JSLT | C_JSGE | C_JSLE
  | C_JSET

datatype bpf_mem_size = SZ_B | SZ_H | SZ_W | SZ_DW

text \<open>
  \<open>L_ALU wide op x\<close> is \<^verbatim>\<open>ALU64_op_X\<close> or its variants, \<open>L_COND_JMP half c x\<close> is
  \<^verbatim>\<open>JMP32_c_X\<close> or its variants, \<open>L_END be\<close> is \<^verbatim>\<open>ALU_END_TO_BE\<close> or
  \<^verbatim>\<open>ALU_END_TO_LE\<close>.
\<close>

datatype bpf_label = L_ALU bool bpf_alu_op bool | L_NEG bool | L_END bool | L_CALL | L_EXIT
  | L_COND_JMP bool bpf_cond bool | L_JA | L_STX_MEM bpf_mem_size | L_STX_XADD bpf_mem_size
  | L_ST_MEM bpf_mem_size | L_LDX_MEM bpf_mem_size | L_LD_IMM_DW | L_CALL_ARGS | L_TAIL_CALL
  | L_ST_NOSPEC | L_LDX_PROBE_MEM bpf_mem_size | L_default

definition BPF_INSN_MAP :: "(u8 \<times> bpf_label) list" where
  "BPF_INSN_MAP =
  [
   (BPF_ALU OR BPF_ADD OR BPF_X, L_ALU False OP_ADD True), (BPF_ALU OR BPF_SUB OR BPF_X, L_ALU False OP_SUB True),
   (BPF_ALU OR BPF_AND OR BPF_X, L_ALU False OP_AND True), (BPF_ALU OR BPF_OR OR BPF_X, L_ALU False OP_OR True),
   (BPF_ALU OR BPF_LSH OR BPF_X, L_ALU False OP_LSH True), (BPF_ALU OR BPF_RSH OR BPF_X, L_ALU False OP_RSH True),
   (BPF_ALU OR BPF_XOR OR BPF_X, L_ALU False OP_XOR True), (BPF_ALU OR BPF_MUL OR BPF_X, L_ALU False OP_MUL True),
   (BPF_ALU OR BPF_MOV OR BPF_X, L_ALU False OP_MOV True), (BPF_ALU OR BPF_ARSH OR BPF_X, L_ALU False OP_ARSH True),
   (BPF_ALU OR BPF_DIV OR BPF_X, L_ALU False OP_DIV True), (BPF_ALU OR BPF_MOD OR BPF_X, L_ALU False OP_MOD True),
   (BPF_ALU OR BPF_NEG, L_NEG False), (BPF_ALU OR BPF_END OR BPF_TO_BE, L_END True),
   (BPF_ALU OR BPF_END OR BPF_TO_LE, L_END False), (BPF_ALU OR BPF_ADD OR BPF_K, L_ALU False OP_ADD False),
   (BPF_ALU OR BPF_SUB OR BPF_K, L_ALU False OP_SUB False), (BPF_ALU OR BPF_AND OR BPF_K, L_ALU False OP_AND False),
   (BPF_ALU OR BPF_OR OR BPF_K, L_ALU False OP_OR False), (BPF_ALU OR BPF_LSH OR BPF_K, L_ALU False OP_LSH False),
   (BPF_ALU OR BPF_RSH OR BPF_K, L_ALU False OP_RSH False), (BPF_ALU OR BPF_XOR OR BPF_K, L_ALU False OP_XOR False),
   (BPF_ALU OR BPF_MUL OR BPF_K, L_ALU False OP_MUL False), (BPF_ALU OR BPF_MOV OR BPF_K, L_ALU False OP_MOV False),
   (BPF_ALU OR BPF_ARSH OR BPF_K, L_ALU False OP_ARSH False), (BPF_ALU OR BPF_DIV OR BPF_K, L_ALU False OP_DIV False),
   (BPF_ALU OR BPF_MOD OR BPF_K, L_ALU False OP_MOD False), (BPF_ALU64 OR BPF_ADD OR BPF_X, L_ALU True OP_ADD True),
   (BPF_ALU64 OR BPF_SUB OR BPF_X, L_ALU True OP_SUB True), (BPF_ALU64 OR BPF_AND OR BPF_X, L_ALU True OP_AND True),
   (BPF_ALU64 OR BPF_OR OR BPF_X, L_ALU True OP_OR True), (BPF_ALU64 OR BPF_LSH OR BPF_X, L_ALU True OP_LSH True),
   (BPF_ALU64 OR BPF_RSH OR BPF_X, L_ALU True OP_RSH True), (BPF_ALU64 OR BPF_XOR OR BPF_X, L_ALU True OP_XOR True),
   (BPF_ALU64 OR BPF_MUL OR BPF_X, L_ALU True OP_MUL True), (BPF_ALU64 OR BPF_MOV OR BPF_X, L_ALU True OP_MOV True),
   (BPF_ALU64 OR BPF_ARSH OR BPF_X, L_ALU True OP_ARSH True), (BPF_ALU64 OR BPF_DIV OR BPF_X, L_ALU True OP_DIV True),
   (BPF_ALU64 OR BPF_MOD OR BPF_X, L_ALU True OP_MOD True), (BPF_ALU64 OR BPF_NEG, L_NEG True),
   (BPF_ALU64 OR BPF_ADD OR BPF_K, L_ALU True OP_ADD False), (BPF_ALU64 OR BPF_SUB OR BPF_K, L_ALU True OP_SUB False),
   (BPF_ALU64 OR BPF_AND OR BPF_K, L_ALU True OP_AND False), (BPF_ALU64 OR BPF_OR OR BPF_K, L_ALU True OP_OR False),
   (BPF_ALU64 OR BPF_LSH OR BPF_K, L_ALU True OP_LSH False), (BPF_ALU64 OR BPF_RSH OR BPF_K, L_ALU True OP_RSH False),
   (BPF_ALU64 OR BPF_XOR OR BPF_K, L_ALU True OP_XOR False), (BPF_ALU64 OR BPF_MUL OR BPF_K, L_ALU True OP_MUL False),
   (BPF_ALU64 OR BPF_MOV OR BPF_K, L_ALU True OP_MOV False), (BPF_ALU64 OR BPF_ARSH OR BPF_K, L_ALU True OP_ARSH False),
   (BPF_ALU64 OR BPF_DIV OR BPF_K, L_ALU True OP_DIV False), (BPF_ALU64 OR BPF_MOD OR BPF_K, L_ALU True OP_MOD False),
   (BPF_JMP OR BPF_CALL, L_CALL), (BPF_JMP OR BPF_EXIT, L_EXIT),
   (BPF_JMP32 OR BPF_JEQ OR BPF_X, L_COND_JMP True C_JEQ True), (BPF_JMP32 OR BPF_JNE OR BPF_X, L_COND_JMP True C_JNE True),
   (BPF_JMP32 OR BPF_JGT OR BPF_X, L_COND_JMP True C_JGT True), (BPF_JMP32 OR BPF_JLT OR BPF_X, L_COND_JMP True C_JLT True),
   (BPF_JMP32 OR BPF_JGE OR BPF_X, L_COND_JMP True C_JGE True), (BPF_JMP32 OR BPF_JLE OR BPF_X, L_COND_JMP True C_JLE True),
   (BPF_JMP32 OR BPF_JSGT OR BPF_X, L_COND_JMP True C_JSGT True), (BPF_JMP32 OR BPF_JSLT OR BPF_X, L_COND_JMP True C_JSLT True),
   (BPF_JMP32 OR BPF_JSGE OR BPF_X, L_COND_JMP True C_JSGE True), (BPF_JMP32 OR BPF_JSLE OR BPF_X, L_COND_JMP True C_JSLE True),
   (BPF_JMP32 OR BPF_JSET OR BPF_X, L_COND_JMP True C_JSET True), (BPF_JMP32 OR BPF_JEQ OR BPF_K, L_COND_JMP True C_JEQ False),
   (BPF_JMP32 OR BPF_JNE OR BPF_K, L_COND_JMP True C_JNE False), (BPF_JMP32 OR BPF_JGT OR BPF_K, L_COND_JMP True C_JGT False),
   (BPF_JMP32 OR BPF_JLT OR BPF_K, L_COND_JMP True C_JLT False), (BPF_JMP32 OR BPF_JGE OR BPF_K, L_COND_JMP True C_JGE False),
   (BPF_JMP32 OR BPF_JLE OR BPF_K, L_COND_JMP True C_JLE False), (BPF_JMP32 OR BPF_JSGT OR BPF_K, L_COND_JMP True C_JSGT False),
   (BPF_JMP32 OR BPF_JSLT OR BPF_K, L_COND_JMP True C_JSLT False), (BPF_JMP32 OR BPF_JSGE OR BPF_K, L_COND_JMP True C_JSGE False),
   (BPF_JMP32 OR BPF_JSLE OR BPF_K, L_COND_JMP True C_JSLE False), (BPF_JMP32 OR BPF_JSET OR BPF_K, L_COND_JMP True C_JSET False),
   (BPF_JMP OR BPF_JEQ OR BPF_X, L_COND_JMP False C_JEQ True), (BPF_JMP OR BPF_JNE OR BPF_X, L_COND_JMP False C_JNE True),
   (BPF_JMP OR BPF_JGT OR BPF_X, L_COND_JMP False C_JGT True), (BPF_JMP OR BPF_JLT OR BPF_X, L_COND_JMP False C_JLT True),
   (BPF_JMP OR BPF_JGE OR BPF_X, L_COND_JMP False C_JGE True), (BPF_JMP OR BPF_JLE OR BPF_X, L_COND_JMP False C_JLE True),
   (BPF_JMP OR BPF_JSGT OR BPF_X, L_COND_JMP False C_JSGT True), (BPF_JMP OR BPF_JSLT OR BPF_X, L_COND_JMP False C_JSLT True),
   (BPF_JMP OR BPF_JSGE OR BPF_X, L_COND_JMP False C_JSGE True), (BPF_JMP OR BPF_JSLE OR BPF_X, L_COND_JMP False C_JSLE True),
   (BPF_JMP OR BPF_JSET OR BPF_X, L_COND_JMP False C_JSET True), (BPF_JMP OR BPF_JEQ OR BPF_K, L_COND_JMP False C_JEQ False),
   (BPF_JMP OR BPF_JNE OR BPF_K, L_COND_JMP False C_JNE False), (BPF_JMP OR BPF_JGT OR BPF_K, L_COND_JMP False C_JGT False),
   (BPF_JMP OR BPF_JLT OR BPF_K, L_COND_JMP False C_JLT False), (BPF_JMP OR BPF_JGE OR BPF_K, L_COND_JMP False C_JGE False),
   (BPF_JMP OR BPF_JLE OR BPF_K, L_COND_JMP False C_JLE False), (BPF_JMP OR BPF_JSGT OR BPF_K, L_COND_JMP False C_JSGT False),
   (BPF_JMP OR BPF_JSLT OR BPF_K, L_COND_JMP False C_JSLT False), (BPF_JMP OR BPF_JSGE OR BPF_K, L_COND_JMP False C_JSGE False),
   (BPF_JMP OR BPF_JSLE OR BPF_K, L_COND_JMP False C_JSLE False), (BPF_JMP OR BPF_JSET OR BPF_K, L_COND_JMP False C_JSET False),
   (BPF_JMP OR BPF_JA, L_JA), (BPF_STX OR BPF_MEM OR BPF_B, L_STX_MEM SZ_B),
   (BPF_STX OR BPF_MEM OR BPF_H, L_STX_MEM SZ_H), (BPF_STX OR BPF_MEM OR BPF_W, L_STX_MEM SZ_W),
   (BPF_STX OR BPF_MEM OR BPF_DW, L_STX_MEM SZ_DW), (BPF_STX OR BPF_XADD OR BPF_W, L_STX_XADD SZ_W),
   (BPF_STX OR BPF_XADD OR BPF_DW, L_STX_XADD SZ_DW), (BPF_ST OR BPF_MEM OR BPF_B, L_ST_MEM SZ_B),
   (BPF_ST OR BPF_MEM OR BPF_H, L_ST_MEM SZ_H), (BPF_ST OR BPF_MEM OR BPF_W, L_ST_MEM SZ_W),
   (BPF_ST OR BPF_MEM OR BPF_DW, L_ST_MEM SZ_DW), (BPF_LDX OR BPF_MEM OR BPF_B, L_LDX_MEM SZ_B),
   (BPF_LDX OR BPF_MEM OR BPF_H, L_LDX_MEM SZ_H), (BPF_LDX OR BPF_MEM OR BPF_W, L_LDX_MEM SZ_W),
   (BPF_LDX OR BPF_MEM OR BPF_DW, L_LDX_MEM SZ_DW), (BPF_LD OR BPF_IMM OR BPF_DW, L_LD_IMM_DW)]"

definition bpf_opcode_in_insntable :: "u8 \<Rightarrow> bool" where
  "bpf_opcode_in_insntable c \<longleftrightarrow>
    c \<in> set (map fst BPF_INSN_MAP @
      [BPF_LD OR BPF_ABS OR BPF_B, BPF_LD OR BPF_ABS OR BPF_H, BPF_LD OR BPF_ABS OR BPF_W,
       BPF_LD OR BPF_IND OR BPF_B, BPF_LD OR BPF_IND OR BPF_H, BPF_LD OR BPF_IND OR BPF_W])"

definition jumptable_entries :: "(u8 \<times> bpf_label) list" where
  "jumptable_entries = BPF_INSN_MAP @
     [(BPF_JMP OR BPF_CALL_ARGS, L_CALL_ARGS), (BPF_JMP OR BPF_TAIL_CALL, L_TAIL_CALL),
      (BPF_ST OR BPF_NOSPEC, L_ST_NOSPEC),
      (BPF_LDX OR BPF_PROBE_MEM OR BPF_B, L_LDX_PROBE_MEM SZ_B),
      (BPF_LDX OR BPF_PROBE_MEM OR BPF_H, L_LDX_PROBE_MEM SZ_H),
      (BPF_LDX OR BPF_PROBE_MEM OR BPF_W, L_LDX_PROBE_MEM SZ_W),
      (BPF_LDX OR BPF_PROBE_MEM OR BPF_DW, L_LDX_PROBE_MEM SZ_DW)]"

text \<open>Later entries of the initialiser overwrite earlier ones.\<close>

definition jumptable :: "u8 \<Rightarrow> bpf_label" where
  "jumptable c = (case map_of (rev jumptable_entries) c of Some l \<Rightarrow> l | None \<Rightarrow> L_default)"

section \<open>Byte order\<close>

definition swab16 :: "u16 \<Rightarrow> u16" where
  "swab16 x = push_bit 8 (x AND 0x00ff) OR drop_bit 8 (x AND 0xff00)"

definition swab32 :: "u32 \<Rightarrow> u32" where
  "swab32 x = push_bit 24 (x AND 0x000000ff) OR push_bit 8 (x AND 0x0000ff00) OR
              drop_bit 8 (x AND 0x00ff0000) OR drop_bit 24 (x AND 0xff000000)"

definition swab64 :: "u64 \<Rightarrow> u64" where
  "swab64 x = push_bit 56 (x AND 0x00000000000000ff) OR push_bit 40 (x AND 0x000000000000ff00) OR
              push_bit 24 (x AND 0x0000000000ff0000) OR push_bit 8 (x AND 0x00000000ff000000) OR
              drop_bit 8 (x AND 0x000000ff00000000) OR drop_bit 24 (x AND 0x0000ff0000000000) OR
              drop_bit 40 (x AND 0x00ff000000000000) OR drop_bit 56 (x AND 0xff00000000000000)"

section \<open>Fields of an opcode\<close>

text \<open>The verifier reads class, operation and source of an opcode; the jump table maps the opcode to a label.\<close>

definition alu_opcode :: "bpf_alu_op \<Rightarrow> u8" where
  "alu_opcode op = (case op of OP_ADD \<Rightarrow> BPF_ADD | OP_SUB \<Rightarrow> BPF_SUB | OP_AND \<Rightarrow> BPF_AND | OP_OR \<Rightarrow> BPF_OR
     | OP_LSH \<Rightarrow> BPF_LSH | OP_RSH \<Rightarrow> BPF_RSH | OP_XOR \<Rightarrow> BPF_XOR | OP_MUL \<Rightarrow> BPF_MUL | OP_MOV \<Rightarrow> BPF_MOV
     | OP_ARSH \<Rightarrow> BPF_ARSH | OP_DIV \<Rightarrow> BPF_DIV | OP_MOD \<Rightarrow> BPF_MOD)"

definition jmp_opcode :: "bpf_cond \<Rightarrow> u8" where
  "jmp_opcode c = (case c of C_JEQ \<Rightarrow> BPF_JEQ | C_JNE \<Rightarrow> BPF_JNE | C_JGT \<Rightarrow> BPF_JGT | C_JLT \<Rightarrow> BPF_JLT
     | C_JGE \<Rightarrow> BPF_JGE | C_JLE \<Rightarrow> BPF_JLE | C_JSGT \<Rightarrow> BPF_JSGT | C_JSLT \<Rightarrow> BPF_JSLT | C_JSGE \<Rightarrow> BPF_JSGE
     | C_JSLE \<Rightarrow> BPF_JSLE | C_JSET \<Rightarrow> BPF_JSET)"

definition size_code :: "bpf_mem_size \<Rightarrow> u8" where
  "size_code sz = (case sz of SZ_B \<Rightarrow> BPF_B | SZ_H \<Rightarrow> BPF_H | SZ_W \<Rightarrow> BPF_W | SZ_DW \<Rightarrow> BPF_DW)"

definition label_fields :: "u8 \<Rightarrow> bpf_label \<Rightarrow> bool" where
  "label_fields c l = (case l of
     L_ALU wide op x \<Rightarrow> BPF_CLASS c = (if wide then BPF_ALU64 else BPF_ALU) \<and> BPF_OP c = alu_opcode op \<and>
       BPF_SRC c = (if x then BPF_X else BPF_K)
   | L_NEG wide \<Rightarrow> BPF_CLASS c = (if wide then BPF_ALU64 else BPF_ALU) \<and> BPF_OP c = BPF_NEG
   | L_END be \<Rightarrow> BPF_CLASS c = BPF_ALU \<and> BPF_OP c = BPF_END \<and> BPF_SRC c = (if be then BPF_TO_BE else BPF_TO_LE)
   | L_COND_JMP half cnd x \<Rightarrow> BPF_CLASS c = (if half then BPF_JMP32 else BPF_JMP) \<and> BPF_OP c = jmp_opcode cnd \<and>
       BPF_SRC c = (if x then BPF_X else BPF_K)
   | L_STX_MEM sz \<Rightarrow> BPF_CLASS c = BPF_STX \<and> BPF_SIZE c = size_code sz \<and> BPF_MODE c = BPF_MEM
   | L_STX_XADD sz \<Rightarrow> BPF_CLASS c = BPF_STX \<and> BPF_SIZE c = size_code sz \<and> BPF_MODE c = BPF_XADD
   | L_ST_MEM sz \<Rightarrow> BPF_CLASS c = BPF_ST \<and> BPF_SIZE c = size_code sz \<and> BPF_MODE c = BPF_MEM
   | L_LDX_MEM sz \<Rightarrow> BPF_CLASS c = BPF_LDX \<and> BPF_SIZE c = size_code sz \<and> BPF_MODE c = BPF_MEM
   | L_LDX_PROBE_MEM sz \<Rightarrow> BPF_CLASS c = BPF_LDX \<and> BPF_SIZE c = size_code sz \<and> BPF_MODE c = BPF_PROBE_MEM
   | L_LD_IMM_DW \<Rightarrow> BPF_CLASS c = BPF_LD \<and> BPF_MODE c = BPF_IMM \<and> BPF_SIZE c = BPF_DW
   | L_JA \<Rightarrow> BPF_CLASS c = BPF_JMP \<and> BPF_OP c = BPF_JA
   | L_CALL \<Rightarrow> BPF_CLASS c = BPF_JMP \<and> BPF_OP c = BPF_CALL
   | L_EXIT \<Rightarrow> BPF_CLASS c = BPF_JMP \<and> BPF_OP c = BPF_EXIT
   | _ \<Rightarrow> True)"

lemma jumptable_entries_fields: "list_all (\<lambda>(c, l). label_fields c l \<and> l \<noteq> L_default) jumptable_entries"
  by (simp add: jumptable_entries_def BPF_INSN_MAP_def label_fields_def BPF_CLASS_def BPF_OP_def BPF_SRC_def
      BPF_SIZE_def BPF_MODE_def alu_opcode_def jmp_opcode_def size_code_def)

lemma jumptable_entries_distinct: "distinct (map fst jumptable_entries)"
proof -
  have "distinct (map unat (map fst jumptable_entries))"
    by (simp add: jumptable_entries_def BPF_INSN_MAP_def)
  then show ?thesis by (simp only: distinct_map)
qed

lemma jumptable_in: "jumptable c \<noteq> L_default \<Longrightarrow> (c, jumptable c) \<in> set jumptable_entries"
  unfolding jumptable_def by (auto split: option.splits dest!: map_of_SomeD)

lemma jumptable_fields: "label_fields c (jumptable c)"
proof (cases "jumptable c = L_default")
  case True
  then show ?thesis by (simp add: label_fields_def)
next
  case False
  from jumptable_in [OF this] show ?thesis
    using jumptable_entries_fields by (auto simp: list_all_iff)
qed

lemma jumptable_alu:
  assumes "jumptable c = L_ALU wide op x"
  shows "BPF_CLASS c = (if wide then BPF_ALU64 else BPF_ALU)" and "BPF_OP c = alu_opcode op"
    and "BPF_SRC c = (if x then BPF_X else BPF_K)"
  using jumptable_fields [of c] by (simp_all add: assms label_fields_def)

lemma jumptable_cond:
  assumes "jumptable c = L_COND_JMP half cnd x"
  shows "BPF_CLASS c = (if half then BPF_JMP32 else BPF_JMP)" and "BPF_OP c = jmp_opcode cnd"
    and "BPF_SRC c = (if x then BPF_X else BPF_K)"
  using jumptable_fields [of c] by (simp_all add: assms label_fields_def)

lemma jumptable_entry: "(c, l) \<in> set jumptable_entries \<Longrightarrow> jumptable c = l"
  unfolding jumptable_def
  using map_of_eq_Some_iff [of "rev jumptable_entries" c l] jumptable_entries_distinct
  by (simp add: rev_map [symmetric])

section \<open>Properties\<close>

text \<open>
  The opcode tables agree: an opcode the loader accepts is one the interpreter jumps on, apart
  from the legacy packet loads, which are rewritten before a program runs; and the label of an opcode
  has the class, operation, source, size and mode the opcode's fields name.
\<close>

theorem insntable_has_label:
  "(bpf_opcode_in_insntable c \<longrightarrow> jumptable c \<noteq> L_default \<or> BPF_CLASS c = BPF_LD \<and> (BPF_MODE c = BPF_ABS \<or> BPF_MODE c = BPF_IND)) \<and>
   label_fields c (jumptable c)"
proof -
  have "jumptable c \<noteq> L_default" if "c \<in> set (map fst BPF_INSN_MAP)"
  proof -
    from that obtain l where "(c, l) \<in> set BPF_INSN_MAP" by auto
    then have "(c, l) \<in> set jumptable_entries" by (simp only: jumptable_entries_def set_append Un_iff simp_thms)
    moreover from this have "l \<noteq> L_default" using jumptable_entries_fields by (auto simp: list_all_iff)
    ultimately show ?thesis using jumptable_entry by blast
  qed
  moreover have "BPF_CLASS c = BPF_LD \<and> (BPF_MODE c = BPF_ABS \<or> BPF_MODE c = BPF_IND)"
    if "bpf_opcode_in_insntable c" "c \<notin> set (map fst BPF_INSN_MAP)"
    using that by (auto simp: bpf_opcode_in_insntable_def BPF_CLASS_def BPF_MODE_def)
  ultimately show ?thesis using jumptable_fields by blast
qed

theorem insntable_has_label_witness: "jumptable 0x07 \<noteq> L_default \<and> label_fields 0x07 (jumptable 0x07)"
proof -
  have "bpf_opcode_in_insntable 0x07" "BPF_CLASS 0x07 \<noteq> BPF_LD" by code_simp+
  then show ?thesis using insntable_has_label [of "0x07"] by blast
qed

end
