(* ===== verification/Bpf_Interp.thy ===== *)
theory Bpf_Interp
  imports Bpf_Insn
begin

text \<open>
  The interpreter \<^verbatim>\<open>___bpf_prog_run\<close> of \<^verbatim>\<open>kernel/bpf/core.c\<close>, one step per
  instruction. An outcome \<open>Stuck\<close> stands for what the C code leaves undefined (a shift count
  beyond the width, a division by zero, an instruction pointer outside the program) and for
  \<^verbatim>\<open>default_label\<close>, which stops the machine.

  What the interpreter calls outside \<^verbatim>\<open>core.c\<close> is in the record \<open>interp_env\<close>: helper
  functions, BPF-to-BPF calls, program arrays and \<^verbatim>\<open>bpf_probe_read_kernel\<close>, together with the
  byte order of the machine.
\<close>

section \<open>State\<close>

type_synonym memory = "u64 \<Rightarrow> u8"

abbreviation BPF_REG_AX :: nat where "BPF_REG_AX \<equiv> 11"
abbreviation MAX_TAIL_CALL_CNT :: u32 where "MAX_TAIL_CALL_CNT \<equiv> 32"

record interp_state =
  m_regs :: "u64 list"
  m_mem :: memory
  m_prog :: "bpf_insn list"
  m_pc :: int
  m_tail_call_cnt :: u32

record interp_env =
  little_endian :: bool
  helper_call :: "s32 \<Rightarrow> u64 list \<Rightarrow> memory \<Rightarrow> u64 \<times> memory"
  subprog_call :: "s32 \<Rightarrow> u64 list \<Rightarrow> bpf_insn list \<Rightarrow> int \<Rightarrow> memory \<Rightarrow> u64 \<times> memory"
  prog_array_max_entries :: "u64 \<Rightarrow> u32"
  prog_array_ptrs :: "u64 \<Rightarrow> u32 \<Rightarrow> bpf_insn list option"
  probe_read_kernel :: "nat \<Rightarrow> u64 \<Rightarrow> memory \<Rightarrow> u64 \<Rightarrow> u64"

datatype outcome = Running interp_state | Returned u64 | Stuck

section \<open>Arithmetic\<close>

definition div64_u64 :: "u64 \<Rightarrow> u64 \<Rightarrow> u64 option" where
  "div64_u64 dividend divisor = (if divisor = 0 then None else Some (dividend div divisor))"

definition div64_u64_rem :: "u64 \<Rightarrow> u64 \<Rightarrow> (u64 \<times> u64) option" where
  "div64_u64_rem dividend divisor =
    (if divisor = 0 then None else Some (dividend div divisor, dividend mod divisor))"

text \<open>\<^verbatim>\<open>do_div(n, base)\<close>: the new value of \<^verbatim>\<open>n\<close> and the remainder it returns.\<close>

definition do_div :: "u64 \<Rightarrow> u32 \<Rightarrow> (u64 \<times> u32) option" where
  "do_div n base = (if base = 0 then None else Some (n div ucast base, ucast (n mod ucast base)))"

text \<open>A C shift of a \<open>w\<close>-bit operand is only defined for counts below \<open>w\<close>.\<close>

definition shift_ok :: "nat \<Rightarrow> 'a::len word \<Rightarrow> nat option" where
  "shift_ok w n = (if unat n < w then Some (unat n) else None)"

text \<open>
  The 64-bit operations on \<^verbatim>\<open>DST\<close> and the operand, which is \<^verbatim>\<open>SRC\<close> or the sign-extended
  \<^verbatim>\<open>IMM\<close>; the second component is the new value of \<^verbatim>\<open>AX\<close> where the code sets it.
\<close>

definition interp_alu64 :: "bpf_alu_op \<Rightarrow> bool \<Rightarrow> u64 \<Rightarrow> u64 \<Rightarrow> (u64 \<times> u64 option) option" where
  "interp_alu64 op x dst v = (case op of
     OP_ADD \<Rightarrow> Some (dst + v, None)
   | OP_SUB \<Rightarrow> Some (dst - v, None)
   | OP_AND \<Rightarrow> Some (dst AND v, None)
   | OP_OR \<Rightarrow> Some (dst OR v, None)
   | OP_XOR \<Rightarrow> Some (dst XOR v, None)
   | OP_MUL \<Rightarrow> Some (dst * v, None)
   | OP_LSH \<Rightarrow> map_option (\<lambda>n. (push_bit n dst, None)) (shift_ok 64 (if x then v AND 63 else v))
   | OP_RSH \<Rightarrow> map_option (\<lambda>n. (drop_bit n dst, None)) (shift_ok 64 (if x then v AND 63 else v))
   | OP_ARSH \<Rightarrow> map_option (\<lambda>n. (signed_drop_bit n dst, None)) (shift_ok 64 (if x then v AND 63 else v))
   | OP_MOV \<Rightarrow> Some (v, None)
   | OP_MOD \<Rightarrow> map_option (\<lambda>(q, r). (r, Some r)) (div64_u64_rem dst v)
   | OP_DIV \<Rightarrow> map_option (\<lambda>q. (q, None)) (div64_u64 dst v))"

text \<open>The 32-bit operations work on the lower halves and zero the upper half of the result.\<close>

definition interp_alu32 :: "bpf_alu_op \<Rightarrow> bool \<Rightarrow> u64 \<Rightarrow> u32 \<Rightarrow> (u64 \<times> u64 option) option" where
  "interp_alu32 op x dst v = (let d = (ucast dst :: u32) in case op of
     OP_ADD \<Rightarrow> Some (ucast (d + v), None)
   | OP_SUB \<Rightarrow> Some (ucast (d - v), None)
   | OP_AND \<Rightarrow> Some (ucast (d AND v), None)
   | OP_OR \<Rightarrow> Some (ucast (d OR v), None)
   | OP_XOR \<Rightarrow> Some (ucast (d XOR v), None)
   | OP_MUL \<Rightarrow> Some (ucast (d * v), None)
   | OP_LSH \<Rightarrow> map_option (\<lambda>n. (ucast (push_bit n d), None)) (shift_ok 32 (if x then v AND 31 else v))
   | OP_RSH \<Rightarrow> map_option (\<lambda>n. (ucast (drop_bit n d), None)) (shift_ok 32 (if x then v AND 31 else v))
   | OP_ARSH \<Rightarrow> map_option (\<lambda>n. (ucast (signed_drop_bit n d), None)) (shift_ok 32 (if x then v AND 31 else v))
   | OP_MOV \<Rightarrow> Some (ucast v, None)
   | OP_MOD \<Rightarrow> map_option (\<lambda>(q, r). (ucast r, Some q)) (do_div (ucast d) v)
   | OP_DIV \<Rightarrow> map_option (\<lambda>(q, r). (ucast (ucast q :: u32), Some q)) (do_div (ucast d) v))"

definition interp_alu :: "bool \<Rightarrow> bpf_alu_op \<Rightarrow> bool \<Rightarrow> u64 \<Rightarrow> u64 \<Rightarrow> (u64 \<times> u64 option) option" where
  "interp_alu wide op x dst v = (if wide then interp_alu64 op x dst v else interp_alu32 op x dst (ucast v))"

definition alu_neg :: "bool \<Rightarrow> u64 \<Rightarrow> u64" where
  "alu_neg wide dst = (if wide then - dst else ucast (ucast (- dst) :: u32))"

definition alu_end :: "bool \<Rightarrow> bool \<Rightarrow> s32 \<Rightarrow> u64 \<Rightarrow> u64" where
  "alu_end le be im dst = (let swap = (le = be) in
     if im = 16 then ucast (if swap then swab16 (ucast dst) else (ucast dst :: u16))
     else if im = 32 then ucast (if swap then swab32 (ucast dst) else (ucast dst :: u32))
     else if im = 64 then (if swap then swab64 dst else dst)
     else dst)"

section \<open>Conditions\<close>

definition cond64 :: "bpf_cond \<Rightarrow> u64 \<Rightarrow> u64 \<Rightarrow> bool" where
  "cond64 c a b = (case c of C_JEQ \<Rightarrow> a = b | C_JNE \<Rightarrow> a \<noteq> b | C_JGT \<Rightarrow> b < a | C_JLT \<Rightarrow> a < b
     | C_JGE \<Rightarrow> b \<le> a | C_JLE \<Rightarrow> a \<le> b | C_JSET \<Rightarrow> a AND b \<noteq> 0 | C_JSGT \<Rightarrow> b <s a | C_JSLT \<Rightarrow> a <s b
     | C_JSGE \<Rightarrow> b \<le>s a | C_JSLE \<Rightarrow> a \<le>s b)"

definition cond32 :: "bpf_cond \<Rightarrow> u32 \<Rightarrow> u32 \<Rightarrow> bool" where
  "cond32 c a b = (case c of C_JEQ \<Rightarrow> a = b | C_JNE \<Rightarrow> a \<noteq> b | C_JGT \<Rightarrow> b < a | C_JLT \<Rightarrow> a < b
     | C_JGE \<Rightarrow> b \<le> a | C_JLE \<Rightarrow> a \<le> b | C_JSET \<Rightarrow> a AND b \<noteq> 0 | C_JSGT \<Rightarrow> b <s a | C_JSLT \<Rightarrow> a <s b
     | C_JSGE \<Rightarrow> b \<le>s a | C_JSLE \<Rightarrow> a \<le>s b)"

definition interp_cond :: "bool \<Rightarrow> bpf_cond \<Rightarrow> u64 \<Rightarrow> u64 \<Rightarrow> bool" where
  "interp_cond half c a b = (if half then cond32 c (ucast a) (ucast b) else cond64 c a b)"

section \<open>Memory\<close>

definition size_bytes :: "bpf_mem_size \<Rightarrow> nat" where
  "size_bytes sz = (case sz of SZ_B \<Rightarrow> 1 | SZ_H \<Rightarrow> 2 | SZ_W \<Rightarrow> 4 | SZ_DW \<Rightarrow> 8)"

text \<open>Byte \<open>i\<close> of an \<open>n\<close>-byte object in memory holds the bits from \<open>8 * byte_pos le n i\<close> on.\<close>

definition byte_pos :: "bool \<Rightarrow> nat \<Rightarrow> nat \<Rightarrow> nat" where
  "byte_pos le n i = (if le then i else n - 1 - i)"

fun load_bytes :: "bool \<Rightarrow> nat \<Rightarrow> memory \<Rightarrow> u64 \<Rightarrow> nat \<Rightarrow> u64" where
  "load_bytes le n m a 0 = 0"
| "load_bytes le n m a (Suc i) =
     load_bytes le n m a i OR push_bit (8 * byte_pos le n i) (ucast (m (a + of_nat i)))"

definition mem_load :: "bool \<Rightarrow> bpf_mem_size \<Rightarrow> memory \<Rightarrow> u64 \<Rightarrow> u64" where
  "mem_load le sz m a = load_bytes le (size_bytes sz) m a (size_bytes sz)"

definition mem_store :: "bool \<Rightarrow> bpf_mem_size \<Rightarrow> memory \<Rightarrow> u64 \<Rightarrow> u64 \<Rightarrow> memory" where
  "mem_store le sz m a v = (\<lambda>b. let i = unat (b - a); n = size_bytes sz
     in if i < n then ucast (drop_bit (8 * byte_pos le n i) v) else m b)"

section \<open>Steps\<close>

definition insn_operand :: "bool \<Rightarrow> bpf_insn \<Rightarrow> interp_state \<Rightarrow> u64" where
  "insn_operand x insn st = (if x then m_regs st ! insn_src insn else scast (insn_imm insn))"

definition advance :: "interp_state \<Rightarrow> interp_state" where
  "advance st = st\<lparr>m_pc := m_pc st + 1\<rparr>"

definition set_reg :: "nat \<Rightarrow> u64 \<Rightarrow> interp_state \<Rightarrow> interp_state" where
  "set_reg r v st = st\<lparr>m_regs := (m_regs st)[r := v]\<rparr>"

definition set_ax :: "u64 option \<Rightarrow> interp_state \<Rightarrow> interp_state" where
  "set_ax ax st = (case ax of None \<Rightarrow> st | Some v \<Rightarrow> set_reg BPF_REG_AX v st)"

definition do_alu :: "bool \<Rightarrow> bpf_alu_op \<Rightarrow> bool \<Rightarrow> bpf_insn \<Rightarrow> interp_state \<Rightarrow> outcome" where
  "do_alu wide op x insn st =
    (let dst = m_regs st ! insn_dst insn; v = insn_operand x insn st
     in case interp_alu wide op x dst v of
          None \<Rightarrow> Stuck
        | Some (z, ax) \<Rightarrow> Running (advance (set_reg (insn_dst insn) z (set_ax ax st))))"

definition do_cond_jmp :: "bool \<Rightarrow> bpf_cond \<Rightarrow> bool \<Rightarrow> bpf_insn \<Rightarrow> interp_state \<Rightarrow> outcome" where
  "do_cond_jmp half c x insn st =
    (let dst = m_regs st ! insn_dst insn; v = insn_operand x insn st
     in Running (advance (if interp_cond half c dst v then st\<lparr>m_pc := m_pc st + sint (insn_off insn)\<rparr> else st)))"

definition mem_addr :: "nat \<Rightarrow> bpf_insn \<Rightarrow> interp_state \<Rightarrow> u64" where
  "mem_addr r insn st = m_regs st ! r + scast (insn_off insn)"

definition do_xadd :: "bool \<Rightarrow> bpf_mem_size \<Rightarrow> memory \<Rightarrow> u64 \<Rightarrow> u64 \<Rightarrow> memory" where
  "do_xadd le sz m a v = mem_store le sz m a (mem_load le sz m a + v)"

definition do_tail_call :: "interp_env \<Rightarrow> interp_state \<Rightarrow> outcome" where
  "do_tail_call env st =
    (let array = m_regs st ! 2; index = (ucast (m_regs st ! 3) :: u32)
     in if prog_array_max_entries env array \<le> index then Running (advance st)
        else if m_tail_call_cnt st > MAX_TAIL_CALL_CNT then Running (advance st)
        else let st1 = st\<lparr>m_tail_call_cnt := m_tail_call_cnt st + 1\<rparr>
             in case prog_array_ptrs env array index of
                  None \<Rightarrow> Running (advance st1)
                | Some p \<Rightarrow> Running (st1\<lparr>m_prog := p, m_pc := 0\<rparr>))"

definition fetch :: "bpf_insn list \<Rightarrow> int \<Rightarrow> bpf_insn option" where
  "fetch p i = (if 0 \<le> i \<and> nat i < length p then Some (p ! nat i) else None)"

definition do_ld_imm_dw :: "bpf_insn \<Rightarrow> interp_state \<Rightarrow> outcome" where
  "do_ld_imm_dw insn st = (case fetch (m_prog st) (m_pc st + 1) of
     None \<Rightarrow> Stuck
   | Some next \<Rightarrow> Running (advance (advance (set_reg (insn_dst insn)
       (ucast (insn_imm insn) OR push_bit 32 (ucast (insn_imm next))) st))))"

text \<open>The first five arguments of a call are in the registers 1 to 5.\<close>

definition call_args :: "interp_state \<Rightarrow> u64 list" where
  "call_args st = take 5 (drop 1 (m_regs st))"

definition exec_label :: "interp_env \<Rightarrow> bpf_label \<Rightarrow> bpf_insn \<Rightarrow> interp_state \<Rightarrow> outcome" where
  "exec_label env l insn st = (let le = little_endian env in case l of
     L_ALU wide op x \<Rightarrow> do_alu wide op x insn st
   | L_NEG wide \<Rightarrow> Running (advance (set_reg (insn_dst insn) (alu_neg wide (m_regs st ! insn_dst insn)) st))
   | L_END be \<Rightarrow> Running (advance (set_reg (insn_dst insn) (alu_end le be (insn_imm insn) (m_regs st ! insn_dst insn)) st))
   | L_CALL \<Rightarrow> (case helper_call env (insn_imm insn) (call_args st) (m_mem st) of
       (r0, m) \<Rightarrow> Running (advance (set_reg 0 r0 (st\<lparr>m_mem := m\<rparr>))))
   | L_CALL_ARGS \<Rightarrow> (case subprog_call env (insn_imm insn) (call_args st) (m_prog st) (m_pc st + sint (insn_off insn) + 1) (m_mem st) of
       (r0, m) \<Rightarrow> Running (advance (set_reg 0 r0 (st\<lparr>m_mem := m\<rparr>))))
   | L_TAIL_CALL \<Rightarrow> do_tail_call env st
   | L_EXIT \<Rightarrow> Returned (m_regs st ! 0)
   | L_COND_JMP half c x \<Rightarrow> do_cond_jmp half c x insn st
   | L_JA \<Rightarrow> Running (advance (st\<lparr>m_pc := m_pc st + sint (insn_off insn)\<rparr>))
   | L_STX_MEM sz \<Rightarrow> Running (advance (st\<lparr>m_mem := mem_store le sz (m_mem st) (mem_addr (insn_dst insn) insn st) (m_regs st ! insn_src insn)\<rparr>))
   | L_ST_MEM sz \<Rightarrow> Running (advance (st\<lparr>m_mem := mem_store le sz (m_mem st) (mem_addr (insn_dst insn) insn st) (scast (insn_imm insn))\<rparr>))
   | L_LDX_MEM sz \<Rightarrow> Running (advance (set_reg (insn_dst insn) (mem_load le sz (m_mem st) (mem_addr (insn_src insn) insn st)) st))
   | L_STX_XADD sz \<Rightarrow> Running (advance (st\<lparr>m_mem := do_xadd le sz (m_mem st) (mem_addr (insn_dst insn) insn st) (m_regs st ! insn_src insn)\<rparr>))
   | L_LDX_PROBE_MEM sz \<Rightarrow> Running (advance (set_reg (insn_dst insn)
       (probe_read_kernel env (size_bytes sz) (m_regs st ! insn_dst insn) (m_mem st) (mem_addr (insn_src insn) insn st)) st))
   | L_LD_IMM_DW \<Rightarrow> do_ld_imm_dw insn st
   | L_ST_NOSPEC \<Rightarrow> Running (advance st)
   | L_default \<Rightarrow> Stuck)"

definition bpf_step :: "interp_env \<Rightarrow> interp_state \<Rightarrow> outcome" where
  "bpf_step env st = (case fetch (m_prog st) (m_pc st) of
     None \<Rightarrow> Stuck
   | Some insn \<Rightarrow> exec_label env (jumptable (insn_code insn)) insn st)"

text \<open>A program may loop, so the run takes the number of instructions it may execute.\<close>

fun bpf_prog_run :: "interp_env \<Rightarrow> nat \<Rightarrow> interp_state \<Rightarrow> outcome" where
  "bpf_prog_run env 0 st = Running st"
| "bpf_prog_run env (Suc n) st = (case bpf_step env st of Running st' \<Rightarrow> bpf_prog_run env n st' | out \<Rightarrow> out)"

section \<open>Memory accesses\<close>

lemma bit_load_bytes:
  assumes "i \<le> n" and "n \<le> 8"
  shows "bit (load_bytes le n m a i) k \<longleftrightarrow>
    (\<exists>j<i. 8 * byte_pos le n j \<le> k \<and> bit (m (a + of_nat j)) (k - 8 * byte_pos le n j))"
  using assms(1)
proof (induction i)
  case (Suc i)
  have "byte_pos le n i < n" using Suc.prems by (auto simp: byte_pos_def)
  then have "k < 64" if "8 * byte_pos le n i \<le> k" "bit (m (a + of_nat i)) (k - 8 * byte_pos le n i)"
    using bit_imp_le_length [OF that(2)] that(1) assms(2) by simp
  then have "bit (push_bit (8 * byte_pos le n i) (ucast (m (a + of_nat i))) :: u64) k \<longleftrightarrow>
      8 * byte_pos le n i \<le> k \<and> bit (m (a + of_nat i)) (k - 8 * byte_pos le n i)"
    by (auto simp: bit_simps)
  with Suc show ?case by (simp only: load_bytes.simps bit_or_iff) (auto simp: less_Suc_eq)
qed simp

lemma byte_pos_surj: "k < n \<Longrightarrow> \<exists>j<n. byte_pos le n j = k"
  by (intro exI [of _ "byte_pos le n k"]) (auto simp: byte_pos_def)

lemma size_bytes_le: "size_bytes sz \<le> 8" "0 < size_bytes sz"
  by (cases sz; simp add: size_bytes_def)+

lemma mem_store_at:
  assumes "j < size_bytes sz"
  shows "mem_store le sz m a v (a + of_nat j) = ucast (drop_bit (8 * byte_pos le (size_bytes sz) j) v)"
proof -
  have "unat (of_nat j :: u64) = j"
    using assms size_bytes_le(1) [of sz] by (simp add: unat_of_nat)
  then show ?thesis using assms by (simp add: mem_store_def Let_def)
qed

lemma mem_load_store: "mem_load le sz (mem_store le sz m a v) a = v AND mask (8 * size_bytes sz)"
proof (rule bit_word_eqI)
  fix k assume "k < LENGTH(64)"
  let ?n = "size_bytes sz"
  have "bit (mem_load le sz (mem_store le sz m a v) a) k \<longleftrightarrow>
      (\<exists>j<?n. 8 * byte_pos le ?n j \<le> k \<and> k - 8 * byte_pos le ?n j < 8 \<and> bit v k)"
    unfolding mem_load_def bit_load_bytes [OF order_refl size_bytes_le(1)]
    by (intro ex_cong1) (auto simp: mem_store_at bit_simps)
  also have "\<dots> \<longleftrightarrow> k < 8 * ?n \<and> bit v k"
  proof
    assume "k < 8 * ?n \<and> bit v k"
    moreover from this have "k div 8 < ?n" by (simp add: div_less_iff_less_mult mult.commute)
    ultimately obtain j where "j < ?n" "byte_pos le ?n j = k div 8" using byte_pos_surj [of "k div 8" ?n le] by auto
    then show "\<exists>j<?n. 8 * byte_pos le ?n j \<le> k \<and> k - 8 * byte_pos le ?n j < 8 \<and> bit v k"
      using \<open>k < 8 * ?n \<and> bit v k\<close> by (intro exI [of _ j]) auto
  next
    assume "\<exists>j<?n. 8 * byte_pos le ?n j \<le> k \<and> k - 8 * byte_pos le ?n j < 8 \<and> bit v k"
    then obtain j where j: "j < ?n" "8 * byte_pos le ?n j \<le> k" "k - 8 * byte_pos le ?n j < 8" "bit v k" by blast
    then have "byte_pos le ?n j < ?n" by (auto simp: byte_pos_def)
    with j show "k < 8 * ?n \<and> bit v k" by auto
  qed
  finally show "bit (mem_load le sz (mem_store le sz m a v) a) k = bit (v AND mask (8 * ?n)) k"
    using \<open>k < LENGTH(64)\<close> by (auto simp: bit_simps)
qed

lemma mem_store_other: "size_bytes sz \<le> unat (b - a) \<Longrightarrow> mem_store le sz m a v b = m b"
  by (simp add: mem_store_def Let_def)

section \<open>Byte swaps\<close>

lemma swab_masks:
  "(0xff :: 'a::len word) = mask 8" "(0xff00 :: 'a word) = push_bit 8 (mask 8)"
  "(0xff0000 :: 'a word) = push_bit 16 (mask 8)" "(0xff000000 :: 'a word) = push_bit 24 (mask 8)"
  "(0xff00000000 :: 'a word) = push_bit 32 (mask 8)" "(0xff0000000000 :: 'a word) = push_bit 40 (mask 8)"
  "(0xff000000000000 :: 'a word) = push_bit 48 (mask 8)" "(0xff00000000000000 :: 'a word) = push_bit 56 (mask 8)"
  by (simp_all add: mask_eq_exp_minus_1 push_bit_eq_mult)

lemma byte_index: "\<exists>q r. (n::nat) = 8 * q + r \<and> r < 8"
  by (intro exI [of _ "n div 8"] exI [of _ "n mod 8"]) simp

lemmas swab_bits = bit_or_iff bit_and_iff bit_push_bit_iff bit_drop_bit_eq bit_mask_iff comp_apply

lemma bit_swab16: "n < 16 \<Longrightarrow> bit (swab16 x) n = bit x (8 * (1 - n div 8) + n mod 8)"
proof -
  assume "n < 16"
  obtain q r where n: "n = 8 * q + r" "r < 8" using byte_index by blast
  with \<open>n < 16\<close> have "q = 0 \<or> q = 1" by auto
  moreover have "n div 8 = q" "n mod 8 = r" using n by simp_all
  ultimately show ?thesis unfolding swab16_def swab_masks using n
    by (auto simp only: swab_bits) (auto simp: possible_bit_def)
qed

lemma bit_swab32: "n < 32 \<Longrightarrow> bit (swab32 x) n = bit x (8 * (3 - n div 8) + n mod 8)"
proof -
  assume "n < 32"
  obtain q r where n: "n = 8 * q + r" "r < 8" using byte_index by blast
  with \<open>n < 32\<close> have "q = 0 \<or> q = 1 \<or> q = 2 \<or> q = 3" by auto
  moreover have "n div 8 = q" "n mod 8 = r" using n by simp_all
  ultimately show ?thesis unfolding swab32_def swab_masks using n
    by (elim disjE) (simp_all only: swab_bits, simp_all add: possible_bit_def)
qed

lemma bit_swab64: "n < 64 \<Longrightarrow> bit (swab64 x) n = bit x (8 * (7 - n div 8) + n mod 8)"
proof -
  assume "n < 64"
  obtain q r where n: "n = 8 * q + r" "r < 8" using byte_index by blast
  with \<open>n < 64\<close> have "q = 0 \<or> q = 1 \<or> q = 2 \<or> q = 3 \<or> q = 4 \<or> q = 5 \<or> q = 6 \<or> q = 7" by auto
  moreover have "n div 8 = q" "n mod 8 = r" using n by simp_all
  ultimately show ?thesis unfolding swab64_def swab_masks using n
    by (elim disjE) (simp_all only: swab_bits, simp_all add: possible_bit_def)
qed

lemma byte_mirror:
  assumes "n < 8 * Suc k"
  shows "8 * (k - n div 8) + n mod 8 < 8 * Suc k"
    and "8 * (k - (8 * (k - n div 8) + n mod 8) div 8) + (8 * (k - n div 8) + n mod 8) mod 8 = n"
proof -
  have "n div 8 \<le> k" using assms by (simp add: div_less_iff_less_mult less_Suc_eq_le [symmetric] mult.commute)
  moreover have "n mod 8 < 8" by simp
  ultimately show "8 * (k - n div 8) + n mod 8 < 8 * Suc k" by (simp add: algebra_simps)
  show "8 * (k - (8 * (k - n div 8) + n mod 8) div 8) + (8 * (k - n div 8) + n mod 8) mod 8 = n"
    using \<open>n div 8 \<le> k\<close> by simp
qed

lemma swab_involution: "swab16 (swab16 x) = x" "swab32 (swab32 y) = y" "swab64 (swab64 z) = z"
proof -
  show "swab16 (swab16 x) = x"
    using byte_mirror [of _ 1] by (intro bit_word_eqI) (simp add: bit_swab16)
  show "swab32 (swab32 y) = y"
    using byte_mirror [of _ 3] by (intro bit_word_eqI) (simp add: bit_swab32)
  show "swab64 (swab64 z) = z"
    using byte_mirror [of _ 7] by (intro bit_word_eqI) (simp add: bit_swab64)
qed

section \<open>Properties\<close>

text \<open>
  A load after a store of the same size at the same address returns the stored value cut to that
  size, in both byte orders, and the store leaves every byte outside it alone.
\<close>

theorem store_load:
  "mem_load le sz (mem_store le sz m a v) a = v AND mask (8 * size_bytes sz) \<and>
   (\<forall>b. size_bytes sz \<le> unat (b - a) \<longrightarrow> mem_store le sz m a v b = m b)"
  using mem_load_store mem_store_other by blast

theorem store_load_witness:
  "mem_load False SZ_H (mem_store False SZ_H (\<lambda>_. 7) 100 0x12345) 100 = 0x2345 \<and> mem_store False SZ_H (\<lambda>_. 7) 100 0x12345 102 = 7"
  using store_load [of False SZ_H "\<lambda>_. 7" 100 "0x12345"] by (simp add: size_bytes_def mask_eq_exp_minus_1)

text \<open>
  Swapping the bytes twice gives the value back, so a byte-order conversion to the other order
  followed by the same conversion only cuts the value to the size of the conversion.
\<close>

theorem end_twice:
  assumes "im = 16 \<or> im = 32 \<or> im = 64"
  shows "alu_end le be im (alu_end le be im v) = v AND mask (unat im)"
proof -
  have d: "ucast (ucast (x :: u16) :: u64) = x" "ucast (ucast (y :: u32) :: u64) = y" for x y
    by (rule bit_word_eqI; simp add: bit_simps)+
  have m: "ucast (ucast w :: u16) = w AND mask 16" "ucast (ucast w :: u32) = w AND mask 32" "w AND mask 64 = w" for w :: u64
    by (rule bit_word_eqI; simp add: bit_simps; blast)+
  show ?thesis using assms by (auto simp: alu_end_def Let_def d swab_involution m and.assoc)
qed

theorem end_twice_witness: "alu_end True True 32 (alu_end True True 32 0x1122334455667788) = 0x55667788"
  using end_twice [of 32 True True "0x1122334455667788"] by (simp add: mask_eq_exp_minus_1)

end
