(* ===== verification/Bpf_Alu.thy ===== *)
theory Bpf_Alu
  imports Bpf_Scalar Bpf_Interp
begin

text \<open>
  How the verifier follows an arithmetic instruction on scalars:
  \<^verbatim>\<open>adjust_scalar_min_max_vals\<close> of \<^verbatim>\<open>kernel/bpf/verifier.c\<close> with the speculation
  bookkeeping it does first. The lemmas compare it with the interpreter: the state of the destination
  register after the call allows the value the interpreter computes.
\<close>

section \<open>Speculation bookkeeping\<close>

abbreviation BPF_ALU_SANITIZE_SRC :: u32 where "BPF_ALU_SANITIZE_SRC \<equiv> 1"
abbreviation BPF_ALU_SANITIZE_DST :: u32 where "BPF_ALU_SANITIZE_DST \<equiv> 2"
abbreviation BPF_ALU_NEG_VALUE :: u32 where "BPF_ALU_NEG_VALUE \<equiv> 4"
abbreviation BPF_ALU_NON_POINTER :: u32 where "BPF_ALU_NON_POINTER \<equiv> 8"
abbreviation BPF_ALU_IMMEDIATE :: u32 where "BPF_ALU_IMMEDIATE \<equiv> 16"

datatype alu_reason = REASON_BOUNDS | REASON_TYPE | REASON_PATHS | REASON_LIMIT | REASON_STACK

definition cur_aux :: "bpf_verifier_env \<Rightarrow> bpf_insn_aux_data" where
  "cur_aux env = insn_aux_data env (insn_idx env)"

definition set_cur_aux :: "bpf_verifier_env \<Rightarrow> bpf_insn_aux_data \<Rightarrow> bpf_verifier_env" where
  "set_cur_aux env aux = env\<lparr>insn_aux_data := (insn_aux_data env)(insn_idx env := aux)\<rparr>"

definition can_skip_alu_sanitation :: "bpf_verifier_env \<Rightarrow> bpf_insn \<Rightarrow> bool" where
  "can_skip_alu_sanitation env insn \<longleftrightarrow> bypass_spec_v1 env \<or> BPF_SRC (insn_code insn) = BPF_K"

definition update_alu_sanitation_state :: "bpf_insn_aux_data \<Rightarrow> u32 \<Rightarrow> u32 \<Rightarrow> alu_reason + bpf_insn_aux_data" where
  "update_alu_sanitation_state aux astate alimit =
    (if alu_state aux \<noteq> 0 \<and> (ucast (alu_state aux) \<noteq> astate \<or> alu_limit aux \<noteq> alimit)
     then Inl REASON_PATHS
     else Inr (aux\<lparr>alu_state := ucast astate, alu_limit := alimit\<rparr>))"

definition sanitize_val_alu :: "bpf_verifier_env \<Rightarrow> bpf_insn \<Rightarrow> alu_reason + bpf_verifier_env" where
  "sanitize_val_alu env insn =
    (if can_skip_alu_sanitation env insn then Inr env
     else case update_alu_sanitation_state (cur_aux env) BPF_ALU_NON_POINTER 0 of
            Inl e \<Rightarrow> Inl e
          | Inr aux \<Rightarrow> Inr (set_cur_aux env aux))"

definition sanitize_needed :: "u8 \<Rightarrow> bool" where
  "sanitize_needed opcode \<longleftrightarrow> opcode = BPF_ADD \<or> opcode = BPF_SUB"

text \<open>Every reason is reported in the log and ends in the same error.\<close>

definition sanitize_err :: "alu_reason \<Rightarrow> errno" where
  "sanitize_err r = (case r of REASON_BOUNDS \<Rightarrow> EACCES | REASON_TYPE \<Rightarrow> EACCES | REASON_PATHS \<Rightarrow> EACCES
     | REASON_LIMIT \<Rightarrow> EACCES | REASON_STACK \<Rightarrow> EACCES)"

section \<open>The transfer function\<close>

text \<open>
  The tests at the head: is the source a constant, and are its bounds contradictory, as on a dead
  branch?
\<close>

definition src_known :: "bool \<Rightarrow> bpf_reg_state \<Rightarrow> bool" where
  "src_known alu32 src =
    (if alu32 then tnum_subreg_is_const (var_off src) else tnum_is_const (var_off src))"

definition src_invalid :: "bool \<Rightarrow> bpf_reg_state \<Rightarrow> bool" where
  "src_invalid alu32 src =
    (if alu32
     then (src_known alu32 src \<and>
           (s32_min_value src \<noteq> s32_max_value src \<or> u32_min_value src \<noteq> u32_max_value src)) \<or>
          s32_max_value src <s s32_min_value src \<or> u32_min_value src > u32_max_value src
     else (src_known alu32 src \<and>
           (smin_value src \<noteq> smax_value src \<or> umin_value src \<noteq> umax_value src)) \<or>
          smax_value src <s smin_value src \<or> umin_value src > umax_value src)"

text \<open>The switch on the opcode. The last call of every shift case resets the destination if the count is too large.\<close>

definition scalar_switch ::
  "bpf_verifier_env \<Rightarrow> u8 \<Rightarrow> bool \<Rightarrow> bpf_reg_state \<Rightarrow> bpf_reg_state \<Rightarrow> bpf_reg_state" where
  "scalar_switch env opcode alu32 dst src =
    (let insn_bitness = (if alu32 then 32 else 64 :: u64); umax_val = umax_value src in
     if opcode = BPF_ADD then
       let dst1 = scalar_min_max_add (scalar32_min_max_add dst src) src
       in dst1\<lparr>var_off := tnum_add (var_off dst1) (var_off src)\<rparr>
     else if opcode = BPF_SUB then
       let dst1 = scalar_min_max_sub (scalar32_min_max_sub dst src) src
       in dst1\<lparr>var_off := tnum_sub (var_off dst1) (var_off src)\<rparr>
     else if opcode = BPF_MUL then
       let dst1 = dst\<lparr>var_off := tnum_mul (var_off dst) (var_off src)\<rparr>
       in scalar_min_max_mul (scalar32_min_max_mul dst1 src) src
     else if opcode = BPF_AND then
       let dst1 = dst\<lparr>var_off := tnum_and (var_off dst) (var_off src)\<rparr>
       in scalar_min_max_and (scalar32_min_max_and dst1 src) src
     else if opcode = BPF_OR then
       let dst1 = dst\<lparr>var_off := tnum_or (var_off dst) (var_off src)\<rparr>
       in scalar_min_max_or (scalar32_min_max_or dst1 src) src
     else if opcode = BPF_XOR then
       let dst1 = dst\<lparr>var_off := tnum_xor (var_off dst) (var_off src)\<rparr>
       in scalar_min_max_xor (scalar32_min_max_xor dst1 src) src
     else if opcode = BPF_LSH then
       if umax_val \<ge> insn_bitness then uu_mark_reg_unknown env dst
       else if alu32 then scalar32_min_max_lsh dst src else scalar_min_max_lsh dst src
     else if opcode = BPF_RSH then
       if umax_val \<ge> insn_bitness then uu_mark_reg_unknown env dst
       else if alu32 then scalar32_min_max_rsh dst src else scalar_min_max_rsh dst src
     else if opcode = BPF_ARSH then
       if umax_val \<ge> insn_bitness then uu_mark_reg_unknown env dst
       else if alu32 then scalar32_min_max_arsh dst src else scalar_min_max_arsh dst src
     else uu_mark_reg_unknown env dst)"

text \<open>
  The destination is \<^verbatim>\<open>regs[insn->dst_reg]\<close> of the current frame, whose number the callers
  have checked, so the calls of \<^verbatim>\<open>mark_reg_unknown(env, regs, insn->dst_reg)\<close> are
  \<^const>\<open>uu_mark_reg_unknown\<close> on the destination.
\<close>

definition adjust_scalar_min_max_vals ::
  "bpf_verifier_env \<Rightarrow> bpf_insn \<Rightarrow> bpf_reg_state \<Rightarrow> bpf_reg_state \<Rightarrow> errno + (bpf_verifier_env \<times> bpf_reg_state)" where
  "adjust_scalar_min_max_vals env insn dst src =
    (let opcode = BPF_OP (insn_code insn);
         alu32 = (BPF_CLASS (insn_code insn) \<noteq> BPF_ALU64)
     in if src_invalid alu32 src then Inr (env, uu_mark_reg_unknown env dst)
        else if \<not> src_known alu32 src \<and> opcode \<noteq> BPF_ADD \<and> opcode \<noteq> BPF_SUB \<and> opcode \<noteq> BPF_AND
        then Inr (env, uu_mark_reg_unknown env dst)
        else case (if sanitize_needed opcode then sanitize_val_alu env insn else Inr env) of
               Inl e \<Rightarrow> Inl (sanitize_err e)
             | Inr env1 \<Rightarrow>
                 let dst1 = scalar_switch env1 opcode alu32 dst src;
                     dst2 = (if alu32 then zext_32_to_64 dst1 else dst1)
                 in Inr (env1, uu_reg_bound_offset (uu_reg_deduce_bounds (uu_update_reg_bounds dst2))))"

section \<open>Soundness of the switch\<close>

text \<open>Each width of a transfer function leaves the other width alone.\<close>

lemma scalar32_frame [simp]:
  "bounds64 (scalar32_min_max_add d s) = bounds64 d" "var_off (scalar32_min_max_add d s) = var_off d"
  "bounds64 (scalar32_min_max_sub d s) = bounds64 d" "var_off (scalar32_min_max_sub d s) = var_off d"
  "bounds64 (scalar32_min_max_mul d s) = bounds64 d" "var_off (scalar32_min_max_mul d s) = var_off d"
  "bounds64 (scalar32_min_max_and d s) = bounds64 d" "bounds64 (scalar32_min_max_or d s) = bounds64 d"
  "bounds64 (scalar32_min_max_xor d s) = bounds64 d"
  by (simp_all add: scalar32_min_max_add_def scalar32_min_max_sub_def scalar32_min_max_mul_def
      scalar32_min_max_and_def scalar32_min_max_or_def scalar32_min_max_xor_def
      uu_mark_reg32_unbounded_def uu_mark_reg32_known_def Let_def)

lemma scalar64_frame [simp]:
  "bounds32 (scalar_min_max_add d s) = bounds32 d" "var_off (scalar_min_max_add d s) = var_off d"
  "bounds32 (scalar_min_max_sub d s) = bounds32 d" "var_off (scalar_min_max_sub d s) = var_off d"
  "bounds32 (scalar_min_max_mul d s) = bounds32 d" "var_off (scalar_min_max_mul d s) = var_off d"
  by (simp_all add: scalar_min_max_add_def scalar_min_max_sub_def scalar_min_max_mul_def
      uu_mark_reg64_unbounded_def Let_def)

lemma scalar32_bitwise_frame:
  "smin_value (scalar32_min_max_and d s) = smin_value d" "umax_value (scalar32_min_max_and d s) = umax_value d"
  "smin_value (scalar32_min_max_or d s) = smin_value d" "smin_value (scalar32_min_max_xor d s) = smin_value d"
  by (simp_all add: scalar32_min_max_and_def scalar32_min_max_or_def scalar32_min_max_xor_def
      uu_mark_reg32_known_def Let_def)

lemma const_subreg_mask: "bit (tn_mask (tnum_const_subreg t v)) 63 \<Longrightarrow> bit (tn_mask t) 63"
  by (simp add: tnum_const_subreg_def tnum_or_def tnum_clear_subreg_def tnum_lshift_def tnum_rshift_def
      tnum_const_def Let_def bit_simps)

lemma scalar32_bitwise_mask:
  "bit (tn_mask (var_off (scalar32_min_max_or d s))) 63 \<Longrightarrow> bit (tn_mask (var_off d)) 63"
  "bit (tn_mask (var_off (scalar32_min_max_xor d s))) 63 \<Longrightarrow> bit (tn_mask (var_off d)) 63"
  by (auto simp: scalar32_min_max_or_def scalar32_min_max_xor_def uu_mark_reg32_known_def Let_def
      dest: const_subreg_mask split: if_splits)

lemma or_mask: "bit (tn_mask (tnum_or a b)) n \<Longrightarrow> bit (tn_mask a) n \<or> bit (tn_mask b) n"
  and xor_mask: "bit (tn_mask (tnum_xor a b)) n \<Longrightarrow> bit (tn_mask a) n \<or> bit (tn_mask b) n"
  by (auto simp: tnum_or_def tnum_xor_def Let_def bit_simps)

lemma ucast32_arith:
  "ucast (x + y :: u64) = (ucast x + ucast y :: u32)"
  "ucast (x - y :: u64) = (ucast x - ucast y :: u32)"
  "ucast (x * y :: u64) = (ucast x * ucast y :: u32)"
proof -
  have m: "n mod 2 ^ LENGTH(64) mod 2 ^ 32 = n mod 2 ^ 32" for n :: int
    by (rule mod_mod_cancel) simp
  show "ucast (x + y :: u64) = (ucast x + ucast y :: u32)" "ucast (x - y :: u64) = (ucast x - ucast y :: u32)"
    "ucast (x * y :: u64) = (ucast x * ucast y :: u32)"
    by (intro word_uint_eqI; simp only: uint_ucast_32 uint_word_ariths m;
        simp only: len_of_numeral_defs mod_simps; simp add: mod_simps)+
qed

lemma reg_ok_parts:
  assumes "reg_ok r x"
  shows "tnum_contains (var_off r) x" "bounds64 r x" "bounds32 r (ucast x)"
    "0 \<le>s smin_value r \<Longrightarrow> 0 \<le>s umax_value r" "0 \<le>s smin_value r \<Longrightarrow> \<not> bit (tn_mask (var_off r)) 63"
    "0 \<le>s s32_min_value r \<Longrightarrow> 0 \<le>s u32_max_value r"
    "0 \<le>s s32_min_value r \<Longrightarrow> \<not> bit (tn_mask (var_off r)) 31"
  using assms by (simp_all add: reg_ok_def reg_contains_def reg_synced_def)

lemma switch_add:
  assumes "reg_ok dst x" and "reg_ok src y"
  shows "reg_contains (scalar_switch env BPF_ADD a dst src) (x + y)"
  using reg_ok_parts(1-3) [OF assms(1)] reg_ok_parts(1-3) [OF assms(2)]
  by (simp add: scalar_switch_def Let_def reg_contains_def ucast32_arith tnum_add_sound
      scalar_min_max_add_sound scalar32_min_max_add_sound)

lemma switch_sub:
  assumes "reg_ok dst x" and "reg_ok src y"
  shows "reg_contains (scalar_switch env BPF_SUB a dst src) (x - y)"
  using reg_ok_parts(1-3) [OF assms(1)] reg_ok_parts(1-3) [OF assms(2)]
  by (simp add: scalar_switch_def Let_def reg_contains_def ucast32_arith tnum_sub_sound
      scalar_min_max_sub_sound scalar32_min_max_sub_sound)

lemma switch_mul:
  assumes "reg_ok dst x" and "reg_ok src y"
  shows "reg_contains (scalar_switch env BPF_MUL a dst src) (x * y)"
  using reg_ok_parts(1-3) [OF assms(1)] reg_ok_parts(1-3) [OF assms(2)]
  by (simp add: scalar_switch_def Let_def reg_contains_def ucast32_arith tnum_mul_sound
      scalar_min_max_mul_sound scalar32_min_max_mul_sound)

lemma switch_and:
  assumes "reg_ok dst x" and "reg_ok src y"
  shows "reg_contains (scalar_switch env BPF_AND a dst src) (x AND y)"
proof -
  note d = reg_ok_parts [OF assms(1)] and s = reg_ok_parts [OF assms(2)]
  let ?d = "dst\<lparr>var_off := tnum_and (var_off dst) (var_off src)\<rparr>"
  let ?r = "scalar32_min_max_and ?d src"
  have t: "tnum_contains (var_off ?r) (x AND y)" "bounds32 ?r (ucast (x AND y))"
    using d s by (intro scalar32_min_max_and_sound; simp add: tnum_and_sound)+
  then have "reg_contains (scalar_min_max_and ?r src) (x AND y)"
    using d s by (intro scalar_min_max_and_sound) (simp_all add: scalar32_bitwise_frame)
  then show ?thesis by (simp add: scalar_switch_def Let_def)
qed

lemma switch_or:
  assumes "reg_ok dst x" and "reg_ok src y"
  shows "reg_contains (scalar_switch env BPF_OR a dst src) (x OR y)"
proof -
  note d = reg_ok_parts [OF assms(1)] and s = reg_ok_parts [OF assms(2)]
  let ?d = "dst\<lparr>var_off := tnum_or (var_off dst) (var_off src)\<rparr>"
  let ?r = "scalar32_min_max_or ?d src"
  have t: "tnum_contains (var_off ?r) (x OR y)" "bounds32 ?r (ucast (x OR y))"
    using d s or_mask [of "var_off dst" "var_off src" 31]
    by (intro scalar32_min_max_or_sound; simp add: tnum_or_sound; blast)+
  have m: "\<not> bit (tn_mask (var_off ?r)) 63" if "0 \<le>s smin_value ?r" "0 \<le>s smin_value src"
    using that d s scalar32_bitwise_mask(1) [of ?d src] or_mask [of "var_off dst" "var_off src" 63]
    by (auto simp: scalar32_bitwise_frame)
  have "reg_contains (scalar_min_max_or ?r src) (x OR y)"
    by (intro scalar_min_max_or_sound t m) (use d s in simp_all)
  then show ?thesis by (simp add: scalar_switch_def Let_def)
qed

lemma switch_xor:
  assumes "reg_ok dst x" and "reg_ok src y"
  shows "reg_contains (scalar_switch env BPF_XOR a dst src) (x XOR y)"
proof -
  note d = reg_ok_parts [OF assms(1)] and s = reg_ok_parts [OF assms(2)]
  let ?d = "dst\<lparr>var_off := tnum_xor (var_off dst) (var_off src)\<rparr>"
  let ?r = "scalar32_min_max_xor ?d src"
  have t: "tnum_contains (var_off ?r) (x XOR y)" "bounds32 ?r (ucast (x XOR y))"
    using d s xor_mask [of "var_off dst" "var_off src" 31]
    by (intro scalar32_min_max_xor_sound; simp add: tnum_xor_sound; blast)+
  have m: "\<not> bit (tn_mask (var_off ?r)) 63" if "0 \<le>s smin_value ?r" "0 \<le>s smin_value src"
    using that d s scalar32_bitwise_mask(2) [of ?d src] xor_mask [of "var_off dst" "var_off src" 63]
    by (auto simp: scalar32_bitwise_frame)
  have "reg_contains (scalar_min_max_xor ?r src) (x XOR y)"
    by (intro scalar_min_max_xor_sound t m) (use d s in simp_all)
  then show ?thesis by (simp add: scalar_switch_def Let_def)
qed

text \<open>A source that passes the tests at the head and is known is the value itself.\<close>

lemma known_src64:
  assumes "reg_ok src y" and "src_known False src" and "\<not> src_invalid False src"
  shows "umin_value src = y" and "umax_value src = y"
  using assms by (auto simp: src_invalid_def reg_ok_def reg_contains_def bounds64_def)

lemma known_src32:
  assumes "reg_ok src y" and "src_known True src" and "\<not> src_invalid True src"
  shows "u32_min_value src = ucast y" and "u32_max_value src = ucast y"
  using assms by (auto simp: src_invalid_def reg_ok_def reg_contains_def bounds32_def)

lemma and_mask_small: "uint y < 2 ^ n \<Longrightarrow> (y :: 'a::len word) AND mask n = y"
  unfolding take_bit_eq_mask [symmetric]
  by (intro word_uint_eqI) (simp add: unsigned_take_bit_eq take_bit_int_eq_self)

lemma and_63: "(y :: u64) < 64 \<Longrightarrow> y AND 63 = y" and and_31: "(w :: u32) < 32 \<Longrightarrow> w AND 31 = w"
  using and_mask_small [of y 6] and_mask_small [of w 5] by (simp_all add: word_less_def mask_eq_exp_minus_1)

lemma shift_count64:
  assumes "shift_ok 64 (if x then y AND 63 else y) = Some n" and "(y :: u64) < 64"
  shows "n = unat y"
  using assms and_63 [of y] by (auto simp: shift_ok_def split: if_splits)

lemma shift_count32:
  assumes "shift_ok 32 (if x then w AND 31 else w) = Some n" and "(w :: u32) < 32"
  shows "n = unat w"
  using assms and_31 [of w] by (auto simp: shift_ok_def split: if_splits)

lemma switch_unknown:
  assumes "umax_value src \<ge> (if a then 32 else 64)" and "opc = BPF_LSH \<or> opc = BPF_RSH \<or> opc = BPF_ARSH"
  shows "scalar_switch env opc a dst src = uu_mark_reg_unknown env dst"
  using assms by (auto simp: scalar_switch_def Let_def)

lemma scalar_switch_sound64:
  assumes ok: "reg_ok dst x" "reg_ok src y" and valid: "\<not> src_invalid False src"
    and known: "src_known False src \<or> op \<in> {OP_ADD, OP_SUB, OP_AND}"
    and run: "interp_alu64 op is_x x y = Some (z, ax)" and op: "op \<noteq> OP_MOV"
  shows "reg_contains (scalar_switch env (alu_opcode op) False dst src) z"
proof -
  have arith: "op \<in> {OP_ADD, OP_SUB, OP_MUL, OP_AND, OP_OR, OP_XOR} \<Longrightarrow> ?thesis"
    using run ok by (auto simp: alu_opcode_def interp_alu64_def switch_add switch_sub switch_mul switch_and
        switch_or switch_xor)
  have shift: ?thesis if sh: "op \<in> {OP_LSH, OP_RSH, OP_ARSH}"
  proof (cases "umax_value src \<ge> 64")
    case True
    then show ?thesis using sh by (auto simp: alu_opcode_def switch_unknown)
  next
    case False
    with sh known have k: "umin_value src = y" "umax_value src = y"
      using known_src64 [OF ok(2) _ valid] by auto
    with False have y: "y < 64" by (simp add: not_le)
    have d: "reg_contains dst x" using ok(1) by (rule reg_okD)
    from sh consider "op = OP_LSH" | "op = OP_RSH" | "op = OP_ARSH" by blast
    then show ?thesis
      using run k y d
      by cases (auto simp: alu_opcode_def interp_alu64_def scalar_switch_def Let_def dest!: shift_count64
          intro: scalar_min_max_lsh_sound scalar_min_max_rsh_sound scalar_min_max_arsh_sound)
  qed
  show ?thesis
    using op arith shift by (cases op) (auto simp: alu_opcode_def scalar_switch_def Let_def)
qed

lemma zext_of_contains: "reg_contains r v \<Longrightarrow> reg_contains (zext_32_to_64 r) (ucast (ucast v :: u32))"
  using reg_containsD [of r v] by (intro zext_32_to_64_sound tnum_subreg_sound) auto

lemma zext_of_unknown: "reg_contains (zext_32_to_64 (uu_mark_reg_unknown env r)) (ucast (w :: u32))"
  using zext_of_contains [of "uu_mark_reg_unknown env r" "ucast w"] by (simp add: ucast_down_up)

lemma interp_alu32_zext: "interp_alu32 op is_x x w = Some (z, ax) \<Longrightarrow> \<exists>v :: u32. z = ucast v"
  by (auto simp: interp_alu32_def Let_def split: bpf_alu_op.splits)

lemma scalar_switch_sound32:
  assumes ok: "reg_ok dst x" "reg_ok src y" and valid: "\<not> src_invalid True src"
    and known: "src_known True src \<or> op \<in> {OP_ADD, OP_SUB, OP_AND}"
    and run: "interp_alu32 op is_x x (ucast y) = Some (z, ax)" and op: "op \<noteq> OP_MOV"
  shows "reg_contains (zext_32_to_64 (scalar_switch env (alu_opcode op) True dst src)) z"
proof -
  have arith: "op \<in> {OP_ADD, OP_SUB, OP_MUL, OP_AND, OP_OR, OP_XOR} \<Longrightarrow> ?thesis"
    using run zext_of_contains [OF switch_add [OF ok]] zext_of_contains [OF switch_sub [OF ok]]
      zext_of_contains [OF switch_mul [OF ok]] zext_of_contains [OF switch_and [OF ok]]
      zext_of_contains [OF switch_or [OF ok]] zext_of_contains [OF switch_xor [OF ok]]
    by (auto simp: alu_opcode_def interp_alu32_def ucast32_arith ucast32_bitops ucast32_xor)
  have unknown: ?thesis if "scalar_switch env (alu_opcode op) True dst src = uu_mark_reg_unknown env dst"
    using that interp_alu32_zext [OF run] zext_of_unknown by auto
  have shift: ?thesis if sh: "op \<in> {OP_LSH, OP_RSH, OP_ARSH}"
  proof (cases "umax_value src \<ge> 32")
    case True
    then show ?thesis using sh by (intro unknown) (auto simp: alu_opcode_def switch_unknown)
  next
    case False
    with sh known have k: "u32_min_value src = ucast y" "u32_max_value src = ucast y"
      using known_src32 [OF ok(2) _ valid] by auto
    have "y < 32" using False ok(2) by (auto simp: reg_ok_def reg_contains_def bounds64_def not_le)
    then have y: "(ucast y :: u32) < 32"
      by (simp add: word_less_def uint_ucast_32)
    have d: "reg_contains dst x" using ok(1) by (rule reg_okD)
    from sh consider "op = OP_LSH" | "op = OP_RSH" | "op = OP_ARSH" by blast
    then show ?thesis
      using run k y d False
      by cases (auto simp: alu_opcode_def interp_alu32_def scalar_switch_def Let_def dest!: shift_count32
          intro!: sub_contains_zext
          intro: scalar32_min_max_lsh_sound scalar32_min_max_rsh_sound scalar32_min_max_arsh_sound)
  qed
  show ?thesis
    using op arith shift unknown by (cases op) (auto simp: alu_opcode_def scalar_switch_def Let_def)
qed

section \<open>Soundness of the transfer function\<close>

lemma alu_opcode_cases:
  "alu_opcode op = BPF_ADD \<longleftrightarrow> op = OP_ADD" "alu_opcode op = BPF_SUB \<longleftrightarrow> op = OP_SUB"
  "alu_opcode op = BPF_AND \<longleftrightarrow> op = OP_AND"
  by (simp_all add: alu_opcode_def split: bpf_alu_op.splits)

lemma adjust_scalar_sound:
  assumes call: "adjust_scalar_min_max_vals env insn dst src = Inr (env', dst')"
    and code: "jumptable (insn_code insn) = L_ALU wide op is_x" and op: "op \<noteq> OP_MOV"
    and ok: "reg_ok dst x" "reg_ok src y"
    and run: "interp_alu wide op is_x x y = Some (z, ax)"
  shows "reg_ok dst' z"
proof -
  let ?a = "\<not> wide"
  note f = jumptable_alu [OF code]
  have cls: "(BPF_CLASS (insn_code insn) \<noteq> BPF_ALU64) = ?a" using f(1) by simp
  note def = adjust_scalar_min_max_vals_def [of env insn dst src, unfolded Let_def cls f(2)]
  show ?thesis
  proof (cases "src_invalid ?a src \<or> \<not> src_known ?a src \<and> op \<notin> {OP_ADD, OP_SUB, OP_AND}")
    case True
    then have "dst' = uu_mark_reg_unknown env dst"
      using call by (auto simp: def alu_opcode_cases split: if_splits)
    then show ?thesis by simp
  next
    case False
    then obtain env1 where d: "dst' = uu_reg_bound_offset (uu_reg_deduce_bounds (uu_update_reg_bounds
        (if ?a then zext_32_to_64 (scalar_switch env1 (alu_opcode op) ?a dst src)
         else scalar_switch env1 (alu_opcode op) ?a dst src)))"
      using call by (auto simp: def alu_opcode_cases split: if_splits sum.splits)
    have "reg_contains (if ?a then zext_32_to_64 (scalar_switch env1 (alu_opcode op) ?a dst src)
        else scalar_switch env1 (alu_opcode op) ?a dst src) z"
      using False run op ok scalar_switch_sound64 [OF ok] scalar_switch_sound32 [OF ok]
      by (cases wide) (auto simp: interp_alu_def)
    then show ?thesis unfolding d by (rule finish_ok)
  qed
qed

end
