(* ===== verification/Bpf_Branch.thy ===== *)
theory Bpf_Branch
  imports Bpf_Alu
begin

text \<open>
  What the verifier learns from a conditional jump: whether the branch is certainly taken or not
  (\<^verbatim>\<open>is_branch_taken\<close>) and how the bounds of the compared registers shrink on either side
  (\<^verbatim>\<open>reg_set_min_max\<close>, \<^verbatim>\<open>reg_set_min_max_inv\<close>,
  \<^verbatim>\<open>reg_combine_min_max\<close>), all of \<^verbatim>\<open>kernel/bpf/verifier.c\<close>. The lemmas compare them
  with the conditions the interpreter evaluates.
\<close>

section \<open>Classes of register types\<close>

definition reg_type_not_null :: "bpf_reg_type \<Rightarrow> bool" where
  "reg_type_not_null t \<longleftrightarrow>
    t = PTR_TO_SOCKET \<or> t = PTR_TO_TCP_SOCK \<or> t = PTR_TO_MAP_VALUE \<or> t = PTR_TO_SOCK_COMMON"

definition reg_type_may_be_null :: "bpf_reg_type \<Rightarrow> bool" where
  "reg_type_may_be_null t \<longleftrightarrow>
    t = PTR_TO_MAP_VALUE_OR_NULL \<or> t = PTR_TO_SOCKET_OR_NULL \<or> t = PTR_TO_SOCK_COMMON_OR_NULL \<or>
    t = PTR_TO_TCP_SOCK_OR_NULL \<or> t = PTR_TO_BTF_ID_OR_NULL \<or> t = PTR_TO_MEM_OR_NULL \<or>
    t = PTR_TO_RDONLY_BUF_OR_NULL \<or> t = PTR_TO_RDWR_BUF_OR_NULL"

definition uu_is_pointer_value :: "bool \<Rightarrow> bpf_reg_state \<Rightarrow> bool" where
  "uu_is_pointer_value leaks reg = (if leaks then False else reg_type reg \<noteq> SCALAR_VALUE)"

section \<open>Is the branch taken?\<close>

text \<open>The C result 1, 0 or -1 is \<open>Some True\<close>, \<open>Some False\<close> or \<open>None\<close>.\<close>

definition decide :: "bool \<Rightarrow> bool \<Rightarrow> bool option" where
  "decide yes no = (if yes then Some True else if no then Some False else None)"

definition is_branch32_taken :: "bpf_reg_state \<Rightarrow> u32 \<Rightarrow> u8 \<Rightarrow> bool option" where
  "is_branch32_taken reg val opcode =
    (let subreg = tnum_subreg (var_off reg); sval = val in
     if opcode = BPF_JEQ then
       if tnum_is_const subreg then Some (tnum_equals_const subreg (ucast val)) else None
     else if opcode = BPF_JNE then
       if tnum_is_const subreg then Some (\<not> tnum_equals_const subreg (ucast val)) else None
     else if opcode = BPF_JSET then
       decide ((NOT (tn_mask subreg) AND tn_value subreg) AND ucast val \<noteq> 0)
              ((tn_mask subreg OR tn_value subreg) AND ucast val = 0)
     else if opcode = BPF_JGT then decide (u32_min_value reg > val) (u32_max_value reg \<le> val)
     else if opcode = BPF_JSGT then decide (sval <s s32_min_value reg) (s32_max_value reg \<le>s sval)
     else if opcode = BPF_JLT then decide (u32_max_value reg < val) (u32_min_value reg \<ge> val)
     else if opcode = BPF_JSLT then decide (s32_max_value reg <s sval) (sval \<le>s s32_min_value reg)
     else if opcode = BPF_JGE then decide (u32_min_value reg \<ge> val) (u32_max_value reg < val)
     else if opcode = BPF_JSGE then decide (sval \<le>s s32_min_value reg) (s32_max_value reg <s sval)
     else if opcode = BPF_JLE then decide (u32_max_value reg \<le> val) (u32_min_value reg > val)
     else if opcode = BPF_JSLE then decide (s32_max_value reg \<le>s sval) (sval <s s32_min_value reg)
     else None)"

definition is_branch64_taken :: "bpf_reg_state \<Rightarrow> u64 \<Rightarrow> u8 \<Rightarrow> bool option" where
  "is_branch64_taken reg val opcode =
    (let sval = val in
     if opcode = BPF_JEQ then
       if tnum_is_const (var_off reg) then Some (tnum_equals_const (var_off reg) val) else None
     else if opcode = BPF_JNE then
       if tnum_is_const (var_off reg) then Some (\<not> tnum_equals_const (var_off reg) val) else None
     else if opcode = BPF_JSET then
       decide ((NOT (tn_mask (var_off reg)) AND tn_value (var_off reg)) AND val \<noteq> 0)
              ((tn_mask (var_off reg) OR tn_value (var_off reg)) AND val = 0)
     else if opcode = BPF_JGT then decide (umin_value reg > val) (umax_value reg \<le> val)
     else if opcode = BPF_JSGT then decide (sval <s smin_value reg) (smax_value reg \<le>s sval)
     else if opcode = BPF_JLT then decide (umax_value reg < val) (umin_value reg \<ge> val)
     else if opcode = BPF_JSLT then decide (smax_value reg <s sval) (sval \<le>s smin_value reg)
     else if opcode = BPF_JGE then decide (umin_value reg \<ge> val) (umax_value reg < val)
     else if opcode = BPF_JSGE then decide (sval \<le>s smin_value reg) (smax_value reg <s sval)
     else if opcode = BPF_JLE then decide (umax_value reg \<le> val) (umin_value reg > val)
     else if opcode = BPF_JSLE then decide (smax_value reg \<le>s sval) (sval <s smin_value reg)
     else None)"

definition is_branch_taken :: "bpf_reg_state \<Rightarrow> u64 \<Rightarrow> u8 \<Rightarrow> bool \<Rightarrow> bool option" where
  "is_branch_taken reg val opcode is_jmp32 =
    (if uu_is_pointer_value False reg
     then if \<not> reg_type_not_null (reg_type reg) then None
          else if val \<noteq> 0 then None
          else if opcode = BPF_JEQ then Some False
          else if opcode = BPF_JNE then Some True
          else None
     else if is_jmp32 then is_branch32_taken reg (ucast val) opcode
     else is_branch64_taken reg val opcode)"

section \<open>Refining the compared register\<close>

definition is_power_of_2 :: "u64 \<Rightarrow> bool" where
  "is_power_of_2 n \<longleftrightarrow> n \<noteq> 0 \<and> n AND (n - 1) = 0"

text \<open>
  The switch of \<^verbatim>\<open>reg_set_min_max\<close>: the two register states after it, and the four local tnums
  in the order true/64, true/32, false/64, false/32. The result is \<open>None\<close> for the default case,
  which returns at once.
\<close>

definition set_min_max_switch :: "bpf_reg_state \<Rightarrow> bpf_reg_state \<Rightarrow> u64 \<Rightarrow> u32 \<Rightarrow> u8 \<Rightarrow> bool \<Rightarrow>
    (bpf_reg_state \<times> bpf_reg_state \<times> tnum \<times> tnum \<times> tnum \<times> tnum) option" where
  "set_min_max_switch tr fr val val32 opcode is_jmp32 =
    (let f32 = tnum_subreg (var_off fr); f64 = var_off fr;
         t32 = tnum_subreg (var_off tr); t64 = var_off tr in
     if opcode = BPF_JEQ then
       Some (if is_jmp32 then uu_mark_reg32_known tr (ucast val32) else uuu_mark_reg_known tr val,
             fr, t64, t32, f64, f32)
     else if opcode = BPF_JNE then
       Some (tr, if is_jmp32 then uu_mark_reg32_known fr (ucast val32) else uuu_mark_reg_known fr val,
             t64, t32, f64, f32)
     else if opcode = BPF_JSET then
       if is_jmp32
       then Some (tr, fr, t64, if is_power_of_2 (ucast val32) then tnum_or t32 (tnum_const (ucast val32)) else t32,
                  f64, tnum_and f32 (tnum_const (ucast (NOT val32))))
       else Some (tr, fr, if is_power_of_2 val then tnum_or t64 (tnum_const val) else t64, t32,
                  tnum_and f64 (tnum_const (NOT val)), f32)
     else if opcode = BPF_JGE \<or> opcode = BPF_JGT then
       if is_jmp32
       then let false_umax = (if opcode = BPF_JGT then val32 else val32 - 1);
                true_umin = (if opcode = BPF_JGT then val32 + 1 else val32)
            in Some (tr\<lparr>u32_min_value := max (u32_min_value tr) true_umin\<rparr>,
                     fr\<lparr>u32_max_value := min (u32_max_value fr) false_umax\<rparr>, t64, t32, f64, f32)
       else let false_umax = (if opcode = BPF_JGT then val else val - 1);
                true_umin = (if opcode = BPF_JGT then val + 1 else val)
            in Some (tr\<lparr>umin_value := max (umin_value tr) true_umin\<rparr>,
                     fr\<lparr>umax_value := min (umax_value fr) false_umax\<rparr>, t64, t32, f64, f32)
     else if opcode = BPF_JSGE \<or> opcode = BPF_JSGT then
       if is_jmp32
       then let false_smax = (if opcode = BPF_JSGT then val32 else val32 - 1);
                true_smin = (if opcode = BPF_JSGT then val32 + 1 else val32)
            in Some (tr\<lparr>s32_min_value := smax (s32_min_value tr) true_smin\<rparr>,
                     fr\<lparr>s32_max_value := smin (s32_max_value fr) false_smax\<rparr>, t64, t32, f64, f32)
       else let false_smax = (if opcode = BPF_JSGT then val else val - 1);
                true_smin = (if opcode = BPF_JSGT then val + 1 else val)
            in Some (tr\<lparr>smin_value := smax (smin_value tr) true_smin\<rparr>,
                     fr\<lparr>smax_value := smin (smax_value fr) false_smax\<rparr>, t64, t32, f64, f32)
     else if opcode = BPF_JLE \<or> opcode = BPF_JLT then
       if is_jmp32
       then let false_umin = (if opcode = BPF_JLT then val32 else val32 + 1);
                true_umax = (if opcode = BPF_JLT then val32 - 1 else val32)
            in Some (tr\<lparr>u32_max_value := min (u32_max_value tr) true_umax\<rparr>,
                     fr\<lparr>u32_min_value := max (u32_min_value fr) false_umin\<rparr>, t64, t32, f64, f32)
       else let false_umin = (if opcode = BPF_JLT then val else val + 1);
                true_umax = (if opcode = BPF_JLT then val - 1 else val)
            in Some (tr\<lparr>umax_value := min (umax_value tr) true_umax\<rparr>,
                     fr\<lparr>umin_value := max (umin_value fr) false_umin\<rparr>, t64, t32, f64, f32)
     else if opcode = BPF_JSLE \<or> opcode = BPF_JSLT then
       if is_jmp32
       then let false_smin = (if opcode = BPF_JSLT then val32 else val32 + 1);
                true_smax = (if opcode = BPF_JSLT then val32 - 1 else val32)
            in Some (tr\<lparr>s32_max_value := smin (s32_max_value tr) true_smax\<rparr>,
                     fr\<lparr>s32_min_value := smax (s32_min_value fr) false_smin\<rparr>, t64, t32, f64, f32)
       else let false_smin = (if opcode = BPF_JSLT then val else val + 1);
                true_smax = (if opcode = BPF_JSLT then val - 1 else val)
            in Some (tr\<lparr>smax_value := smin (smax_value tr) true_smax\<rparr>,
                     fr\<lparr>smin_value := smax (smin_value fr) false_smin\<rparr>, t64, t32, f64, f32)
     else None)"

definition reg_set_min_max ::
  "bpf_reg_state \<Rightarrow> bpf_reg_state \<Rightarrow> u64 \<Rightarrow> u32 \<Rightarrow> u8 \<Rightarrow> bool \<Rightarrow> bpf_reg_state \<times> bpf_reg_state" where
  "reg_set_min_max true_reg false_reg val val32 opcode is_jmp32 =
    (if uu_is_pointer_value False false_reg then (true_reg, false_reg)
     else case set_min_max_switch true_reg false_reg val val32 opcode is_jmp32 of
            None \<Rightarrow> (true_reg, false_reg)
          | Some (tr, fr, t64, t32, f64, f32) \<Rightarrow>
              if is_jmp32
              then (uu_reg_combine_32_into_64 (tr\<lparr>var_off := tnum_or (tnum_clear_subreg t64) (tnum_subreg t32)\<rparr>),
                    uu_reg_combine_32_into_64 (fr\<lparr>var_off := tnum_or (tnum_clear_subreg f64) (tnum_subreg f32)\<rparr>))
              else (uu_reg_combine_64_into_32 (tr\<lparr>var_off := t64\<rparr>),
                    uu_reg_combine_64_into_32 (fr\<lparr>var_off := f64\<rparr>)))"

text \<open>The table indexed by \<^verbatim>\<open>opcode >> 4\<close>; entries that are not initialised are zero.\<close>

definition opcode_flip :: "u8 list" where
  "opcode_flip = [0, BPF_JEQ, BPF_JLT, BPF_JLE, BPF_JSET, BPF_JNE, BPF_JSLT, BPF_JSLE, 0, 0,
                  BPF_JGT, BPF_JGE, BPF_JSGT, BPF_JSGE, 0, 0]"

definition reg_set_min_max_inv ::
  "bpf_reg_state \<Rightarrow> bpf_reg_state \<Rightarrow> u64 \<Rightarrow> u32 \<Rightarrow> u8 \<Rightarrow> bool \<Rightarrow> bpf_reg_state \<times> bpf_reg_state" where
  "reg_set_min_max_inv true_reg false_reg val val32 opcode0 is_jmp32 =
    (let opcode = opcode_flip ! unat (drop_bit 4 opcode0)
     in if opcode \<noteq> 0 then reg_set_min_max true_reg false_reg val val32 opcode is_jmp32
        else (true_reg, false_reg))"

section \<open>Two registers known to be equal\<close>

definition uu_reg_combine_min_max :: "bpf_reg_state \<Rightarrow> bpf_reg_state \<Rightarrow> bpf_reg_state \<times> bpf_reg_state" where
  "uu_reg_combine_min_max src dst =
    (let umin = max (umin_value src) (umin_value dst); umax = min (umax_value src) (umax_value dst);
         smn = smax (smin_value src) (smin_value dst); smx = smin (smax_value src) (smax_value dst);
         v = tnum_intersect (var_off src) (var_off dst);
         join = (\<lambda>r. r\<lparr>umin_value := umin, umax_value := umax, smin_value := smn, smax_value := smx, var_off := v\<rparr>);
         refine = (\<lambda>r. uu_update_reg_bounds (uu_reg_bound_offset (uu_reg_deduce_bounds (uu_update_reg_bounds r))))
     in (refine (join src), refine (join dst)))"

definition reg_combine_min_max ::
  "bpf_reg_state \<Rightarrow> bpf_reg_state \<Rightarrow> bpf_reg_state \<Rightarrow> bpf_reg_state \<Rightarrow> u8 \<Rightarrow>
   bpf_reg_state \<times> bpf_reg_state \<times> bpf_reg_state \<times> bpf_reg_state" where
  "reg_combine_min_max true_src true_dst false_src false_dst opcode =
    (if opcode = BPF_JEQ
     then case uu_reg_combine_min_max true_src true_dst of (s, d) \<Rightarrow> (s, d, false_src, false_dst)
     else if opcode = BPF_JNE
     then case uu_reg_combine_min_max false_src false_dst of (s, d) \<Rightarrow> (true_src, true_dst, s, d)
     else (true_src, true_dst, false_src, false_dst))"

section \<open>Soundness of the branch decision\<close>

lemma and_nonzero_iff: "(a AND b :: 'a::len word) \<noteq> 0 \<longleftrightarrow> (\<exists>n. bit a n \<and> bit b n)"
  by (simp add: bit_eq_iff bit_simps) (metis bit_imp_le_length)

lemma decide_eq: "decide yes no = Some b \<longleftrightarrow> (if yes then b else no \<and> \<not> b)"
  by (auto simp: decide_def)

lemma tnum_jset:
  assumes "tnum_contains t x"
  shows "(NOT (tn_mask t) AND tn_value t) AND v \<noteq> 0 \<Longrightarrow> x AND v \<noteq> 0"
    and "(tn_mask t OR tn_value t) AND v = 0 \<Longrightarrow> x AND v = 0"
proof -
  show "(NOT (tn_mask t) AND tn_value t) AND v \<noteq> 0 \<Longrightarrow> x AND v \<noteq> 0"
    using tnum_contains_bits(1) [OF assms] unfolding and_nonzero_iff bit_and_iff by blast
  show "(tn_mask t OR tn_value t) AND v = 0 \<Longrightarrow> x AND v = 0"
    using tnum_contains_bits(2) [OF assms]
      and_nonzero_iff [of x v] and_nonzero_iff [of "tn_mask t OR tn_value t" v]
    unfolding bit_or_iff by blast
qed

lemma tnum_const_cmp:
  assumes "tnum_contains t x" and "tnum_is_const t"
  shows "tnum_equals_const t v \<longleftrightarrow> x = v"
  using assms tnum_contains_const [OF assms(2)] by (auto simp: tnum_equals_const_def)

lemma is_branch64_taken_sound:
  assumes "reg_contains r x" and "is_branch64_taken r val (jmp_opcode c) = Some b"
  shows "cond64 c x val = b"
proof -
  note t = reg_containsD(1) [OF assms(1)]
  have "umin_value r \<le> x" "x \<le> umax_value r" "smin_value r \<le>s x" "x \<le>s smax_value r"
    using assms(1) by (simp_all add: reg_contains_def bounds64_def)
  then show ?thesis
    using assms(2) tnum_const_cmp [OF t] tnum_jset [OF t, of val]
    by (cases c) (auto simp: is_branch64_taken_def jmp_opcode_def cond64_def decide_eq word_order_int
        split: if_splits)
qed

lemma ucast_eq_iff: "(ucast (a :: u32) :: u64) = ucast b \<longleftrightarrow> a = b"
  by (metis ucast_down_up)

lemma ucast_and_zero: "(ucast (a :: u32) AND ucast b :: u64) = 0 \<longleftrightarrow> a AND b = 0"
  using ucast_eq_iff [of "a AND b" 0] by (simp add: unsigned_and_eq)

lemma is_branch32_taken_sound:
  assumes "reg_contains r x" and "is_branch32_taken r val (jmp_opcode c) = Some b"
  shows "cond32 c (ucast x) val = b"
proof -
  note t = tnum_subreg_sound [OF reg_containsD(1) [OF assms(1)]]
  let ?w = "ucast x :: u32"
  have "u32_min_value r \<le> ?w" "?w \<le> u32_max_value r" "s32_min_value r \<le>s ?w" "?w \<le>s s32_max_value r"
    using assms(1) by (simp_all add: reg_contains_def bounds32_def)
  then show ?thesis
    using assms(2) tnum_const_cmp [OF t] tnum_jset [OF t, of "ucast val"]
    by (cases c) (auto simp: is_branch32_taken_def jmp_opcode_def cond32_def decide_eq word_order_int
        ucast_eq_iff ucast_and_zero Let_def split: if_splits)
qed

lemma is_branch_taken_scalar_sound:
  assumes "reg_type r = SCALAR_VALUE" and "reg_contains r x"
    and "is_branch_taken r val (jmp_opcode c) half = Some b"
  shows "(if half then cond32 c (ucast x) (ucast val) else cond64 c x val) = b"
  using assms is_branch32_taken_sound is_branch64_taken_sound
  by (auto simp: is_branch_taken_def uu_is_pointer_value_def split: if_splits)

section \<open>Soundness of the refinement\<close>

lemma succ_le: "v < x \<Longrightarrow> v + 1 \<le> x" "x < v \<Longrightarrow> x \<le> v - 1" for x v :: "'a::len word"
proof -
  show "v < x \<Longrightarrow> v + 1 \<le> x" by (rule inc_le)
  show "x < v \<Longrightarrow> x \<le> v - 1"
    using uint_sub_if' [of v 1] uint_ge_0 [of x] unfolding word_order_int by (simp split: if_splits)
qed

lemma signed_succ_le:
  "v <s x \<Longrightarrow> v + 1 \<le>s x" "x <s v \<Longrightarrow> x \<le>s v - 1" "w <s y \<Longrightarrow> w + 1 \<le>s y" "y <s w \<Longrightarrow> y \<le>s w - 1"
  for x v :: u64 and y w :: u32
proof -
  show "v <s x \<Longrightarrow> v + 1 \<le>s x" "x <s v \<Longrightarrow> x \<le>s v - 1"
    using sint_add_wrap [of v 1] sint_sub_wrap [of v 1] sint_ge [of x] sint_lt [of x] sint_ge [of v] sint_lt [of v]
    unfolding word_order_int by (simp_all split: if_splits)
  show "w <s y \<Longrightarrow> w + 1 \<le>s y" "y <s w \<Longrightarrow> y \<le>s w - 1"
    using sint_add_wrap [of w 1] sint_sub_wrap [of w 1] sint_ge [of y] sint_lt [of y] sint_ge [of w] sint_lt [of w]
    unfolding word_order_int by (simp_all split: if_splits)
qed

lemma power_of_2_one_bit:
  assumes "is_power_of_2 v" and "bit v j" and "bit v k"
  shows "j = k"
proof -
  have low: "take_bit n (uint v) = 0" if n: "bit v n" "0 < n" for n
  proof -
    have "n < 64" using bit_imp_le_length [OF n(1)] by simp
    moreover have "\<not> bit (v - 1) n"
      using assms(1) n and_nonzero_iff [of v "v - 1"] by (auto simp: is_power_of_2_def)
    moreover have "\<not> bit (1 :: u64) n" "take_bit n (1 :: int) = 1"
      using n by (simp_all add: bit_1_iff)
    ultimately have "take_bit n (uint v) < 1"
      using bit_minus_borrow [of n v 1] n(1) by (simp del: take_bit_of_1)
    then show ?thesis using take_bit_nonnegative [of n "uint v"] by linarith
  qed
  have "False" if "bit v j" "bit v k" "j < k" for j k
  proof -
    have "bit (take_bit k (uint v)) j"
      using that bit_imp_le_length [of v j] by (simp add: bit_take_bit_iff bit_uint_iff)
    then show False using low [of k] that by simp
  qed
  with assms(2,3) show ?thesis by (metis linorder_neqE_nat)
qed

lemma or_power_of_2:
  assumes "is_power_of_2 v" and "x AND v \<noteq> 0"
  shows "x OR v = x"
proof (rule bit_word_eqI)
  fix n
  obtain k where "bit x k" "bit v k" using assms(2) by (auto simp: and_nonzero_iff)
  then show "bit (x OR v) n = bit x n"
    using power_of_2_one_bit [OF assms(1), of n k] by (auto simp: bit_simps)
qed

lemma and_not_disjoint: "(x AND v :: 'a::len word) = 0 \<Longrightarrow> x AND NOT v = x"
  using and_nonzero_iff [of x v] by (intro bit_word_eqI) (auto simp: bit_simps)

lemma not_order:
  "\<not> (x :: 'a::len word) <s y \<longleftrightarrow> y \<le>s x" "\<not> x \<le>s y \<longleftrightarrow> y <s x"
  by (auto simp: word_order_int)

lemma smax_le: "smax a b \<le>s x \<longleftrightarrow> a \<le>s x \<and> b \<le>s x" and le_smin: "x \<le>s smin a b \<longleftrightarrow> x \<le>s a \<and> x \<le>s b"
  by (simp_all add: word_sle_eq)

lemmas refine_simps = set_min_max_switch_def Let_def jmp_opcode_def bounds64_def bounds32_def smax_le le_smin
  succ_le signed_succ_le not_order not_le not_less

lemma switch_true64:
  assumes "set_min_max_switch tr fr val val32 (jmp_opcode c) False = Some (tr', fr', t64, t32, f64, f32)"
    and "reg_contains tr x" and "cond64 c x val"
  shows "tnum_contains t64 x" and "bounds64 tr' x"
proof -
  note t = reg_containsD(1) [OF assms(2)]
  have "tnum_contains (tnum_or (var_off tr) (tnum_const val)) x" if "is_power_of_2 val" "x AND val \<noteq> 0"
    using tnum_or_sound [OF t, of "tnum_const val" val] or_power_of_2 [OF that] by simp
  then show "tnum_contains t64 x"
    using assms(1,3) t by (cases c) (auto simp: refine_simps cond64_def)
  show "bounds64 tr' x"
    using assms(1,3) reg_containsD(2) [OF assms(2)]
    by (cases c) (auto simp: refine_simps cond64_def uuu_mark_reg_known_def)
qed

lemma switch_false64:
  assumes "set_min_max_switch tr fr val val32 (jmp_opcode c) False = Some (tr', fr', t64, t32, f64, f32)"
    and "reg_contains fr x" and "\<not> cond64 c x val"
  shows "tnum_contains f64 x" and "bounds64 fr' x"
proof -
  note t = reg_containsD(1) [OF assms(2)]
  have "tnum_contains (tnum_and (var_off fr) (tnum_const (NOT val))) x" if "x AND val = 0"
    using tnum_and_sound [OF t, of "tnum_const (NOT val)" "NOT val"] and_not_disjoint [OF that] by simp
  then show "tnum_contains f64 x"
    using assms(1,3) t by (cases c) (auto simp: refine_simps cond64_def)
  show "bounds64 fr' x"
    using assms(1,3) reg_containsD(2) [OF assms(2)]
    by (cases c) (auto simp: refine_simps cond64_def uuu_mark_reg_known_def)
qed

lemma switch_true32:
  assumes "set_min_max_switch tr fr val val32 (jmp_opcode c) True = Some (tr', fr', t64, t32, f64, f32)"
    and "reg_contains tr x" and "cond32 c (ucast x) val32"
  shows "tnum_contains t64 x" and "tnum_contains t32 (ucast (ucast x :: u32))" and "bounds32 tr' (ucast x)"
proof -
  note t = reg_containsD(1) [OF assms(2)] and s = tnum_subreg_sound [OF reg_containsD(1) [OF assms(2)]]
  show "tnum_contains t64 x"
    using assms(1,3) t by (cases c) (auto simp: refine_simps cond32_def)
  have "tnum_contains (tnum_or (tnum_subreg (var_off tr)) (tnum_const (ucast val32))) (ucast (ucast x :: u32))"
    if "is_power_of_2 (ucast val32)" "(ucast x :: u32) AND val32 \<noteq> 0"
    using tnum_or_sound [OF s, of "tnum_const (ucast val32)" "ucast val32"] that
      or_power_of_2 [OF that(1), of "ucast (ucast x :: u32)"] by (simp add: ucast_and_zero)
  then show "tnum_contains t32 (ucast (ucast x :: u32))"
    using assms(1,3) s by (cases c) (auto simp: refine_simps cond32_def)
  show "bounds32 tr' (ucast x)"
    using assms(1,3) reg_containsD(3) [OF assms(2)]
    by (cases c) (auto simp: refine_simps cond32_def uu_mark_reg32_known_def ucast_down_up)
qed

lemma ucast_and_not: "(ucast (a :: u32) AND ucast (NOT b) :: u64) = ucast (a AND NOT b)"
  by (simp add: unsigned_and_eq)

lemma switch_false32:
  assumes "set_min_max_switch tr fr val val32 (jmp_opcode c) True = Some (tr', fr', t64, t32, f64, f32)"
    and "reg_contains fr x" and "\<not> cond32 c (ucast x) val32"
  shows "tnum_contains f64 x" and "tnum_contains f32 (ucast (ucast x :: u32))" and "bounds32 fr' (ucast x)"
proof -
  note t = reg_containsD(1) [OF assms(2)] and s = tnum_subreg_sound [OF reg_containsD(1) [OF assms(2)]]
  show "tnum_contains f64 x"
    using assms(1,3) t by (cases c) (auto simp: refine_simps cond32_def)
  have "tnum_contains (tnum_and (tnum_subreg (var_off fr)) (tnum_const (ucast (NOT val32)))) (ucast (ucast x :: u32))"
    if "(ucast x :: u32) AND val32 = 0"
    using tnum_and_sound [OF s, of "tnum_const (ucast (NOT val32))" "ucast (NOT val32)"] and_not_disjoint [OF that]
    by (simp add: ucast_and_not)
  then show "tnum_contains f32 (ucast (ucast x :: u32))"
    using assms(1,3) s by (cases c) (auto simp: refine_simps cond32_def)
  show "bounds32 fr' (ucast x)"
    using assms(1,3) reg_containsD(3) [OF assms(2)]
    by (cases c) (auto simp: refine_simps cond32_def uu_mark_reg32_known_def ucast_down_up)
qed

lemma join_subreg:
  assumes "tnum_contains t64 x" and "tnum_contains t32 (ucast (ucast x :: u32))"
  shows "tnum_contains (tnum_or (tnum_clear_subreg t64) (tnum_subreg t32)) x"
  using tnum_or_sound [OF tnum_clear_subreg_sound [OF assms(1)] tnum_subreg_sound [OF assms(2)]]
    split_subreg [of x] by (simp add: ucast_down_up)

text \<open>The value compared with is exact in the width of the comparison.\<close>

definition exact_val :: "bool \<Rightarrow> u64 \<Rightarrow> u32 \<Rightarrow> u64 \<Rightarrow> bool" where
  "exact_val half val val32 y \<longleftrightarrow> (if half then val32 = ucast y else val = y)"

lemma reg_set_min_max_sound:
  assumes set: "reg_set_min_max tr fr val val32 (jmp_opcode c) half = (tr', fr')"
    and y: "exact_val half val val32 y"
  shows "reg_ok tr x \<Longrightarrow> interp_cond half c x y \<Longrightarrow> reg_ok tr' x"
    and "reg_ok fr x \<Longrightarrow> \<not> interp_cond half c x y \<Longrightarrow> reg_ok fr' x"
proof -
  consider (same) "tr' = tr" "fr' = fr"
    | (sw) a b t64 t32 f64 f32 where
      "set_min_max_switch tr fr val val32 (jmp_opcode c) half = Some (a, b, t64, t32, f64, f32)"
      "(tr', fr') = (if half
         then (uu_reg_combine_32_into_64 (a\<lparr>var_off := tnum_or (tnum_clear_subreg t64) (tnum_subreg t32)\<rparr>),
               uu_reg_combine_32_into_64 (b\<lparr>var_off := tnum_or (tnum_clear_subreg f64) (tnum_subreg f32)\<rparr>))
         else (uu_reg_combine_64_into_32 (a\<lparr>var_off := t64\<rparr>), uu_reg_combine_64_into_32 (b\<lparr>var_off := f64\<rparr>)))"
    using set by (auto simp: reg_set_min_max_def split: if_splits option.splits prod.splits)
  note cases = this
  show "reg_ok tr' x" if "reg_ok tr x" "interp_cond half c x y"
    using cases
  proof cases
    case sw
    note rc = reg_okD(1) [OF that(1)]
    show ?thesis
    proof (cases half)
      case True
      have "cond32 c (ucast x) val32" using True that(2) y by (simp add: interp_cond_def exact_val_def)
      from switch_true32 [OF sw(1) [unfolded eq_True [THEN iffD2, OF True]] rc this]
      show ?thesis using sw(2) True uu_reg_combine_32_into_64_sound [of _ x] join_subreg by simp
    next
      case False
      have "cond64 c x val" using False that(2) y by (simp add: interp_cond_def exact_val_def)
      from switch_true64 [OF sw(1) [unfolded eq_False [THEN iffD2, OF False]] rc this]
      show ?thesis using sw(2) False uu_reg_combine_64_into_32_sound [of _ x] by simp
    qed
  qed (use that in simp)
  show "reg_ok fr' x" if "reg_ok fr x" "\<not> interp_cond half c x y"
    using cases
  proof cases
    case sw
    note rc = reg_okD(1) [OF that(1)]
    show ?thesis
    proof (cases half)
      case True
      have "\<not> cond32 c (ucast x) val32" using True that(2) y by (simp add: interp_cond_def exact_val_def)
      from switch_false32 [OF sw(1) [unfolded eq_True [THEN iffD2, OF True]] rc this]
      show ?thesis using sw(2) True uu_reg_combine_32_into_64_sound [of _ x] join_subreg by simp
    next
      case False
      have "\<not> cond64 c x val" using False that(2) y by (simp add: interp_cond_def exact_val_def)
      from switch_false64 [OF sw(1) [unfolded eq_False [THEN iffD2, OF False]] rc this]
      show ?thesis using sw(2) False uu_reg_combine_64_into_32_sound [of _ x] by simp
    qed
  qed (use that in simp)
qed

text \<open>The condition with its operands exchanged.\<close>

definition flip_cond :: "bpf_cond \<Rightarrow> bpf_cond" where
  "flip_cond c = (case c of C_JEQ \<Rightarrow> C_JEQ | C_JNE \<Rightarrow> C_JNE | C_JSET \<Rightarrow> C_JSET | C_JGE \<Rightarrow> C_JLE | C_JGT \<Rightarrow> C_JLT
     | C_JLE \<Rightarrow> C_JGE | C_JLT \<Rightarrow> C_JGT | C_JSGE \<Rightarrow> C_JSLE | C_JSGT \<Rightarrow> C_JSLT | C_JSLE \<Rightarrow> C_JSGE | C_JSLT \<Rightarrow> C_JSGT)"

lemma opcode_flip_correct: "opcode_flip ! unat (drop_bit 4 (jmp_opcode c)) = jmp_opcode (flip_cond c)"
  by (cases c) (simp_all add: opcode_flip_def jmp_opcode_def flip_cond_def)

lemma jmp_opcode_nonzero: "jmp_opcode c \<noteq> 0"
  by (cases c) (simp_all add: jmp_opcode_def)

lemma flip_cond_swap: "interp_cond half (flip_cond c) y x = interp_cond half c x y"
  by (cases c) (auto simp: interp_cond_def flip_cond_def cond32_def cond64_def and.commute)

lemma reg_set_min_max_inv_sound:
  assumes "reg_set_min_max_inv tr fr val val32 (jmp_opcode c) half = (tr', fr')" and "exact_val half val val32 x"
  shows "reg_ok tr y \<Longrightarrow> interp_cond half c x y \<Longrightarrow> reg_ok tr' y"
    and "reg_ok fr y \<Longrightarrow> \<not> interp_cond half c x y \<Longrightarrow> reg_ok fr' y"
  using reg_set_min_max_sound [of tr fr val val32 "flip_cond c" half tr' fr' x y] assms
  by (simp_all add: reg_set_min_max_inv_def opcode_flip_correct jmp_opcode_nonzero flip_cond_swap)

lemma uu_reg_combine_min_max_sound:
  assumes "reg_ok s x" and "reg_ok d x" and "uu_reg_combine_min_max s d = (s', d')"
  shows "reg_ok s' x" and "reg_ok d' x"
proof -
  note ps = reg_ok_parts(1-3) [OF assms(1)] and pd = reg_ok_parts(1-3) [OF assms(2)]
  let ?join = "\<lambda>r. r\<lparr>umin_value := max (umin_value s) (umin_value d), umax_value := min (umax_value s) (umax_value d),
    smin_value := smax (smin_value s) (smin_value d), smax_value := smin (smax_value s) (smax_value d),
    var_off := tnum_intersect (var_off s) (var_off d)\<rparr>"
  have "reg_contains (?join s) x" "reg_contains (?join d) x"
    using ps pd by (simp_all add: reg_contains_def tnum_intersect_sound)
      (simp_all add: bounds64_def smax_le le_smin)
  then show "reg_ok s' x" "reg_ok d' x"
    using assms(3) refine_ok [OF uu_update_reg_bounds_sound]
    by (auto simp: uu_reg_combine_min_max_def Let_def)
qed

lemma reg_combine_min_max_sound:
  assumes comb: "reg_combine_min_max ts td fs fd (jmp_opcode c) = (ts', td', fs', fd')"
  shows "reg_ok ts y \<Longrightarrow> reg_ok td x \<Longrightarrow> cond64 c x y \<Longrightarrow> reg_ok ts' y \<and> reg_ok td' x"
    and "reg_ok fs y \<Longrightarrow> reg_ok fd x \<Longrightarrow> \<not> cond64 c x y \<Longrightarrow> reg_ok fs' y \<and> reg_ok fd' x"
proof -
  show "reg_ok ts' y \<and> reg_ok td' x" if "reg_ok ts y" "reg_ok td x" "cond64 c x y"
  proof (cases "c = C_JEQ")
    case True
    then have "uu_reg_combine_min_max ts td = (ts', td')" and "x = y"
      using comb that(3) by (auto simp: reg_combine_min_max_def jmp_opcode_def cond64_def split: prod.splits)
    then show ?thesis using uu_reg_combine_min_max_sound that by blast
  next
    case False
    then have "ts' = ts" "td' = td"
      using comb by (auto simp: reg_combine_min_max_def jmp_opcode_def split: prod.splits bpf_cond.splits if_splits)
    then show ?thesis using that by simp
  qed
  show "reg_ok fs' y \<and> reg_ok fd' x" if "reg_ok fs y" "reg_ok fd x" "\<not> cond64 c x y"
  proof (cases "c = C_JNE")
    case True
    then have "uu_reg_combine_min_max fs fd = (fs', fd')" and "x = y"
      using comb that(3) by (auto simp: reg_combine_min_max_def jmp_opcode_def cond64_def split: prod.splits)
    then show ?thesis using uu_reg_combine_min_max_sound that by blast
  next
    case False
    then have "fs' = fs" "fd' = fd"
      using comb by (auto simp: reg_combine_min_max_def jmp_opcode_def split: prod.splits bpf_cond.splits if_splits)
    then show ?thesis using that by simp
  qed
qed

end
