(* ===== verification/Bpf_Live.thy ===== *)
theory Bpf_Live
  imports Bpf_Alu
begin

text \<open>
  Operand checks and liveness marks of \<^verbatim>\<open>kernel/bpf/verifier.c\<close>: which instructions use a
  register as a 64-bit value (\<^verbatim>\<open>is_reg64\<close>), how a read is propagated to the parent states
  (\<^verbatim>\<open>mark_reg_read\<close>) and the check every operand goes through (\<^verbatim>\<open>check_reg_arg\<close>).
\<close>

abbreviation REG_LIVE_READ32 :: u32 where "REG_LIVE_READ32 \<equiv> 0x1"
abbreviation REG_LIVE_READ64 :: u32 where "REG_LIVE_READ64 \<equiv> 0x2"
abbreviation REG_LIVE_READ :: u32 where "REG_LIVE_READ \<equiv> 0x3"
abbreviation REG_LIVE_WRITTEN :: u32 where "REG_LIVE_WRITTEN \<equiv> 0x4"
abbreviation REG_LIVE_DONE :: u32 where "REG_LIVE_DONE \<equiv> 0x8"

abbreviation DEF_NOT_SUBREG :: s32 where "DEF_NOT_SUBREG \<equiv> 0"
abbreviation BPF_PSEUDO_CALL :: nat where "BPF_PSEUDO_CALL \<equiv> 1"

datatype reg_arg_type = SRC_OP | DST_OP | DST_OP_NO_MARK

section \<open>Width of an operand\<close>

definition is_reg64 :: "bpf_insn \<Rightarrow> bpf_reg_type \<Rightarrow> reg_arg_type \<Rightarrow> bool" where
  "is_reg64 insn rtype t =
    (let c = insn_code insn; cls = BPF_CLASS c; op = BPF_OP c in
     if cls = BPF_JMP \<and> op = BPF_EXIT then True
     else if cls = BPF_JMP \<and> op = BPF_CALL then
       (if insn_src insn = BPF_PSEUDO_CALL then False else t = SRC_OP)
     else if cls = BPF_ALU64 \<or> cls = BPF_JMP \<or> cls = BPF_ALU \<and> op = BPF_END \<and> insn_imm insn = 64 then True
     else if cls = BPF_ALU \<or> cls = BPF_JMP32 then False
     else if cls = BPF_LDX then (if t \<noteq> SRC_OP then BPF_SIZE c = BPF_DW else True)
     else if cls = BPF_STX then (if rtype \<noteq> SCALAR_VALUE then True else BPF_SIZE c = BPF_DW)
     else if cls = BPF_LD then (if BPF_MODE c = BPF_IMM then True else t = SRC_OP)
     else True)"

definition insn_no_def :: "bpf_insn \<Rightarrow> bool" where
  "insn_no_def insn \<longleftrightarrow> BPF_CLASS (insn_code insn) \<in> {BPF_JMP, BPF_JMP32, BPF_STX, BPF_ST}"

text \<open>The register argument is only read for stores, which define nothing.\<close>

definition insn_has_def32 :: "bpf_insn \<Rightarrow> bool" where
  "insn_has_def32 insn \<longleftrightarrow> \<not> insn_no_def insn \<and> \<not> is_reg64 insn NOT_INIT DST_OP"

section \<open>Propagating reads\<close>

text \<open>
  The loop of \<^verbatim>\<open>mark_reg_read\<close> walks the chain of parents. Its first argument bounds the number
  of steps; \<open>None\<close> means that it was too small. The result has the updated parents and the number of
  marked ones.
\<close>

fun mark_read_walk :: "nat \<Rightarrow> bpf_reg_state list \<Rightarrow> bool \<Rightarrow> u32 \<Rightarrow> nat option \<Rightarrow> u32 \<Rightarrow> u32 \<Rightarrow>
    (errno + (bpf_reg_state list \<times> u32)) option" where
  "mark_read_walk n ps writes lv None flag cnt = Some (Inr (ps, cnt))"
| "mark_read_walk 0 ps writes lv (Some p) flag cnt = None"
| "mark_read_walk (Suc n) ps writes lv (Some p) flag cnt =
    (let par = ps ! p in
     if writes \<and> lv AND REG_LIVE_WRITTEN \<noteq> 0 then Some (Inr (ps, cnt))
     else if reg_live par AND REG_LIVE_DONE \<noteq> 0 then Some (Inl EFAULT)
     else if reg_live par AND REG_LIVE_READ = flag \<or> reg_live par AND REG_LIVE_READ64 \<noteq> 0
     then Some (Inr (ps, cnt))
     else let l1 = reg_live par OR flag;
              l2 = (if flag = REG_LIVE_READ64 then l1 AND NOT REG_LIVE_READ32 else l1)
          in mark_read_walk n (ps[p := par\<lparr>reg_live := l2\<rparr>]) True l2 (reg_parent par) flag (cnt + 1))"

text \<open>The chain of parents has no cycle, so the number of parent states bounds the walk.\<close>

definition mark_reg_read :: "bpf_verifier_env \<Rightarrow> bpf_reg_state \<Rightarrow> nat option \<Rightarrow> u32 \<Rightarrow> (errno + bpf_verifier_env) option" where
  "mark_reg_read env state par flag =
    (case mark_read_walk (length (parent_regs env)) (parent_regs env) (par = reg_parent state)
       (reg_live state) par flag 0 of
       None \<Rightarrow> None
     | Some (Inl e) \<Rightarrow> Some (Inl e)
     | Some (Inr (ps, cnt)) \<Rightarrow> Some (Inr (env\<lparr>parent_regs := ps,
         longest_mark_read_walk := max (longest_mark_read_walk env) cnt\<rparr>)))"

section \<open>Checking an operand\<close>

text \<open>Returns the environment and the register with its new \<^verbatim>\<open>subreg_def\<close>.\<close>

definition mark_insn_zext :: "bpf_verifier_env \<Rightarrow> bpf_reg_state \<Rightarrow> bpf_verifier_env \<times> bpf_reg_state" where
  "mark_insn_zext env reg =
    (let def_idx = subreg_def reg in
     if def_idx = DEF_NOT_SUBREG then (env, reg)
     else (env\<lparr>insn_aux_data := (insn_aux_data env)
             (def_idx - 1 := (insn_aux_data env (def_idx - 1))\<lparr>zext_dst := True\<rparr>)\<rparr>,
           reg\<lparr>subreg_def := DEF_NOT_SUBREG\<rparr>))"

definition set_reg_state :: "bpf_verifier_env \<Rightarrow> nat \<Rightarrow> bpf_reg_state \<Rightarrow> bpf_verifier_env" where
  "set_reg_state env regno r = set_cur_regs env ((cur_regs env)[regno := r])"

definition check_reg_arg :: "bpf_verifier_env \<Rightarrow> bpf_insn \<Rightarrow> nat \<Rightarrow> reg_arg_type \<Rightarrow> (errno + bpf_verifier_env) option" where
  "check_reg_arg env insn regno t =
    (if regno \<ge> MAX_BPF_REG then Some (Inl EINVAL)
     else let reg = cur_regs env ! regno; rw64 = is_reg64 insn (reg_type reg) t in
       if t = SRC_OP then
         if reg_type reg = NOT_INIT then Some (Inl EACCES)
         else if regno = BPF_REG_FP then Some (Inr env)
         else case (if rw64 then mark_insn_zext env reg else (env, reg)) of
           (env1, reg1) \<Rightarrow> mark_reg_read (set_reg_state env1 regno reg1) reg1 (reg_parent reg1)
             (if rw64 then REG_LIVE_READ64 else REG_LIVE_READ32)
       else if regno = BPF_REG_FP then Some (Inl EACCES)
       else let reg1 = reg\<lparr>reg_live := reg_live reg OR REG_LIVE_WRITTEN,
                           subreg_def := (if rw64 then DEF_NOT_SUBREG else insn_idx env + 1)\<rparr>;
                env1 = set_reg_state env regno reg1
            in Some (Inr (if t = DST_OP then set_cur_regs env1 (mark_reg_unknown env1 (cur_regs env1) regno) else env1)))"

section \<open>Marks of the parents\<close>

lemma and_three: "(l :: u32) AND 3 = of_bool (bit l 0) + 2 * of_bool (bit l 1)"
proof -
  have "l AND 3 = take_bit 2 l" by (simp add: take_bit_eq_mask mask_eq_exp_minus_1)
  also have "\<dots> = of_bool (bit l 0) + 2 * of_bool (bit l 1)"
    by (simp add: numeral_2_eq_2 take_bit_Suc bit_0 bit_Suc mod_2_eq_odd)
  finally show ?thesis .
qed

lemma live_bits:
  fixes l :: u32
  shows "l AND REG_LIVE_READ64 \<noteq> 0 \<longleftrightarrow> bit l 1" and "l AND REG_LIVE_WRITTEN \<noteq> 0 \<longleftrightarrow> bit l 2"
    and "l AND REG_LIVE_READ = REG_LIVE_READ32 \<longleftrightarrow> bit l 0 \<and> \<not> bit l 1"
    and "l AND REG_LIVE_READ = REG_LIVE_READ64 \<longleftrightarrow> bit l 1 \<and> \<not> bit l 0"
    and "l AND REG_LIVE_READ \<noteq> 0 \<longleftrightarrow> bit l 0 \<or> bit l 1"
  using and_exp_eq_0_iff_not_bit [of l 1] and_exp_eq_0_iff_not_bit [of l 2]
  by (simp_all add: and_three)

lemma live_or_bits:
  fixes l :: u32
  shows "bit (l OR REG_LIVE_READ32) n \<longleftrightarrow> bit l n \<or> n = 0"
    and "bit ((l OR REG_LIVE_READ64) AND NOT REG_LIVE_READ32) n \<longleftrightarrow> (bit l n \<or> n = 1) \<and> n \<noteq> 0"
  using bit_exp_iff [of 1 n, where 'a = u32] bit_imp_le_length [of l n]
  by (auto simp: bit_simps)

text \<open>
  A read of a register that a state did not write is a read of its parent. The marks are closed under
  this rule, which is why the walk may stop at a parent that has its mark already.
\<close>

definition read_le :: "bpf_reg_state \<Rightarrow> bpf_reg_state \<Rightarrow> bool" where
  "read_le r s \<longleftrightarrow>
    (reg_live r AND REG_LIVE_READ64 \<noteq> 0 \<longrightarrow> reg_live s AND REG_LIVE_READ64 \<noteq> 0) \<and>
    (reg_live r AND REG_LIVE_READ \<noteq> 0 \<longrightarrow> reg_live s AND REG_LIVE_READ \<noteq> 0)"

definition live_closed_at :: "bpf_reg_state list \<Rightarrow> nat \<Rightarrow> bool" where
  "live_closed_at ps i \<longleftrightarrow>
    (case reg_parent (ps ! i) of None \<Rightarrow> True
     | Some q \<Rightarrow> reg_live (ps ! i) AND REG_LIVE_WRITTEN \<noteq> 0 \<or> read_le (ps ! i) (ps ! q))"

definition live_closed :: "bpf_reg_state list \<Rightarrow> bool" where
  "live_closed ps \<longleftrightarrow> (\<forall>i<length ps. live_closed_at ps i)"

text \<open>States are created after their parents.\<close>

definition parents_before :: "bpf_reg_state list \<Rightarrow> bool" where
  "parents_before ps \<longleftrightarrow> (\<forall>i<length ps. case reg_parent (ps ! i) of None \<Rightarrow> True | Some q \<Rightarrow> q < i)"

definition read_flag :: "u32 \<Rightarrow> bool" where
  "read_flag f \<longleftrightarrow> f = REG_LIVE_READ32 \<or> f = REG_LIVE_READ64"

text \<open>The mark the walk sets.\<close>

definition add_read :: "u32 \<Rightarrow> u32 \<Rightarrow> u32" where
  "add_read l flag = (let l1 = l OR flag in if flag = REG_LIVE_READ64 then l1 AND NOT REG_LIVE_READ32 else l1)"

lemma add_read_bits:
  assumes "read_flag flag"
  shows "bit (add_read l flag) n \<longleftrightarrow> (bit l n \<or> (if flag = REG_LIVE_READ64 then n = 1 else n = 0)) \<and> (flag = REG_LIVE_READ64 \<longrightarrow> n \<noteq> 0)"
  using assms live_or_bits [of l n] by (auto simp: read_flag_def add_read_def)

lemmas read_le_bits = read_le_def live_bits

lemma read_le_refl [simp]: "read_le r r" and read_le_trans: "read_le r s \<Longrightarrow> read_le s t \<Longrightarrow> read_le r t"
  by (simp_all add: read_le_def)

lemma read_le_add: "read_flag flag \<Longrightarrow> read_le r (r\<lparr>reg_live := add_read (reg_live r) flag\<rparr>)"
  by (auto simp: read_le_bits add_read_bits)

lemma mark_read_walk_step:
  "mark_read_walk (Suc n) ps writes lv (Some p) flag cnt =
    (let par = ps ! p in
     if writes \<and> lv AND REG_LIVE_WRITTEN \<noteq> 0 then Some (Inr (ps, cnt))
     else if reg_live par AND REG_LIVE_DONE \<noteq> 0 then Some (Inl EFAULT)
     else if reg_live par AND REG_LIVE_READ = flag \<or> reg_live par AND REG_LIVE_READ64 \<noteq> 0 then Some (Inr (ps, cnt))
     else let l2 = add_read (reg_live par) flag
          in mark_read_walk n (ps[p := par\<lparr>reg_live := l2\<rparr>]) True l2 (reg_parent par) flag (cnt + 1))"
  by (simp add: add_read_def Let_def)

lemma mark_read_walk_end [simp]:
  "mark_read_walk n ps writes lv None flag cnt = Some (Inr (ps, cnt))" "mark_read_walk 0 ps writes lv (Some p) flag cnt = None"
  by (cases n) simp_all

lemma walk_cases:
  assumes "mark_read_walk n ps writes lv par flag cnt = Some (Inr (ps', cnt'))"
  obtains (top) "par = None" "ps' = ps"
    | (written) p where "par = Some p" "writes" "lv AND REG_LIVE_WRITTEN \<noteq> 0" "ps' = ps"
    | (marked) p where "par = Some p" "reg_live (ps ! p) AND REG_LIVE_READ = flag \<or> reg_live (ps ! p) AND REG_LIVE_READ64 \<noteq> 0" "ps' = ps"
    | (up) p m where "par = Some p" "n = Suc m" "\<not> (writes \<and> lv AND REG_LIVE_WRITTEN \<noteq> 0)"
        "\<not> (reg_live (ps ! p) AND REG_LIVE_READ = flag \<or> reg_live (ps ! p) AND REG_LIVE_READ64 \<noteq> 0)"
        "mark_read_walk m (ps[p := (ps ! p)\<lparr>reg_live := add_read (reg_live (ps ! p)) flag\<rparr>]) True
          (add_read (reg_live (ps ! p)) flag) (reg_parent (ps ! p)) flag (cnt + 1) = Some (Inr (ps', cnt'))"
proof (cases par)
  case None
  with assms show ?thesis using top by simp
next
  case (Some p)
  with assms obtain m where m: "n = Suc m" by (cases n) auto
  show ?thesis
    using assms written [OF Some] marked [OF Some] up [OF Some m] unfolding Some m mark_read_walk_step Let_def
    by (simp only: split: if_split_asm) auto
qed

lemma parents_before_update:
  "parents_before ps \<Longrightarrow> parents_before (ps[p := (ps ! p)\<lparr>reg_live := l\<rparr>])"
  by (cases "p < length ps") (auto simp: parents_before_def nth_list_update)

lemma walk_mono:
  assumes "mark_read_walk n ps writes lv par flag cnt = Some (Inr (ps', cnt'))" and "read_flag flag"
  shows "length ps' = length ps \<and> (\<forall>i<length ps. read_le (ps ! i) (ps' ! i) \<and> (ps' ! i)\<lparr>reg_live := reg_live (ps ! i)\<rparr> = ps ! i)"
  using assms(1)
proof (induction n arbitrary: ps writes lv par cnt)
  case (Suc n)
  from Suc.prems show ?case
  proof (cases rule: walk_cases)
    case (up p m)
    let ?ps = "ps[p := (ps ! p)\<lparr>reg_live := add_read (reg_live (ps ! p)) flag\<rparr>]"
    have IH: "length ps' = length ps" "\<And>i. i < length ps \<Longrightarrow> read_le (?ps ! i) (ps' ! i) \<and> (ps' ! i)\<lparr>reg_live := reg_live (?ps ! i)\<rparr> = ?ps ! i"
      using Suc.IH [of ?ps] up by auto
    have s: "read_le (ps ! i) (?ps ! i)" if "i < length ps" for i
      using that read_le_add [OF assms(2), of "ps ! p"] by (cases "i = p") simp_all
    have "(ps' ! i)\<lparr>reg_live := reg_live (ps ! i)\<rparr> = ps ! i" if "i < length ps" for i
      using IH(2) [OF that] that by (cases "i = p") (auto dest: arg_cong [of _ _ "reg_live_update (\<lambda>_. reg_live (ps ! i))"])
    then show ?thesis using IH s read_le_trans by blast
  qed auto
qed (auto elim: walk_cases)

lemma walk_terminates:
  assumes "parents_before ps" and "p < length ps" and "p < n"
  shows "mark_read_walk n ps writes lv (Some p) flag cnt \<noteq> None"
  using assms
proof (induction n arbitrary: ps writes lv p cnt)
  case (Suc n)
  let ?ps = "\<lambda>l. ps[p := (ps ! p)\<lparr>reg_live := l\<rparr>]"
  have "mark_read_walk n (?ps l) True l (reg_parent (ps ! p)) flag c \<noteq> None" for l c
  proof (cases "reg_parent (ps ! p)")
    case (Some q)
    then have "q < p" using Suc.prems(1,2) by (auto simp: parents_before_def split: option.splits)
    then show ?thesis using Some Suc.IH [OF parents_before_update [OF Suc.prems(1)], of q p l] Suc.prems by simp
  qed simp
  then show ?case unfolding mark_read_walk_step Let_def by auto
qed simp

lemma walk_closed:
  assumes "mark_read_walk n ps writes lv par flag cnt = Some (Inr (ps', cnt'))" and "read_flag flag"
    and "parents_before ps" and "\<And>p. par = Some p \<Longrightarrow> p < length ps"
    and "\<And>i. i < length ps \<Longrightarrow> i \<notin> E \<Longrightarrow> live_closed_at ps i"
    and "\<And>i. i \<in> E \<Longrightarrow> reg_parent (ps ! i) = par \<and> writes \<and> lv = reg_live (ps ! i) \<and>
      (lv AND REG_LIVE_READ64 \<noteq> 0 \<longrightarrow> flag = REG_LIVE_READ64)"
  shows "live_closed ps'"
  using assms(1,3-)
proof (induction n arbitrary: ps writes lv par cnt E)
  case (Suc n)
  have all: "live_closed ps" if "\<And>i. i \<in> E \<Longrightarrow> live_closed_at ps i"
    using that Suc.prems(4) unfolding live_closed_def by blast
  from Suc.prems(1) show ?case
  proof (cases rule: walk_cases)
    case top
    have "live_closed_at ps i" if "i \<in> E" for i using Suc.prems(5) [OF that] top by (simp add: live_closed_at_def)
    then show ?thesis using all top by blast
  next
    case (written p)
    have "live_closed_at ps i" if "i \<in> E" for i using Suc.prems(5) [OF that] written by (simp add: live_closed_at_def)
    then show ?thesis using all written by blast
  next
    case (marked p)
    have "live_closed_at ps i" if "i \<in> E" for i
      using marked(1,2) Suc.prems(5) [OF that] assms(2) by (auto simp: live_closed_at_def read_flag_def read_le_bits)
    then show ?thesis using all marked by blast
  next
    case (up p m)
    let ?l = "add_read (reg_live (ps ! p)) flag" let ?ps = "ps[p := (ps ! p)\<lparr>reg_live := ?l\<rparr>]"
    have p: "p < length ps" using Suc.prems(3) up(1) by blast
    have le: "read_le (ps ! q) (?ps ! q)" for q
      using read_le_add [OF assms(2), of "ps ! p"] p by (cases "q = p") simp_all
    show ?thesis
    proof (rule Suc.IH [of ?ps True ?l "reg_parent (ps ! p)" "cnt + 1" "{p}"])
      show "mark_read_walk n ?ps True ?l (reg_parent (ps ! p)) flag (cnt + 1) = Some (Inr (ps', cnt'))" using up by simp
      show "parents_before ?ps" by (rule parents_before_update [OF Suc.prems(2)])
      show "q < length ?ps" if "reg_parent (ps ! p) = Some q" for q
        using that Suc.prems(2) p by (auto simp: parents_before_def)
      show "reg_parent (?ps ! i) = reg_parent (ps ! p) \<and> True \<and> ?l = reg_live (?ps ! i) \<and>
          (?l AND REG_LIVE_READ64 \<noteq> 0 \<longrightarrow> flag = REG_LIVE_READ64)" if "i \<in> {p}" for i
        using that p up(4) assms(2) by (auto simp: live_bits add_read_bits)
      show "live_closed_at ?ps i" if i: "i < length ?ps" "i \<notin> {p}" for i
      proof (cases "i \<in> E")
        case False
        then have "live_closed_at ps i" using Suc.prems(4) i by simp
        then show ?thesis using i le read_le_trans unfolding live_closed_at_def
          by (cases "reg_parent (ps ! i)") (simp_all, metis)
      next
        case True
        have "read_le (ps ! i) ((ps ! p)\<lparr>reg_live := ?l\<rparr>)"
          using Suc.prems(5) [OF True] assms(2) by (auto simp: read_le_bits add_read_bits read_flag_def)
        then show ?thesis using Suc.prems(5) [OF True] i up(1) p by (simp add: live_closed_at_def)
      qed
    qed
  qed
next
  case 0
  then have par: "par = None" "ps' = ps" by (cases par; simp)+
  have "live_closed_at ps i" if "i \<in> E" for i using 0(5) [OF that] par by (simp add: live_closed_at_def)
  then show ?case using 0(4) par unfolding live_closed_def by blast
qed

lemma walk_marks:
  assumes "mark_read_walk n ps writes lv (Some p) flag cnt = Some (Inr (ps', cnt'))" and "read_flag flag"
    and "\<not> (writes \<and> lv AND REG_LIVE_WRITTEN \<noteq> 0)" and "p < length ps"
  shows "reg_live (ps' ! p) AND REG_LIVE_READ \<noteq> 0 \<and> (flag = REG_LIVE_READ64 \<longrightarrow> reg_live (ps' ! p) AND REG_LIVE_READ64 \<noteq> 0)"
  using assms(1)
proof (cases rule: walk_cases)
  case (marked q)
  then show ?thesis using assms(2) by (auto simp: live_bits read_flag_def)
next
  case (up q m)
  let ?r = "(ps ! p)\<lparr>reg_live := add_read (reg_live (ps ! p)) flag\<rparr>"
  have "read_le ?r (ps' ! p)" using walk_mono [OF up(5) assms(2)] up(1) assms(4) by auto
  then show ?thesis using assms(2) by (auto simp: read_le_bits add_read_bits read_flag_def)
qed (use assms(3) in auto)

lemma mark_reg_read_total:
  assumes "parents_before (parent_regs env)" and "\<And>p. par = Some p \<Longrightarrow> p < length (parent_regs env)"
  shows "mark_reg_read env state par flag \<noteq> None"
  using assms walk_terminates [OF assms(1), of _ "length (parent_regs env)"]
  by (cases par) (auto simp: mark_reg_read_def split: option.splits sum.splits)

lemma mark_reg_read_walk:
  assumes "mark_reg_read env state par flag = Some (Inr env')"
  obtains cnt where "mark_read_walk (length (parent_regs env)) (parent_regs env) (par = reg_parent state) (reg_live state) par flag 0
      = Some (Inr (parent_regs env', cnt))"
  using assms by (auto simp: mark_reg_read_def split: option.splits sum.splits)

lemma mark_reg_read_closed:
  assumes "mark_reg_read env state par flag = Some (Inr env')" and "read_flag flag"
    and "parents_before (parent_regs env)" and "\<And>p. par = Some p \<Longrightarrow> p < length (parent_regs env)" and "live_closed (parent_regs env)"
  shows "live_closed (parent_regs env')"
  by (rule mark_reg_read_walk [OF assms(1)], rule walk_closed [OF _ assms(2,3,4), where E = "{}"])
    (use assms(5) in \<open>simp_all add: live_closed_def\<close>)

lemma parents_before_frame:
  assumes "parents_before ps" and "length ps' = length ps" and "\<forall>i<length ps. (ps' ! i)\<lparr>reg_live := reg_live (ps ! i)\<rparr> = ps ! i"
  shows "parents_before ps'"
proof -
  have "reg_parent (ps' ! i) = reg_parent (ps ! i)" if "i < length ps" for i
    using arg_cong [of _ _ reg_parent, OF assms(3) [rule_format, OF that]] by simp
  then show ?thesis using assms(1,2) by (simp add: parents_before_def)
qed

text \<open>The operand check keeps the chain of parents in order and the marks closed.\<close>

definition live_ok :: "bpf_verifier_env \<Rightarrow> bool" where
  "live_ok env \<longleftrightarrow> parents_before (parent_regs env) \<and> live_closed (parent_regs env) \<and>
    (\<forall>r \<in> set (cur_regs env). case reg_parent r of None \<Rightarrow> True | Some p \<Rightarrow> p < length (parent_regs env))"

lemma parent_regs_set [simp]:
  "parent_regs (set_cur_regs env rs) = parent_regs env" "parent_regs (set_reg_state env i r) = parent_regs env"
  "cur_regs (set_cur_regs env rs) = rs" "cur_regs (set_reg_state env i r) = (cur_regs env)[i := r]"
  by (simp_all add: set_cur_regs_def set_reg_state_def cur_regs_def)

lemma live_ok_frame:
  assumes "live_ok env" and "parent_regs env' = parent_regs env"
    and "set (map reg_parent (cur_regs env')) \<subseteq> set (map reg_parent (cur_regs env))"
  shows "live_ok env'"
proof -
  have "\<exists>s\<in>set (cur_regs env). reg_parent s = reg_parent r" if "r \<in> set (cur_regs env')" for r
    using assms(3) that by force
  then show ?thesis using assms(1,2) unfolding live_ok_def by metis
qed

lemma live_ok_set_reg:
  assumes "live_ok env" and "parent_regs env' = parent_regs env" and "cur_regs env' = (cur_regs env)[i := r]"
    and "reg_parent r = reg_parent (cur_regs env ! i)"
  shows "live_ok env'"
proof (rule live_ok_frame [OF assms(1,2)])
  have "map reg_parent (cur_regs env') = map reg_parent (cur_regs env)"
    unfolding assms(3) by (metis assms(4) list_update_id map_update)
  then show "set (map reg_parent (cur_regs env')) \<subseteq> set (map reg_parent (cur_regs env))" by simp
qed

lemma mark_insn_zext_frame:
  assumes "mark_insn_zext env reg = (env', reg')"
  shows "cur_regs env' = cur_regs env \<and> parent_regs env' = parent_regs env \<and> reg_parent reg' = reg_parent reg"
  using assms by (auto simp: mark_insn_zext_def Let_def cur_regs_def split: if_splits)

lemma live_ok_read:
  assumes "live_ok env" and "r \<in> set (cur_regs env)" and "read_flag flag"
  shows "mark_reg_read env r (reg_parent r) flag \<noteq> None"
    and "mark_reg_read env r (reg_parent r) flag = Some (Inr env') \<Longrightarrow> live_ok env'"
proof -
  have p: "p < length (parent_regs env)" if "reg_parent r = Some p" for p
    using assms(1,2) that by (fastforce simp: live_ok_def split: option.splits)
  show "mark_reg_read env r (reg_parent r) flag \<noteq> None"
    by (rule mark_reg_read_total) (use assms(1) p in \<open>simp_all add: live_ok_def\<close>)
  assume run: "mark_reg_read env r (reg_parent r) flag = Some (Inr env')"
  obtain cnt where w: "mark_read_walk (length (parent_regs env)) (parent_regs env) (reg_parent r = reg_parent r) (reg_live r) (reg_parent r) flag 0
      = Some (Inr (parent_regs env', cnt))" by (rule mark_reg_read_walk [OF run])
  note m = walk_mono [OF w assms(3)]
  have "cur_regs env' = cur_regs env" using run by (auto simp: mark_reg_read_def cur_regs_def split: option.splits sum.splits)
  then show "live_ok env'"
    using mark_reg_read_closed [OF run assms(3) _ p] parents_before_frame [of "parent_regs env" "parent_regs env'"] m assms(1)
    unfolding live_ok_def conjunct1 [OF m] by simp
qed

lemma check_reg_arg_live:
  assumes ok: "live_ok env" and len: "length (cur_regs env) = MAX_BPF_REG"
  shows "check_reg_arg env insn n t \<noteq> None" and "check_reg_arg env insn n t = Some (Inr env') \<Longrightarrow> live_ok env'"
proof -
  have src: "check_reg_arg env insn n SRC_OP \<noteq> None \<and> (check_reg_arg env insn n SRC_OP = Some (Inr env') \<longrightarrow> live_ok env')"
  proof (cases "n < MAX_BPF_REG \<and> reg_type (cur_regs env ! n) \<noteq> NOT_INIT \<and> n \<noteq> BPF_REG_FP")
    case True
    let ?w = "is_reg64 insn (reg_type (cur_regs env ! n)) SRC_OP"
    obtain e r where z: "(if ?w then mark_insn_zext env (cur_regs env ! n) else (env, cur_regs env ! n)) = (e, r)" by force
    let ?e = "set_reg_state e n r" and ?f = "if ?w then REG_LIVE_READ64 else REG_LIVE_READ32"
    have fr: "cur_regs e = cur_regs env \<and> parent_regs e = parent_regs env \<and> reg_parent r = reg_parent (cur_regs env ! n)"
      using z mark_insn_zext_frame [of env "cur_regs env ! n" e r] by (auto split: if_splits)
    have "live_ok ?e" by (rule live_ok_set_reg [OF ok, of _ n r]) (use fr in simp_all)
    moreover have "r \<in> set (cur_regs ?e)" using True fr len by (simp add: set_update_memI)
    moreover have "read_flag ?f" by (simp add: read_flag_def)
    ultimately have "mark_reg_read ?e r (reg_parent r) ?f \<noteq> None \<and> (mark_reg_read ?e r (reg_parent r) ?f = Some (Inr env') \<longrightarrow> live_ok env')"
      using live_ok_read by blast
    moreover have "check_reg_arg env insn n SRC_OP = mark_reg_read ?e r (reg_parent r) ?f"
      using True z by (simp add: check_reg_arg_def Let_def)
    ultimately show ?thesis by simp
  next
    case False
    then show ?thesis using ok by (auto simp: check_reg_arg_def Let_def)
  qed
  have dst: "check_reg_arg env insn n t \<noteq> None \<and> (check_reg_arg env insn n t = Some (Inr env') \<longrightarrow> live_ok env')" if "t \<noteq> SRC_OP"
  proof (cases "n < MAX_BPF_REG \<and> n \<noteq> BPF_REG_FP")
    case True
    have "reg_parent (uu_mark_reg_unknown e r) = reg_parent r" for e r
      by (simp add: uu_mark_reg_unknown_def uu_mark_reg_unbounded_def)
    then have fr: "parent_regs env' = parent_regs env \<and> (\<exists>r. cur_regs env' = (cur_regs env)[n := r] \<and> reg_parent r = reg_parent (cur_regs env ! n))"
      if "check_reg_arg env insn n t = Some (Inr env')"
      using that True \<open>t \<noteq> SRC_OP\<close> len
      by (auto simp: check_reg_arg_def Let_def mark_reg_unknown_def split: if_splits intro!: exI)
    have "live_ok env'" if "check_reg_arg env insn n t = Some (Inr env')" using fr [OF that] live_ok_set_reg [OF ok] by blast
    moreover have "check_reg_arg env insn n t \<noteq> None" using True that by (simp add: check_reg_arg_def Let_def)
    ultimately show ?thesis by blast
  next
    case False
    then show ?thesis using that by (auto simp: check_reg_arg_def Let_def)
  qed
  show "check_reg_arg env insn n t \<noteq> None" "check_reg_arg env insn n t = Some (Inr env') \<Longrightarrow> live_ok env'"
    using src dst by (cases "t = SRC_OP"; blast)+
qed

end
