(* ===== verification/Bpf_Mem.thy ===== *)
theory Bpf_Mem
  imports Bpf_Reg
begin

text \<open>
  The checks of \<^verbatim>\<open>kernel/bpf/verifier.c\<close> on accesses through a pointer with a variable offset:
  \<^verbatim>\<open>__check_mem_access\<close>, \<^verbatim>\<open>check_mem_region_access\<close>,
  \<^verbatim>\<open>check_map_access\<close>, \<^verbatim>\<open>check_packet_access\<close> and
  \<^verbatim>\<open>check_flow_keys_access\<close>. The lemmas show that an accepted access stays inside the object for
  every value the variable offset can have.
\<close>

section \<open>The checks\<close>

abbreviation BPF_MAX_VAR_OFF :: u64 where "BPF_MAX_VAR_OFF \<equiv> 0x20000000"

definition map_value_has_spin_lock :: "bpf_map \<Rightarrow> bool" where
  "map_value_has_spin_lock mp \<longleftrightarrow> 0 \<le>s spin_lock_off mp"

definition uu_check_mem_access :: "s32 \<Rightarrow> s32 \<Rightarrow> u32 \<Rightarrow> bool \<Rightarrow> errno + unit" where
  "uu_check_mem_access off len mem_size zero_size_allowed =
    (let size_ok = (0 <s len \<or> len = 0 \<and> zero_size_allowed)
     in if 0 \<le>s off \<and> size_ok \<and> (scast off + scast len :: u64) \<le> ucast mem_size then Inr () else Inl EACCES)"

definition check_mem_region_access :: "bpf_reg_state \<Rightarrow> s32 \<Rightarrow> s32 \<Rightarrow> u32 \<Rightarrow> bool \<Rightarrow> errno + unit" where
  "check_mem_region_access reg off len mem_size zero_size_allowed =
    (let lo = smin_value reg + scast off in
     if smin_value reg <s 0 \<and>
        (smin_value reg = S64_MIN \<or> lo \<noteq> scast (ucast lo :: s32) \<or> lo <s 0)
     then Inl EACCES
     else case uu_check_mem_access (ucast lo) len mem_size zero_size_allowed of
       Inl e \<Rightarrow> Inl e
     | Inr _ \<Rightarrow>
         if umax_value reg \<ge> BPF_MAX_VAR_OFF then Inl EACCES
         else uu_check_mem_access (ucast (umax_value reg + scast off)) len mem_size zero_size_allowed)"

definition check_map_access :: "bpf_map \<Rightarrow> bpf_reg_state \<Rightarrow> s32 \<Rightarrow> s32 \<Rightarrow> bool \<Rightarrow> errno + unit" where
  "check_map_access mp reg off len zero_size_allowed =
    (case check_mem_region_access reg off len (value_size mp) zero_size_allowed of
       Inl e \<Rightarrow> Inl e
     | Inr _ \<Rightarrow>
         if map_value_has_spin_lock mp
         then let lock = (spin_lock_off mp :: u32)
              in if smin_value reg + scast off < ucast lock + 4 \<and>
                    ucast lock < umax_value reg + scast off + scast len
                 then Inl EACCES else Inr ()
         else Inr ())"

text \<open>The range of a packet pointer is the low half of the union's widest member.\<close>

definition reg_range :: "bpf_reg_state \<Rightarrow> u16" where
  "reg_range reg = ucast (reg_raw reg)"

definition check_packet_access :: "u32 \<Rightarrow> bpf_reg_state \<Rightarrow> s32 \<Rightarrow> s32 \<Rightarrow> bool \<Rightarrow> errno + u32" where
  "check_packet_access max_pkt_offset reg off len zero_size_allowed =
    (if smin_value reg <s 0 then Inl EACCES
     else case uu_check_mem_access off len (ucast (reg_range reg)) zero_size_allowed of
       Inl e \<Rightarrow> Inl e
     | Inr _ \<Rightarrow> Inr (max max_pkt_offset (ucast (scast off + umax_value reg + scast len - 1))))"

text \<open>\<^verbatim>\<open>struct bpf_flow_keys\<close> has 56 bytes.\<close>

definition check_flow_keys_access :: "s32 \<Rightarrow> s32 \<Rightarrow> errno + unit" where
  "check_flow_keys_access off len =
    (if len <s 0 \<or> off <s 0 \<or> (scast off + scast len :: u64) > 56 then Inl EACCES else Inr ())"

section \<open>Accepted accesses stay inside the object\<close>

lemma uint_scast_nonneg: "0 \<le> sint (w :: s32) \<Longrightarrow> uint (scast w :: u64) = sint w"
  using sint_nonneg_uint [of "scast w :: u64"] by (simp add: sint_scast_64)

lemma small_sum:
  assumes "0 \<le> sint (a :: s32)" and "0 \<le> sint (b :: s32)"
  shows "uint (scast a + scast b :: u64) = sint a + sint b"
  using assms uint_plus_if' [of "scast a :: u64" "scast b"] sint_lt [of a] sint_lt [of b]
  by (simp add: uint_scast_nonneg)

lemma uu_check_mem_access_ok:
  assumes "uu_check_mem_access off len mem_size z = Inr ()"
  shows "0 \<le> sint off" and "0 \<le> sint len" and "sint off + sint len \<le> uint mem_size"
proof -
  have "0 \<le>s off" "0 \<le>s len" and le: "(scast off + scast len :: u64) \<le> ucast mem_size"
    using assms by (auto simp: uu_check_mem_access_def Let_def word_order_int split: if_splits)
  then show 1: "0 \<le> sint off" "0 \<le> sint len" by (simp_all add: word_sle_eq)
  show "sint off + sint len \<le> uint mem_size"
    using le small_sum [OF 1] by (simp add: word_le_def uint_ucast_64)
qed

text \<open>Truncating a sum to 32 bits and finding it non-negative means that it did not wrap.\<close>

lemma truncated_sum:
  fixes a :: u64 and off :: s32
  assumes "0 \<le> sint a" and "sint a < 2 ^ 29" and "0 \<le> sint (ucast (a + scast off) :: s32)"
  shows "sint (ucast (a + scast off) :: s32) = sint a + sint off"
proof -
  have "sint (ucast (a + scast off) :: s32) = signed_take_bit 31 (sint (a + scast off))"
    by (simp add: signed_ucast_eq uint_sint signed_take_bit_take_bit)
  also have "sint (a + scast off) = sint a + sint off"
    using sint_add_wrap [of a "scast off"] assms(1,2) sint_ge [of off] sint_lt [of off]
    by (simp add: sint_scast_64)
  also have "signed_take_bit 31 (sint a + sint off) =
      (if sint a + sint off < - (2 ^ 31) then sint a + sint off + 2 * 2 ^ 31
       else if 2 ^ 31 \<le> sint a + sint off then sint a + sint off - 2 * 2 ^ 31 else sint a + sint off)"
    using assms(1,2) sint_ge [of off] sint_lt [of off] by (intro signed_take_bit_wrap) simp_all
  finally show ?thesis
    using assms sint_ge [of off] sint_lt [of off] by (simp split: if_splits)
qed

lemma exact_sum:
  fixes a :: u64 and off :: s32
  assumes "a + scast off = scast (ucast (a + scast off) :: s32)" and "0 \<le> sint (a + scast off)"
  shows "sint (ucast (a + scast off) :: s32) = sint a + sint off"
proof -
  define c :: s32 where "c = ucast (a + scast off)"
  have "sint (a + scast off) = sint c"
    using arg_cong [OF assms(1), of sint] by (simp add: c_def sint_scast_64)
  moreover have "sint c < 2 ^ 31" using sint_lt [of c] by simp
  ultimately have "sint (a + scast off) = sint a + sint off" if "0 \<le> sint c"
    using that sint_add_wrap [of a "scast off"] sint_ge [of a] sint_lt [of a] sint_ge [of off] sint_lt [of off]
    by (simp add: sint_scast_64 split: if_splits)
  with assms(2) \<open>sint (a + scast off) = sint c\<close> show ?thesis by (simp flip: c_def)
qed

lemma check_mem_region_access_sound:
  assumes acc: "check_mem_region_access reg off len mem_size z = Inr ()" and x: "bounds64 reg x"
  shows "0 \<le> uint x + sint off" and "0 \<le> sint len" and "uint x + sint off + sint len \<le> uint mem_size"
    and "sint (smin_value reg) + sint off \<le> uint x + sint off" and "0 \<le> sint (smin_value reg) + sint off"
    and "uint (umax_value reg) < 2 ^ 29" and "uint (umax_value reg) + sint off + sint len \<le> uint mem_size"
proof -
  define lo where "lo = smin_value reg + scast off"
  define hi where "hi = umax_value reg + scast off"
  have neg: "smin_value reg <s 0 \<Longrightarrow> lo = scast (ucast lo :: s32) \<and> \<not> lo <s 0"
    and c1: "uu_check_mem_access (ucast lo) len mem_size z = Inr ()"
    and mx: "umax_value reg < BPF_MAX_VAR_OFF"
    and c2: "uu_check_mem_access (ucast hi) len mem_size z = Inr ()"
    using acc by (auto simp: check_mem_region_access_def Let_def lo_def hi_def not_le split: if_splits sum.splits)
  show m: "uint (umax_value reg) < 2 ^ 29" using mx by (simp add: word_less_def)
  have b: "uint x \<le> uint (umax_value reg)" "sint (smin_value reg) \<le> sint x"
    using x by (simp_all add: bounds64_def word_le_def word_sle_eq)
  have sx: "sint x = uint x" and su: "sint (umax_value reg) = uint (umax_value reg)"
    using b m by (simp_all add: sint_uint64)
  have hi: "sint (ucast hi :: s32) = uint (umax_value reg) + sint off"
    using truncated_sum [of "umax_value reg" off] m su uu_check_mem_access_ok(1) [OF c2] by (simp add: hi_def)
  have lo: "sint (ucast lo :: s32) = sint (smin_value reg) + sint off"
  proof (cases "smin_value reg <s 0")
    case True
    then have "lo = scast (ucast lo :: s32)" "0 \<le> sint lo" using neg by (simp_all add: word_order_int)
    then show ?thesis using exact_sum [of "smin_value reg" off] by (simp add: lo_def)
  next
    case False
    then have "0 \<le> sint (smin_value reg)" "sint (smin_value reg) < 2 ^ 29"
      using b m sx by (simp_all add: word_order_int)
    then show ?thesis using truncated_sum [of "smin_value reg" off] uu_check_mem_access_ok(1) [OF c1] by (simp add: lo_def)
  qed
  show "0 \<le> sint len" by (rule uu_check_mem_access_ok(2) [OF c2])
  show l: "0 \<le> sint (smin_value reg) + sint off" using uu_check_mem_access_ok(1) [OF c1] lo by simp
  show "sint (smin_value reg) + sint off \<le> uint x + sint off" using b sx by simp
  with l show "0 \<le> uint x + sint off" by simp
  show h: "uint (umax_value reg) + sint off + sint len \<le> uint mem_size"
    using uu_check_mem_access_ok(3) [OF c2] hi by simp
  then show "uint x + sint off + sint len \<le> uint mem_size" using b by simp
qed

lemma uint_sum_nonneg:
  fixes a :: u64 and w :: s32
  assumes "0 \<le> sint a + sint w" and "sint a + sint w < 2 ^ 63"
  shows "uint (a + scast w) = sint a + sint w" and "sint (a + scast w) = sint a + sint w"
proof -
  show *: "sint (a + scast w) = sint a + sint w"
    using sint_add_wrap [of a "scast w"] assms by (simp add: sint_scast_64)
  show "uint (a + scast w) = sint a + sint w"
    using sint_nonneg_uint [of "a + scast w"] * assms by simp
qed

lemma check_map_access_sound:
  assumes acc: "check_map_access mp reg off len z = Inr ()" and x: "bounds64 reg x"
  shows "0 \<le> uint x + sint off" and "uint x + sint off + sint len \<le> uint (value_size mp)"
    and "map_value_has_spin_lock mp \<Longrightarrow>
      uint x + sint off + sint len \<le> sint (spin_lock_off mp) \<or> sint (spin_lock_off mp) + 4 \<le> uint x + sint off"
proof -
  have reg: "check_mem_region_access reg off len (value_size mp) z = Inr ()"
    using acc by (auto simp: check_map_access_def Let_def split: sum.splits if_splits)
  note r = check_mem_region_access_sound [OF reg x]
  show "0 \<le> uint x + sint off" "uint x + sint off + sint len \<le> uint (value_size mp)" using r by simp_all
  assume lock: "map_value_has_spin_lock mp"
  define l where "l = spin_lock_off mp"
  have small: "uint (value_size mp) < 2 ^ 32" using uint_lt2p [of "value_size mp"] by simp
  have l: "0 \<le> sint l" "sint l < 2 ^ 31" "uint l = sint l"
    using lock sint_lt [of l] sint_nonneg_uint [of l] by (simp_all add: map_value_has_spin_lock_def word_sle_eq l_def)
  have su: "sint (umax_value reg) = uint (umax_value reg)" using r(6) by (simp add: sint_uint64)
  have lo: "uint (smin_value reg + scast off) = sint (smin_value reg) + sint off"
    using r(3,4,5) small r(2) by (intro uint_sum_nonneg) simp_all
  have hi1: "sint (umax_value reg + scast off) = uint (umax_value reg) + sint off"
    using r(1,6,7) small r(2) x su
    by (subst uint_sum_nonneg(2)) (simp_all add: bounds64_def word_le_def)
  have hi: "uint (umax_value reg + scast off + scast len) = uint (umax_value reg) + sint off + sint len"
    using hi1 r(1,2,7) small x by (subst uint_sum_nonneg(1)) (simp_all add: bounds64_def word_le_def)
  have lock4: "uint (ucast l + 4 :: u64) = sint l + 4"
    using uint_plus_if' [of "ucast l :: u64" 4] l by (simp add: uint_ucast_64)
  have "\<not> (smin_value reg + scast off < ucast l + 4 \<and> ucast l < umax_value reg + scast off + scast len)"
    using acc reg lock by (auto simp: check_map_access_def Let_def l_def split: if_splits)
  then have "sint l + 4 \<le> sint (smin_value reg) + sint off \<or> uint (umax_value reg) + sint off + sint len \<le> sint l"
    by (simp add: word_less_def lo hi lock4 uint_ucast_64 l(3) not_less)
  moreover have "uint x \<le> uint (umax_value reg)" using x by (simp add: bounds64_def word_le_def)
  ultimately show "uint x + sint off + sint len \<le> sint (spin_lock_off mp) \<or> sint (spin_lock_off mp) + 4 \<le> uint x + sint off"
    using r(4) by (auto simp: l_def)
qed

lemma check_packet_access_sound:
  assumes "check_packet_access m reg off len z = Inr m'"
  shows "0 \<le> sint off" and "sint off + sint len \<le> uint (reg_range reg)" and "m \<le> m'"
proof -
  have "uint (ucast (reg_range reg) :: u32) = uint (reg_range reg)" by (rule uint_up_ucast) (simp add: is_up)
  then show "0 \<le> sint off" "sint off + sint len \<le> uint (reg_range reg)" "m \<le> m'"
    using assms uu_check_mem_access_ok [of off len "ucast (reg_range reg)" z]
    by (auto simp: check_packet_access_def split: if_splits sum.splits)
qed

lemma check_flow_keys_access_sound:
  assumes "check_flow_keys_access off len = Inr ()"
  shows "0 \<le> sint off" and "0 \<le> sint len" and "sint off + sint len \<le> 56"
proof -
  show 1: "0 \<le> sint off" "0 \<le> sint len"
    using assms by (auto simp: check_flow_keys_access_def word_order_int split: if_splits)
  show "sint off + sint len \<le> 56"
    using assms small_sum [OF 1] by (auto simp: check_flow_keys_access_def word_less_def split: if_splits)
qed

end
