(* ===== verification/Bpf_Ptr.thy ===== *)
theory Bpf_Ptr
  imports Bpf_Branch Bpf_Mem
begin

text \<open>
  Arithmetic on pointers: \<^verbatim>\<open>adjust_ptr_min_max_vals\<close> of \<^verbatim>\<open>kernel/bpf/verifier.c\<close> with
  the checks and the speculation handling it calls. A pointer register stands for its base address plus
  a fixed and a variable offset; the lemmas show that an accepted addition or subtraction moves the
  pointer by the amount the interpreter adds or subtracts.

  The register operands of the C functions may be the same object: \<open>ptr_is_dst\<close> says that the
  pointer operand is the destination register, otherwise the offset operand is it (or, for an immediate,
  a register of its own).
\<close>

section \<open>Offsets\<close>

definition type_is_pkt_pointer :: "bpf_reg_type \<Rightarrow> bool" where
  "type_is_pkt_pointer t \<longleftrightarrow> t = PTR_TO_PACKET \<or> t = PTR_TO_PACKET_META"

definition reg_is_pkt_pointer :: "bpf_reg_state \<Rightarrow> bool" where
  "reg_is_pkt_pointer reg = type_is_pkt_pointer (reg_type reg)"

definition check_reg_sane_offset :: "bpf_reg_state \<Rightarrow> bool" where
  "check_reg_sane_offset reg =
    (let known = tnum_is_const (var_off reg); val = tn_value (var_off reg); smn = smin_value reg;
         roff = (scast (reg_off reg) :: s64) in
     if known \<and> (BPF_MAX_VAR_OFF \<le>s val \<or> val \<le>s - BPF_MAX_VAR_OFF) then False
     else if BPF_MAX_VAR_OFF \<le>s roff \<or> roff \<le>s - BPF_MAX_VAR_OFF then False
     else if smn = S64_MIN then False
     else if BPF_MAX_VAR_OFF \<le>s smn \<or> smn \<le>s - BPF_MAX_VAR_OFF then False
     else True)"

section \<open>Speculation\<close>

abbreviation MAX_BPF_STACK :: u32 where "MAX_BPF_STACK \<equiv> 512"
abbreviation BPF_COMPLEXITY_LIMIT_JMP_SEQ :: u32 where "BPF_COMPLEXITY_LIMIT_JMP_SEQ \<equiv> 8192"

definition retrieve_ptr_limit :: "bpf_verifier_env \<Rightarrow> bpf_reg_state \<Rightarrow> bool \<Rightarrow> alu_reason + u32" where
  "retrieve_ptr_limit env ptr mask_to_left =
    (let lim = (\<lambda>mx ptr_limit. if ptr_limit \<ge> mx then Inl REASON_LIMIT else Inr ptr_limit) in
     if reg_type ptr = PTR_TO_STACK then
       lim (MAX_BPF_STACK + (if mask_to_left then 1 else 0))
           (ucast (- (tn_value (var_off ptr) + scast (reg_off ptr))))
     else if reg_type ptr = PTR_TO_MAP_VALUE then
       lim (value_size (map_of_ptr env (reg_raw ptr)))
           (ucast ((if mask_to_left then smin_value ptr else umax_value ptr) + scast (reg_off ptr)))
     else Inl REASON_TYPE)"

text \<open>
  A failed push frees the current state and every pending one; the caller then gives up, so the
  result is \<open>None\<close>.
\<close>

definition push_stack :: "bpf_verifier_env \<Rightarrow> u32 \<Rightarrow> u32 \<Rightarrow> bool \<Rightarrow> bpf_verifier_env option" where
  "push_stack env idx prev_idx spec =
    (if \<not> kzalloc_ok env then None
     else let st = (cur_state env)\<lparr>st_speculative := st_speculative (cur_state env) \<or> spec\<rparr>;
              elem = \<lparr>elem_st = st, elem_insn_idx = idx, elem_prev_insn_idx = prev_idx\<rparr>;
              env1 = env\<lparr>stack_head := elem # stack_head env, stack_size := stack_size env + 1\<rparr>
          in if stack_size env1 > BPF_COMPLEXITY_LIMIT_JMP_SEQ then None else Some env1)"

text \<open>With an instruction, the pushed state forgets the registers the instruction uses.\<close>

definition sanitize_speculative_path ::
  "bpf_verifier_env \<Rightarrow> bpf_insn option \<Rightarrow> u32 \<Rightarrow> u32 \<Rightarrow> bpf_verifier_env option" where
  "sanitize_speculative_path env insn next_idx curr_idx =
    (case push_stack env next_idx curr_idx True of
       None \<Rightarrow> None
     | Some env1 \<Rightarrow> Some (case (insn, stack_head env1) of
         (Some i, e # es) \<Rightarrow>
           let rs = st_regs (elem_st e);
               rs1 = (if BPF_SRC (insn_code i) = BPF_K then mark_reg_unknown env rs (insn_dst i)
                      else mark_reg_unknown env (mark_reg_unknown env rs (insn_dst i)) (insn_src i))
           in env1\<lparr>stack_head := e\<lparr>elem_st := (elem_st e)\<lparr>st_regs := rs1\<rparr>\<rparr> # es\<rparr>
       | _ \<Rightarrow> env1))"

record bpf_sanitize_info =
  info_aux :: bpf_insn_aux_data
  mask_to_left :: bool

text \<open>
  The part of \<^verbatim>\<open>sanitize_ptr_alu\<close> before the label \<^verbatim>\<open>do_sim\<close>. The C parameter
  \<^verbatim>\<open>info\<close> is passed and returned; \<open>commit\<close> selects the auxiliary data to update.
\<close>

definition sanitize_ptr_mark :: "bpf_verifier_env \<Rightarrow> u8 \<Rightarrow> bpf_reg_state \<Rightarrow> bpf_reg_state \<Rightarrow> bool \<Rightarrow>
    bpf_sanitize_info \<Rightarrow> bool \<Rightarrow> alu_reason + (bpf_verifier_env \<times> bpf_sanitize_info)" where
  "sanitize_ptr_mark env opcode ptr off ptr_is_dst info commit =
    (let off_is_imm = tnum_is_const (var_off off); off_is_neg = (smin_value off <s 0) in
     if \<not> commit \<and> \<not> off_is_imm \<and> (smin_value off <s 0) \<noteq> (smax_value off <s 0) then Inl REASON_BOUNDS
     else let info1 = (if commit then info else info\<lparr>mask_to_left :=
              (opcode = BPF_ADD \<and> off_is_neg) \<or> (opcode = BPF_SUB \<and> \<not> off_is_neg)\<rparr>)
       in case retrieve_ptr_limit env ptr (mask_to_left info1) of
            Inl e \<Rightarrow> Inl e
          | Inr limit \<Rightarrow>
              if commit then
                let astate = ucast (alu_state (info_aux info1));
                    d = alu_limit (info_aux info1) - limit;
                    alimit = (if d <s 0 then - d else d)
                in case update_alu_sanitation_state (cur_aux env) astate alimit of
                     Inl e \<Rightarrow> Inl e
                   | Inr aux \<Rightarrow> Inr (set_cur_aux env aux, info1)
              else
                let astate = (if off_is_neg then BPF_ALU_NEG_VALUE else 0) OR
                             (if off_is_imm then BPF_ALU_IMMEDIATE else 0) OR
                             (if ptr_is_dst then BPF_ALU_SANITIZE_SRC else BPF_ALU_SANITIZE_DST);
                    env1 = (if \<not> off_is_imm then env\<lparr>explore_alu_limits := True\<rparr> else env)
                in case update_alu_sanitation_state (info_aux info1) astate limit of
                     Inl e \<Rightarrow> Inl e
                   | Inr aux \<Rightarrow> Inr (env1, info1\<lparr>info_aux := aux\<rparr>))"

text \<open>
  The part from \<^verbatim>\<open>do_sim\<close> on pushes a speculative path in which the destination holds the
  pointer. \<open>dst\<close> is the number of the destination register.
\<close>

definition sanitize_ptr_sim :: "bpf_verifier_env \<Rightarrow> nat \<Rightarrow> bpf_reg_state \<Rightarrow> bpf_reg_state \<Rightarrow> bool \<Rightarrow>
    bool \<Rightarrow> alu_reason + bpf_verifier_env" where
  "sanitize_ptr_sim env dst ptr off ptr_is_dst commit =
    (if commit \<or> tnum_is_const (var_off off) then Inr env
     else let regs = cur_regs env;
              env1 = (if \<not> ptr_is_dst then set_cur_regs env (regs[dst := ptr]) else env)
          in case sanitize_speculative_path env1 None (insn_idx env + 1) (insn_idx env) of
               None \<Rightarrow> Inl REASON_STACK
             | Some env2 \<Rightarrow> Inr (if \<not> ptr_is_dst then set_cur_regs env2 regs else env2))"

definition sanitize_ptr_alu :: "bpf_verifier_env \<Rightarrow> bpf_insn \<Rightarrow> bpf_reg_state \<Rightarrow> bpf_reg_state \<Rightarrow> bool \<Rightarrow>
    bpf_sanitize_info \<Rightarrow> bool \<Rightarrow> alu_reason + (bpf_verifier_env \<times> bpf_sanitize_info)" where
  "sanitize_ptr_alu env insn ptr off ptr_is_dst info commit =
    (if can_skip_alu_sanitation env insn then Inr (env, info)
     else case (if st_speculative (cur_state env) then Inr (env, info)
                else sanitize_ptr_mark env (BPF_OP (insn_code insn)) ptr off ptr_is_dst info commit) of
            Inl e \<Rightarrow> Inl e
          | Inr (env1, info1) \<Rightarrow>
              (case sanitize_ptr_sim env1 (insn_dst insn) ptr off ptr_is_dst commit of
                 Inl e \<Rightarrow> Inl e
               | Inr env2 \<Rightarrow> Inr (env2, info1)))"

definition check_stack_access_for_ptr_arithmetic :: "bpf_reg_state \<Rightarrow> s32 \<Rightarrow> errno + unit" where
  "check_stack_access_for_ptr_arithmetic reg off =
    (if \<not> tnum_is_const (var_off reg) then Inl EACCES
     else if 0 \<le>s off \<or> off <s - MAX_BPF_STACK then Inl EACCES
     else Inr ())"

definition sanitize_check_bounds :: "bpf_verifier_env \<Rightarrow> bpf_reg_state \<Rightarrow> errno + unit" where
  "sanitize_check_bounds env dst =
    (if bypass_spec_v1 env then Inr ()
     else if reg_type dst = PTR_TO_STACK then
       check_stack_access_for_ptr_arithmetic dst (ucast (scast (reg_off dst) + tn_value (var_off dst)))
     else if reg_type dst = PTR_TO_MAP_VALUE then
       (case check_map_access (map_of_ptr env (reg_raw dst)) dst (reg_off dst) 1 False of
          Inl _ \<Rightarrow> Inl EACCES | Inr _ \<Rightarrow> Inr ())
     else Inr ())"

section \<open>The transfer function\<close>

text \<open>The switch on the pointer type: does it allow arithmetic?\<close>

definition ptr_arith_rejected :: "bpf_reg_state \<Rightarrow> bool \<Rightarrow> s64 \<Rightarrow> u8 \<Rightarrow> bool" where
  "ptr_arith_rejected ptr known smin_val opcode =
    (if reg_type ptr = PTR_TO_MAP_VALUE_OR_NULL then True
     else if reg_type ptr = CONST_PTR_TO_MAP then \<not> (known \<and> smin_val = 0 \<and> opcode = BPF_ADD)
     else if reg_type ptr \<in> {PTR_TO_PACKET_END, PTR_TO_SOCKET, PTR_TO_SOCK_COMMON, PTR_TO_TCP_SOCK, PTR_TO_XDP_SOCK}
     then True
     else reg_type_may_be_null (reg_type ptr))"

text \<open>The fields both cases take over from the pointer when the offset is a constant that fits.\<close>

definition ptr_fixed_off :: "bpf_reg_state \<Rightarrow> bpf_reg_state \<Rightarrow> s64 \<Rightarrow> bpf_reg_state" where
  "ptr_fixed_off dst ptr noff = dst\<lparr>
     smin_value := smin_value ptr, smax_value := smax_value ptr,
     umin_value := umin_value ptr, umax_value := umax_value ptr,
     var_off := var_off ptr, reg_off := ucast noff, reg_raw := reg_raw ptr\<rparr>"

definition fits_s32 :: "s64 \<Rightarrow> bool" where
  "fits_s32 v \<longleftrightarrow> v = scast (ucast v :: s32)"

definition adjust_ptr_add :: "bpf_verifier_env \<Rightarrow> bpf_reg_state \<Rightarrow> bpf_reg_state \<Rightarrow> bpf_reg_state \<Rightarrow>
    bpf_verifier_env \<times> bpf_reg_state" where
  "adjust_ptr_add env dst ptr off =
    (let noff = scast (reg_off ptr) + smin_value off in
     if tnum_is_const (var_off off) \<and> fits_s32 noff then (env, ptr_fixed_off dst ptr noff)
     else
       let dst1 = (if signed_add_overflows (smin_value ptr) (smin_value off) \<or>
                      signed_add_overflows (smax_value ptr) (smax_value off)
                   then dst\<lparr>smin_value := S64_MIN, smax_value := S64_MAX\<rparr>
                   else dst\<lparr>smin_value := smin_value ptr + smin_value off,
                            smax_value := smax_value ptr + smax_value off\<rparr>);
           dst2 = (if umin_value ptr + umin_value off < umin_value ptr \<or>
                      umax_value ptr + umax_value off < umax_value ptr
                   then dst1\<lparr>umin_value := 0, umax_value := U64_MAX\<rparr>
                   else dst1\<lparr>umin_value := umin_value ptr + umin_value off,
                             umax_value := umax_value ptr + umax_value off\<rparr>);
           dst3 = dst2\<lparr>var_off := tnum_add (var_off ptr) (var_off off), reg_off := reg_off ptr, reg_raw := reg_raw ptr\<rparr>
       in if reg_is_pkt_pointer ptr
          then (env\<lparr>id_gen := id_gen env + 1\<rparr>, dst3\<lparr>reg_id := id_gen env + 1, reg_raw := 0\<rparr>)
          else (env, dst3))"

definition adjust_ptr_sub :: "bpf_verifier_env \<Rightarrow> bpf_reg_state \<Rightarrow> bpf_reg_state \<Rightarrow> bpf_reg_state \<Rightarrow> bool \<Rightarrow>
    errno + (bpf_verifier_env \<times> bpf_reg_state)" where
  "adjust_ptr_sub env dst ptr off ptr_is_dst =
    (if \<not> ptr_is_dst then Inl EACCES
     else if reg_type ptr = PTR_TO_STACK then Inl EACCES
     else let noff = scast (reg_off ptr) - smin_value off in
       if tnum_is_const (var_off off) \<and> fits_s32 noff
       then Inr (env, (ptr_fixed_off dst ptr noff)\<lparr>reg_id := reg_id ptr\<rparr>)
       else
         let dst1 = (if signed_sub_overflows (smin_value ptr) (smax_value off) \<or>
                        signed_sub_overflows (smax_value ptr) (smin_value off)
                     then dst\<lparr>smin_value := S64_MIN, smax_value := S64_MAX\<rparr>
                     else dst\<lparr>smin_value := smin_value ptr - smax_value off,
                              smax_value := smax_value ptr - smin_value off\<rparr>);
             dst2 = (if umin_value ptr < umax_value off
                     then dst1\<lparr>umin_value := 0, umax_value := U64_MAX\<rparr>
                     else dst1\<lparr>umin_value := umin_value ptr - umax_value off,
                               umax_value := umax_value ptr - umin_value off\<rparr>);
             dst3 = dst2\<lparr>var_off := tnum_sub (var_off ptr) (var_off off), reg_off := reg_off ptr, reg_raw := reg_raw ptr\<rparr>
         in if reg_is_pkt_pointer ptr
            then let dst4 = dst3\<lparr>reg_id := id_gen env + 1\<rparr>
                 in Inr (env\<lparr>id_gen := id_gen env + 1\<rparr>, if smin_value off <s 0 then dst4\<lparr>reg_raw := 0\<rparr> else dst4)
            else Inr (env, dst3))"

text \<open>An offset whose bounds contradict each other, as on a dead branch.\<close>

definition off_invalid :: "bpf_reg_state \<Rightarrow> bool" where
  "off_invalid off \<longleftrightarrow>
    (tnum_is_const (var_off off) \<and> (smin_value off \<noteq> smax_value off \<or> umin_value off \<noteq> umax_value off)) \<or>
    smax_value off <s smin_value off \<or> umin_value off > umax_value off"

text \<open>The steps after the operation: sanity of the result, refinement, bounds for unprivileged users.\<close>

definition adjust_ptr_finish :: "bpf_verifier_env \<Rightarrow> bpf_insn \<Rightarrow> bpf_reg_state \<Rightarrow> bpf_reg_state \<Rightarrow>
    bool \<Rightarrow> bpf_sanitize_info \<Rightarrow> errno + bpf_verifier_env" where
  "adjust_ptr_finish env insn dst off ptr_is_dst info =
    (if \<not> check_reg_sane_offset dst then Inl EINVAL
     else let dst1 = uu_reg_bound_offset (uu_reg_deduce_bounds (uu_update_reg_bounds dst));
              env1 = set_cur_regs env ((cur_regs env)[insn_dst insn := dst1])
          in case sanitize_check_bounds env1 dst1 of
               Inl _ \<Rightarrow> Inl EACCES
             | Inr _ \<Rightarrow>
                 if sanitize_needed (BPF_OP (insn_code insn))
                 then case sanitize_ptr_alu env1 insn dst1 (if ptr_is_dst then off else dst1) True info True of
                        Inl e \<Rightarrow> Inl (sanitize_err e)
                      | Inr (env2, _) \<Rightarrow> Inr env2
                 else Inr env1)"

text \<open>The switch on the operation.\<close>

definition adjust_ptr_switch :: "bpf_verifier_env \<Rightarrow> bpf_insn \<Rightarrow> bpf_reg_state \<Rightarrow> bpf_reg_state \<Rightarrow> bpf_reg_state \<Rightarrow>
    bool \<Rightarrow> bpf_sanitize_info \<Rightarrow> errno + bpf_verifier_env" where
  "adjust_ptr_switch env insn dst ptr off ptr_is_dst info =
    (let opcode = BPF_OP (insn_code insn) in
     if opcode = BPF_ADD
     then case adjust_ptr_add env dst ptr off of
            (env1, dst1) \<Rightarrow> adjust_ptr_finish env1 insn dst1 off ptr_is_dst info
     else if opcode = BPF_SUB
     then case adjust_ptr_sub env dst ptr off ptr_is_dst of
            Inl e \<Rightarrow> Inl e
          | Inr (env1, dst1) \<Rightarrow> adjust_ptr_finish env1 insn dst1 off ptr_is_dst info
     else Inl EACCES)"

definition adjust_ptr_min_max_vals :: "bpf_verifier_env \<Rightarrow> bpf_insn \<Rightarrow> bpf_reg_state \<Rightarrow> bpf_reg_state \<Rightarrow>
    bool \<Rightarrow> errno + bpf_verifier_env" where
  "adjust_ptr_min_max_vals env insn ptr off ptr_is_dst =
    (let known = tnum_is_const (var_off off); opcode = BPF_OP (insn_code insn); dst = insn_dst insn;
         dst0 = cur_regs env ! dst;
         put = (\<lambda>e r. set_cur_regs e ((cur_regs e)[dst := r])) in
     if off_invalid off then Inr (put env (uu_mark_reg_unknown env dst0))
     else if BPF_CLASS (insn_code insn) \<noteq> BPF_ALU64
     then if opcode = BPF_SUB \<and> allow_ptr_leaks env then Inr (put env (uu_mark_reg_unknown env dst0))
          else Inl EACCES
     else if ptr_arith_rejected ptr known (smin_value off) opcode then Inl EACCES
     else if \<not> check_reg_sane_offset off \<or> \<not> check_reg_sane_offset ptr then Inl EINVAL
     else let dst1 = uu_mark_reg32_unbounded (dst0\<lparr>reg_type := reg_type ptr, reg_id := reg_id ptr\<rparr>);
              env1 = put env dst1;
              info0 = \<lparr>info_aux = \<lparr>alu_state = 0, alu_limit = 0, zext_dst = False\<rparr>, mask_to_left = False\<rparr>
       in case (if sanitize_needed opcode then sanitize_ptr_alu env1 insn ptr off ptr_is_dst info0 False
                else Inr (env1, info0)) of
            Inl e \<Rightarrow> Inl (sanitize_err e)
          | Inr (env2, info) \<Rightarrow> adjust_ptr_switch env2 insn dst1 ptr off ptr_is_dst info)"

section \<open>Soundness\<close>

text \<open>The address \<open>v\<close> is base \<open>b\<close> plus the fixed offset plus an allowed variable offset.\<close>

definition ptr_contains :: "bpf_reg_state \<Rightarrow> u64 \<Rightarrow> u64 \<Rightarrow> bool" where
  "ptr_contains r b v \<longleftrightarrow> (\<exists>x. reg_contains r x \<and> v = b + scast (reg_off r) + x)"

lemma cur_regs_set [simp]: "cur_regs (set_cur_regs env rs) = rs"
  by (simp add: cur_regs_def set_cur_regs_def)

lemma cur_regs_aux [simp]: "cur_regs (set_cur_aux env a) = cur_regs env"
  by (simp add: cur_regs_def set_cur_aux_def)

lemma cur_regs_frame [simp]:
  "cur_regs (env\<lparr>explore_alu_limits := b\<rparr>) = cur_regs env" "cur_regs (env\<lparr>id_gen := n\<rparr>) = cur_regs env"
  by (simp_all add: cur_regs_def)

lemma push_stack_regs: "push_stack env i p s = Some env' \<Longrightarrow> cur_state env' = cur_state env"
  by (auto simp: push_stack_def Let_def split: if_splits)

lemma speculative_path_regs:
  "sanitize_speculative_path env i n c = Some env' \<Longrightarrow> cur_regs env' = cur_regs env"
  by (auto simp: sanitize_speculative_path_def cur_regs_def Let_def dest!: push_stack_regs
      split: option.splits list.splits)

lemma sanitize_ptr_alu_regs:
  assumes "sanitize_ptr_alu env insn ptr off d info c = Inr (env', info')"
  shows "cur_regs env' = cur_regs env"
proof -
  have mark: "cur_regs e = cur_regs env" if "sanitize_ptr_mark env op ptr off d info c = Inr (e, i)" for op e i
    using that by (auto simp: sanitize_ptr_mark_def Let_def split: if_splits sum.splits)
  have sim: "cur_regs e' = cur_regs e" if "sanitize_ptr_sim e k ptr off d c = Inr e'" for e e' k
    using that by (auto simp: sanitize_ptr_sim_def Let_def dest: speculative_path_regs split: if_splits option.splits)
  show ?thesis
    using assms by (auto simp: sanitize_ptr_alu_def dest!: mark sim split: if_splits sum.splits)
qed

lemma known_off: "reg_contains off y \<Longrightarrow> tnum_is_const (var_off off) \<Longrightarrow> \<not> off_invalid off \<Longrightarrow> smin_value off = y"
  by (auto simp: off_invalid_def reg_contains_def bounds64_def intro: signed.order_antisym)

lemma wrap_sym: "(a :: 'a::len word) + b < a \<longleftrightarrow> a + b < b"
  using uint_plus_if' [of a b] uint_lt2p [of a] uint_lt2p [of b] uint_ge_0 [of a] uint_ge_0 [of b]
  unfolding word_less_def by (smt (verit))

lemma ptr_fixed_off_contains:
  assumes "reg_contains ptr x" and "\<forall>w. bounds32 dst w"
  shows "reg_contains (ptr_fixed_off dst ptr noff) x"
  using assms by (simp add: reg_contains_def ptr_fixed_off_def bounds64_def) (simp add: bounds32_def)

lemma adjust_ptr_add_sound:
  assumes ptr: "ptr_contains ptr b v" and off: "reg_contains off y" and valid: "\<not> off_invalid off"
    and dst: "\<forall>w. bounds32 dst w" and add: "adjust_ptr_add env dst ptr off = (env', dst')"
  shows "ptr_contains dst' b (v + y)" and "cur_regs env' = cur_regs env" and "reg_type dst' = reg_type dst"
proof -
  obtain x where x: "reg_contains ptr x" "v = b + scast (reg_off ptr) + x"
    using ptr by (auto simp: ptr_contains_def)
  show "cur_regs env' = cur_regs env" "reg_type dst' = reg_type dst"
    using add by (auto simp: adjust_ptr_add_def ptr_fixed_off_def Let_def split: if_splits)
  show "ptr_contains dst' b (v + y)"
  proof (cases "tnum_is_const (var_off off) \<and> fits_s32 (scast (reg_off ptr) + smin_value off)")
    case True
    have "smin_value off = y" using known_off [OF off _ valid] True by blast
    moreover have "dst' = ptr_fixed_off dst ptr (scast (reg_off ptr) + smin_value off)"
      using True add by (simp add: adjust_ptr_add_def)
    moreover from this have "scast (reg_off dst') = scast (reg_off ptr) + smin_value off"
      using True by (simp add: ptr_fixed_off_def fits_s32_def)
    ultimately show ?thesis
      using x ptr_fixed_off_contains [OF x(1) dst] unfolding ptr_contains_def
      by (intro exI [of _ x]) simp
  next
    case False
    have d: "dst' = snd (adjust_ptr_add env dst ptr off)" using add by simp
    have "smin_value dst' = smin_value (scalar_min_max_add ptr off)" "smax_value dst' = smax_value (scalar_min_max_add ptr off)"
      "umin_value dst' = umin_value (scalar_min_max_add ptr off)" "umax_value dst' = umax_value (scalar_min_max_add ptr off)"
      unfolding d adjust_ptr_add_def Let_def if_not_P [OF False] by (simp_all add: scalar_min_max_add_def Let_def
          wrap_sym [of "umin_value ptr" "umin_value off"] wrap_sym [of "umax_value ptr" "umax_value off"])
    then have f: "bounds64 dst' = bounds64 (scalar_min_max_add ptr off)" by (simp add: bounds64_def fun_eq_iff)
    have "bounds64 dst' (x + y)"
      using x(1) off unfolding f by (intro scalar_min_max_add_sound) (simp_all add: reg_contains_def)
    moreover have "var_off dst' = tnum_add (var_off ptr) (var_off off)" "reg_off dst' = reg_off ptr" "bounds32 dst' = bounds32 dst"
      unfolding d adjust_ptr_add_def Let_def if_not_P [OF False] by (simp_all add: bounds32_def fun_eq_iff)
    ultimately have "reg_contains dst' (x + y)"
      using x(1) off dst by (simp add: reg_contains_def tnum_add_sound)
    then show ?thesis
      using x(2) \<open>reg_off dst' = reg_off ptr\<close> unfolding ptr_contains_def
      by (intro exI [of _ "x + y"]) simp
  qed
qed

lemma adjust_ptr_sub_sound:
  assumes ptr: "ptr_contains ptr b v" and off: "reg_contains off y" and valid: "\<not> off_invalid off"
    and dst: "\<forall>w. bounds32 dst w" and sub: "adjust_ptr_sub env dst ptr off ptr_is_dst = Inr (env', dst')"
  shows "ptr_contains dst' b (v - y)" and "cur_regs env' = cur_regs env" and "reg_type dst' = reg_type dst"
proof -
  obtain x where x: "reg_contains ptr x" "v = b + scast (reg_off ptr) + x"
    using ptr by (auto simp: ptr_contains_def)
  have c: "ptr_is_dst" "reg_type ptr \<noteq> PTR_TO_STACK" using sub by (auto simp: adjust_ptr_sub_def split: if_splits)
  show "cur_regs env' = cur_regs env" "reg_type dst' = reg_type dst"
    using sub by (auto simp: adjust_ptr_sub_def ptr_fixed_off_def Let_def split: if_splits)
  show "ptr_contains dst' b (v - y)"
  proof (cases "tnum_is_const (var_off off) \<and> fits_s32 (scast (reg_off ptr) - smin_value off)")
    case True
    have "smin_value off = y" using known_off [OF off _ valid] True by blast
    moreover have "dst' = (ptr_fixed_off dst ptr (scast (reg_off ptr) - smin_value off))\<lparr>reg_id := reg_id ptr\<rparr>"
      using True sub c by (simp add: adjust_ptr_sub_def)
    moreover from this have "scast (reg_off dst') = scast (reg_off ptr) - smin_value off"
      using True by (simp add: ptr_fixed_off_def fits_s32_def)
    moreover from calculation have "reg_contains dst' x"
      using ptr_fixed_off_contains [OF x(1) dst] by (simp add: reg_contains_def bounds64_def bounds32_def)
    ultimately show ?thesis
      using x unfolding ptr_contains_def by (intro exI [of _ x]) simp
  next
    case False
    have d: "dst' = snd (projr (adjust_ptr_sub env dst ptr off ptr_is_dst))" using sub by simp
    have "smin_value dst' = smin_value (scalar_min_max_sub ptr off)" "smax_value dst' = smax_value (scalar_min_max_sub ptr off)"
      "umin_value dst' = umin_value (scalar_min_max_sub ptr off)" "umax_value dst' = umax_value (scalar_min_max_sub ptr off)"
      and r: "reg_off dst' = reg_off ptr" "var_off dst' = tnum_sub (var_off ptr) (var_off off)" "bounds32 dst' = bounds32 dst"
      unfolding d adjust_ptr_sub_def Let_def if_not_P [OF False]
      using c by (simp_all add: scalar_min_max_sub_def Let_def bounds32_def fun_eq_iff)
    then have f: "bounds64 dst' = bounds64 (scalar_min_max_sub ptr off)" by (simp add: bounds64_def fun_eq_iff)
    have "bounds64 dst' (x - y)"
      using x(1) off unfolding f by (intro scalar_min_max_sub_sound) (simp_all add: reg_contains_def)
    then have "reg_contains dst' (x - y)"
      using x(1) off dst r by (simp add: reg_contains_def tnum_sub_sound)
    then show ?thesis
      using x(2) r unfolding ptr_contains_def by (intro exI [of _ "x - y"]) simp
  qed
qed

lemma refine_keeps_off:
  "reg_off (uu_reg_bound_offset r) = reg_off r" "reg_off (uu_update_reg_bounds r) = reg_off r"
  "reg_off (uu_reg64_deduce_bounds r) = reg_off r" "reg_off (uu_reg32_deduce_bounds r) = reg_off r"
  "reg_type (uu_reg_bound_offset r) = reg_type r" "reg_type (uu_update_reg_bounds r) = reg_type r"
  "reg_type (uu_reg64_deduce_bounds r) = reg_type r" "reg_type (uu_reg32_deduce_bounds r) = reg_type r"
  by (simp_all add: uu_reg_bound_offset_def uu_reg64_deduce_bounds_def uu_reg32_deduce_bounds_def
      uu_update_reg_bounds_def uu_update_reg64_bounds_def uu_update_reg32_bounds_def Let_def)

lemma ptr_contains_finish:
  assumes "ptr_contains r b v"
  shows "ptr_contains (uu_reg_bound_offset (uu_reg_deduce_bounds (uu_update_reg_bounds r))) b v"
proof -
  let ?r = "uu_reg_bound_offset (uu_reg_deduce_bounds (uu_update_reg_bounds r))"
  have "reg_off ?r = reg_off r"
    by (simp add: refine_keeps_off uu_reg_deduce_bounds_def)
  then show ?thesis
    using assms reg_okD(1) [OF finish_ok] unfolding ptr_contains_def by auto
qed

lemma adjust_ptr_finish_result:
  assumes "adjust_ptr_finish env insn dst off d info = Inr env'"
  shows "cur_regs env' =
    (cur_regs env)[insn_dst insn := uu_reg_bound_offset (uu_reg_deduce_bounds (uu_update_reg_bounds dst))]"
  using assms by (auto simp: adjust_ptr_finish_def Let_def dest: sanitize_ptr_alu_regs split: if_splits sum.splits)

text \<open>The value the interpreter computes for the two pointer operations.\<close>

definition ptr_result :: "u8 \<Rightarrow> u64 \<Rightarrow> u64 \<Rightarrow> u64" where
  "ptr_result opcode v y = (if opcode = BPF_ADD then v + y else v - y)"

lemma adjust_ptr_sound:
  assumes acc: "adjust_ptr_min_max_vals env insn ptr off ptr_is_dst = Inr env'"
    and cls: "BPF_CLASS (insn_code insn) = BPF_ALU64"
    and ptr: "ptr_contains ptr b v" and off: "reg_contains off y" and valid: "\<not> off_invalid off"
  obtains dst' where "cur_regs env' = (cur_regs env)[insn_dst insn := dst']"
    and "ptr_contains dst' b (ptr_result (BPF_OP (insn_code insn)) v y)" and "reg_type dst' = reg_type ptr"
    and "BPF_OP (insn_code insn) = BPF_ADD \<or> BPF_OP (insn_code insn) = BPF_SUB \<and> ptr_is_dst"
proof -
  define d1 where "d1 = uu_mark_reg32_unbounded ((cur_regs env ! insn_dst insn)\<lparr>reg_type := reg_type ptr, reg_id := reg_id ptr\<rparr>)"
  have b32: "\<forall>w. bounds32 d1 w" by (simp add: d1_def)
  have ty: "reg_type d1 = reg_type ptr" by (simp add: d1_def uu_mark_reg32_unbounded_def)
  let ?op = "BPF_OP (insn_code insn)"
  define e1 where "e1 = set_cur_regs env ((cur_regs env)[insn_dst insn := d1])"
  define i0 :: bpf_sanitize_info where
    "i0 = \<lparr>info_aux = \<lparr>alu_state = 0, alu_limit = 0, zext_dst = False\<rparr>, mask_to_left = False\<rparr>"
  define san where "san = (if sanitize_needed ?op then sanitize_ptr_alu e1 insn ptr off ptr_is_dst i0 False else Inr (e1, i0))"
  have "(case san of Inl e \<Rightarrow> Inl (sanitize_err e) | Inr (env2, info) \<Rightarrow> adjust_ptr_switch env2 insn d1 ptr off ptr_is_dst info) = Inr env'"
    using acc valid cls unfolding adjust_ptr_min_max_vals_def Let_def d1_def [symmetric] e1_def [symmetric] i0_def [symmetric]
      san_def [symmetric] by (simp split: if_splits)
  then obtain env2 info where s: "san = Inr (env2, info)"
    and go: "adjust_ptr_switch env2 insn d1 ptr off ptr_is_dst info = Inr env'"
    by (auto split: sum.splits)
  have e2: "cur_regs env2 = (cur_regs env)[insn_dst insn := d1]"
    using s by (auto simp: san_def e1_def dest: sanitize_ptr_alu_regs split: if_splits)
  let ?fin = "\<lambda>r. uu_reg_bound_offset (uu_reg_deduce_bounds (uu_update_reg_bounds r))"
  show thesis
  proof (cases "?op = BPF_ADD")
    case True
    obtain env3 dst2 where a: "adjust_ptr_add env2 d1 ptr off = (env3, dst2)" by fastforce
    with go True have "adjust_ptr_finish env3 insn dst2 off ptr_is_dst info = Inr env'" by (simp add: adjust_ptr_switch_def)
    with adjust_ptr_finish_result adjust_ptr_add_sound [OF ptr off valid b32 a] e2
    show ?thesis using True by (intro that [of "?fin dst2"] ptr_contains_finish)
        (auto simp: ptr_result_def refine_keeps_off uu_reg_deduce_bounds_def ty)
  next
    case False
    with go obtain env3 dst2 where s: "?op = BPF_SUB" "adjust_ptr_sub env2 d1 ptr off ptr_is_dst = Inr (env3, dst2)"
      "adjust_ptr_finish env3 insn dst2 off ptr_is_dst info = Inr env'"
      by (auto simp: adjust_ptr_switch_def Let_def split: if_splits sum.splits)
    from s(2) have "ptr_is_dst" by (auto simp: adjust_ptr_sub_def split: if_splits)
    with s adjust_ptr_finish_result [OF s(3)] adjust_ptr_sub_sound [OF ptr off valid b32 s(2)] e2
    show ?thesis using False by (intro that [of "?fin dst2"] ptr_contains_finish)
        (auto simp: ptr_result_def refine_keeps_off uu_reg_deduce_bounds_def ty)
  qed
qed

end
