(* ===== verification/Bpf_Check.thy ===== *)
theory Bpf_Check
  imports Bpf_Live Bpf_Ptr
begin

text \<open>
  The verifier's check of one arithmetic instruction: \<^verbatim>\<open>check_alu_op\<close> and
  \<^verbatim>\<open>adjust_reg_min_max_vals\<close> of \<^verbatim>\<open>kernel/bpf/verifier.c\<close>. Backtracking of precision
  (\<^verbatim>\<open>mark_chain_precision\<close>) is the argument \<open>mcp\<close>.

  The main lemma: if the registers of the machine agree with the verifier's state and the instruction is
  accepted, the interpreter can execute it (apart from a division by a zero register, which the kernel
  patches later) and the machine agrees with the new state afterwards.
\<close>

section \<open>Definitions\<close>

type_synonym 'a result = "(errno + 'a) option"

definition bind_res :: "'a result \<Rightarrow> ('a \<Rightarrow> 'b result) \<Rightarrow> 'b result" where
  "bind_res m f = (case m of None \<Rightarrow> None | Some (Inl e) \<Rightarrow> Some (Inl e) | Some (Inr a) \<Rightarrow> f a)"

definition is_pointer_value :: "bpf_verifier_env \<Rightarrow> nat \<Rightarrow> bool" where
  "is_pointer_value env regno = uu_is_pointer_value (allow_ptr_leaks env) (cur_regs env ! regno)"

text \<open>The register that stands for an immediate operand: all fields zero, then a known value.\<close>

definition reg_zero :: bpf_reg_state where
  "reg_zero = \<lparr>reg_type = NOT_INIT, reg_raw = 0, reg_off = 0, reg_id = 0, ref_obj_id = 0,
     var_off = TNUM 0 0, smin_value = 0, smax_value = 0, umin_value = 0, umax_value = 0,
     s32_min_value = 0, s32_max_value = 0, u32_min_value = 0, u32_max_value = 0,
     reg_parent = None, frameno = 0, subreg_def = 0, reg_live = 0, reg_precise = False\<rparr>"

definition imm_reg :: "s32 \<Rightarrow> bpf_reg_state" where
  "imm_reg im = uu_mark_reg_known (reg_zero\<lparr>reg_type := SCALAR_VALUE\<rparr>) (scast im)"

text \<open>A scalar destination loses its id before the operation.\<close>

definition clear_dst_id :: "bpf_verifier_env \<Rightarrow> nat \<Rightarrow> bpf_verifier_env" where
  "clear_dst_id env dst =
    (if reg_type (cur_regs env ! dst) \<noteq> SCALAR_VALUE then env
     else set_reg_state env dst ((cur_regs env ! dst)\<lparr>reg_id := 0\<rparr>))"

definition adjust_reg_scalars :: "bpf_verifier_env \<Rightarrow> bpf_insn \<Rightarrow> bpf_reg_state \<Rightarrow> bpf_verifier_env result" where
  "adjust_reg_scalars env insn src =
    (case adjust_scalar_min_max_vals env insn (cur_regs env ! insn_dst insn) src of
       Inl e \<Rightarrow> Some (Inl e)
     | Inr (env1, r) \<Rightarrow> Some (Inr (set_reg_state env1 (insn_dst insn) r)))"

definition adjust_reg_min_max_vals ::
  "(bpf_verifier_env \<Rightarrow> nat \<Rightarrow> bpf_verifier_env result) \<Rightarrow> bpf_verifier_env \<Rightarrow> bpf_insn \<Rightarrow> bpf_verifier_env result" where
  "adjust_reg_min_max_vals mcp env0 insn =
    (let dst = insn_dst insn; opcode = BPF_OP (insn_code insn);
         is_ptr = (reg_type (cur_regs env0 ! dst) \<noteq> SCALAR_VALUE);
         env = clear_dst_id env0 dst in
     if BPF_SRC (insn_code insn) = BPF_X then
       let src = insn_src insn in
       if reg_type (cur_regs env ! src) \<noteq> SCALAR_VALUE then
         if is_ptr then
           if opcode = BPF_SUB \<and> allow_ptr_leaks env
           then Some (Inr (set_cur_regs env (mark_reg_unknown env (cur_regs env) dst)))
           else Some (Inl EACCES)
         else bind_res (mcp env dst) (\<lambda>env1.
           Some (adjust_ptr_min_max_vals env1 insn (cur_regs env1 ! src) (cur_regs env1 ! dst) False))
       else if is_ptr then bind_res (mcp env src) (\<lambda>env1.
           Some (adjust_ptr_min_max_vals env1 insn (cur_regs env1 ! dst) (cur_regs env1 ! src) True))
       else adjust_reg_scalars env insn (cur_regs env ! src)
     else
       if is_ptr then Some (adjust_ptr_min_max_vals env insn (cur_regs env ! dst) (imm_reg (insn_imm insn)) True)
       else adjust_reg_scalars env insn (imm_reg (insn_imm insn)))"

text \<open>The move of a register, after the operand checks.\<close>

definition alu_mov_reg :: "bpf_verifier_env \<Rightarrow> bpf_insn \<Rightarrow> bpf_verifier_env result" where
  "alu_mov_reg env insn =
    (let src = insn_src insn; dst = insn_dst insn; s = cur_regs env ! src in
     if BPF_CLASS (insn_code insn) = BPF_ALU64 then
       let fresh = (reg_type s = SCALAR_VALUE \<and> reg_id s = 0);
           env1 = (if fresh then set_reg_state (env\<lparr>id_gen := id_gen env + 1\<rparr>) src (s\<lparr>reg_id := id_gen env + 1\<rparr>) else env);
           d = cur_regs env1 ! src
       in Some (Inr (set_reg_state env1 dst (d\<lparr>reg_live := reg_live d OR REG_LIVE_WRITTEN, subreg_def := DEF_NOT_SUBREG\<rparr>)))
     else if is_pointer_value env src then Some (Inl EACCES)
     else let d = (if reg_type s = SCALAR_VALUE
                   then s\<lparr>reg_id := 0, reg_live := reg_live s OR REG_LIVE_WRITTEN, subreg_def := insn_idx env + 1\<rparr>
                   else uu_mark_reg_unknown env (cur_regs env ! dst))
          in Some (Inr (set_reg_state env dst
               (uu_reg_bound_offset (uu_reg_deduce_bounds (uu_update_reg_bounds (zext_32_to_64 d)))))))"

definition alu_mov_imm :: "bpf_verifier_env \<Rightarrow> bpf_insn \<Rightarrow> bpf_verifier_env" where
  "alu_mov_imm env insn =
    (let dst = insn_dst insn; r = uu_mark_reg_unknown env (cur_regs env ! dst)
     in set_reg_state env dst (uu_mark_reg_known (r\<lparr>reg_type := SCALAR_VALUE\<rparr>)
          (if BPF_CLASS (insn_code insn) = BPF_ALU64 then scast (insn_imm insn) else ucast (insn_imm insn))))"

definition check_alu_op ::
  "(bpf_verifier_env \<Rightarrow> nat \<Rightarrow> bpf_verifier_env result) \<Rightarrow> bpf_verifier_env \<Rightarrow> bpf_insn \<Rightarrow> bpf_verifier_env result" where
  "check_alu_op mcp env insn =
    (let c = insn_code insn; opcode = BPF_OP c; dst = insn_dst insn; src = insn_src insn; im = insn_imm insn in
     if opcode = BPF_END \<or> opcode = BPF_NEG then
       if opcode = BPF_NEG \<and> (BPF_SRC c \<noteq> 0 \<or> src \<noteq> 0 \<or> insn_off insn \<noteq> 0 \<or> im \<noteq> 0) then Some (Inl EINVAL)
       else if opcode = BPF_END \<and> (src \<noteq> 0 \<or> insn_off insn \<noteq> 0 \<or> (im \<noteq> 16 \<and> im \<noteq> 32 \<and> im \<noteq> 64) \<or> BPF_CLASS c = BPF_ALU64)
       then Some (Inl EINVAL)
       else bind_res (check_reg_arg env insn dst SRC_OP) (\<lambda>env1.
         if is_pointer_value env1 dst then Some (Inl EACCES)
         else check_reg_arg env1 insn dst DST_OP)
     else if opcode = BPF_MOV then
       if BPF_SRC c = BPF_X \<and> (im \<noteq> 0 \<or> insn_off insn \<noteq> 0) then Some (Inl EINVAL)
       else if BPF_SRC c \<noteq> BPF_X \<and> (src \<noteq> 0 \<or> insn_off insn \<noteq> 0) then Some (Inl EINVAL)
       else bind_res (if BPF_SRC c = BPF_X then check_reg_arg env insn src SRC_OP else Some (Inr env)) (\<lambda>env1.
         bind_res (check_reg_arg env1 insn dst DST_OP_NO_MARK) (\<lambda>env2.
           if BPF_SRC c = BPF_X then alu_mov_reg env2 insn else Some (Inr (alu_mov_imm env2 insn))))
     else if opcode > BPF_END then Some (Inl EINVAL)
     else
       if BPF_SRC c = BPF_X \<and> (im \<noteq> 0 \<or> insn_off insn \<noteq> 0) then Some (Inl EINVAL)
       else if BPF_SRC c \<noteq> BPF_X \<and> (src \<noteq> 0 \<or> insn_off insn \<noteq> 0) then Some (Inl EINVAL)
       else bind_res (if BPF_SRC c = BPF_X then check_reg_arg env insn src SRC_OP else Some (Inr env)) (\<lambda>env1.
         bind_res (check_reg_arg env1 insn dst SRC_OP) (\<lambda>env2.
           if (opcode = BPF_MOD \<or> opcode = BPF_DIV) \<and> BPF_SRC c = BPF_K \<and> im = 0 then Some (Inl EINVAL)
           else if (opcode = BPF_LSH \<or> opcode = BPF_RSH \<or> opcode = BPF_ARSH) \<and> BPF_SRC c = BPF_K \<and>
                   (im <s 0 \<or> (if BPF_CLASS c = BPF_ALU64 then 64 else 32) \<le>s im) then Some (Inl EINVAL)
           else bind_res (check_reg_arg env2 insn dst DST_OP_NO_MARK) (\<lambda>env3. adjust_reg_min_max_vals mcp env3 insn))))"

section \<open>Agreement of the machine with the verifier's state\<close>

text \<open>Liveness and precision marks do not restrict the values a register may have.\<close>

definition value_view :: "bpf_reg_state \<Rightarrow> bpf_reg_state" where
  "value_view r = r\<lparr>reg_live := 0, subreg_def := 0, reg_precise := False\<rparr>"

definition reg_models :: "u64 \<Rightarrow> bpf_reg_state \<Rightarrow> u64 \<Rightarrow> bool" where
  "reg_models b r v \<longleftrightarrow>
    (if reg_type r = NOT_INIT then True
     else if reg_type r = SCALAR_VALUE then reg_ok r v
     else ptr_contains r b v)"

definition regs_models :: "u64 list \<Rightarrow> bpf_reg_state list \<Rightarrow> u64 list \<Rightarrow> bool" where
  "regs_models bs rs vs \<longleftrightarrow>
    length bs = MAX_BPF_REG \<and> length rs = MAX_BPF_REG \<and> length vs = 12 \<and>
    (\<forall>i<MAX_BPF_REG. reg_models (bs ! i) (rs ! i) (vs ! i))"

lemma value_view_models: "reg_models b (value_view r) v = reg_models b r v"
  by (simp add: reg_models_def value_view_def ptr_contains_def reg_ok_def reg_contains_def reg_synced_def
      bounds64_def bounds32_def)

lemma value_view_type: "value_view r = value_view r' \<Longrightarrow> reg_type r = reg_type r'"
  by (metis bpf_reg_state.select_convs(1) bpf_reg_state.surjective bpf_reg_state.update_convs(17,18,19) value_view_def)

lemma regs_models_cong:
  assumes "map value_view rs = map value_view rs'" and "regs_models bs rs vs"
  shows "regs_models bs rs' vs"
proof -
  have len: "length rs = length rs'" using map_eq_imp_length_eq [OF assms(1)] .
  have "value_view (rs ! i) = value_view (rs' ! i)" if "i < length rs" for i
    using arg_cong [OF assms(1), of "\<lambda>l. l ! i"] that len by simp
  then have "reg_models b (rs ! i) v = reg_models b (rs' ! i) v" if "i < length rs" for b v i
    using that value_view_models by metis
  then show ?thesis using assms(2) len by (simp add: regs_models_def)
qed

lemma regs_models_update:
  assumes "regs_models bs rs vs" and "d < MAX_BPF_REG" and "reg_models b r v"
    and "length vs' = 12" and "\<And>i. i < MAX_BPF_REG \<Longrightarrow> i \<noteq> d \<Longrightarrow> vs' ! i = vs ! i" and "vs' ! d = v"
  shows "regs_models (bs[d := b]) (rs[d := r]) vs'"
  using assms by (auto simp: regs_models_def nth_list_update)

section \<open>Operand checks keep the values\<close>

lemma value_view_update [simp]:
  "value_view (r\<lparr>reg_live := l\<rparr>) = value_view r" "value_view (r\<lparr>subreg_def := d\<rparr>) = value_view r"
  "value_view (r\<lparr>reg_precise := p\<rparr>) = value_view r"
  by (simp_all add: value_view_def)

lemma map_update_same: "value_view r = value_view (rs ! i) \<Longrightarrow> map value_view (rs[i := r]) = map value_view rs"
  by (metis list_update_id map_update)

lemma mark_reg_read_regs: "mark_reg_read env s p f = Some (Inr env') \<Longrightarrow> cur_regs env' = cur_regs env"
  by (auto simp: mark_reg_read_def cur_regs_def split: option.splits sum.splits)

lemma mark_insn_zext_view:
  "mark_insn_zext env r = (env', r') \<Longrightarrow> cur_regs env' = cur_regs env \<and> value_view r' = value_view r"
  by (auto simp: mark_insn_zext_def cur_regs_def Let_def split: if_splits)

lemma cur_regs_set_reg [simp]: "cur_regs (set_reg_state env i r) = (cur_regs env)[i := r]"
  by (simp add: set_reg_state_def)

lemma check_reg_arg_view:
  assumes "check_reg_arg env insn n t = Some (Inr env')" and "t \<noteq> DST_OP"
  shows "map value_view (cur_regs env') = map value_view (cur_regs env)" and "n < MAX_BPF_REG"
    and "t \<noteq> SRC_OP \<Longrightarrow> n \<noteq> BPF_REG_FP"
    and "t = SRC_OP \<Longrightarrow> reg_type (cur_regs env ! n) \<noteq> NOT_INIT"
  using assms
  by (auto simp: check_reg_arg_def Let_def map_update_same dest!: mark_reg_read_regs mark_insn_zext_view
      split: if_splits prod.splits)

section \<open>Soundness of the arithmetic cases\<close>

lemma ptr_result_interp:
  assumes "jumptable (insn_code insn) = L_ALU True op x" and "interp_alu True op x a c = Some (z, ax)"
  shows "BPF_OP (insn_code insn) = BPF_ADD \<Longrightarrow> z = a + c" and "BPF_OP (insn_code insn) = BPF_SUB \<Longrightarrow> z = a - c"
  using assms(2) unfolding jumptable_alu(2) [OF assms(1)] alu_opcode_cases
  by (simp_all add: interp_alu_def interp_alu64_def)

lemma adjust_ptr_models:
  assumes acc: "adjust_ptr_min_max_vals env insn ptr off pd = Inr env'"
    and code: "jumptable (insn_code insn) = L_ALU wide op x"
    and ptr: "reg_models b ptr v" "reg_type ptr \<noteq> NOT_INIT" "reg_type ptr \<noteq> SCALAR_VALUE" and off: "reg_contains off y"
    and run: "interp_alu wide op x (if pd then v else y) (if pd then y else v) = Some (z, ax)"
  obtains r where "cur_regs env' = (cur_regs env)[insn_dst insn := r]" and "reg_models b r z"
proof -
  have p: "ptr_contains ptr b v" using ptr by (simp add: reg_models_def)
  have unknown: "reg_models b (uu_mark_reg_unknown e r) z" for e r
    by (simp add: reg_models_def) (simp add: uu_mark_reg_unknown_def uu_mark_reg_unbounded_def)
  show thesis
  proof (cases "off_invalid off \<or> \<not> wide")
    case True
    then have "BPF_CLASS (insn_code insn) \<noteq> BPF_ALU64 \<or> off_invalid off"
      using jumptable_alu(1) [OF code] by auto
    then obtain e r where "cur_regs env' = (cur_regs env)[insn_dst insn := uu_mark_reg_unknown e r]"
      using acc by (auto simp: adjust_ptr_min_max_vals_def Let_def split: if_splits)
    then show ?thesis using that unknown by blast
  next
    case False
    then have w: "wide" "BPF_CLASS (insn_code insn) = BPF_ALU64" using jumptable_alu(1) [OF code] by auto
    obtain r where r: "cur_regs env' = (cur_regs env)[insn_dst insn := r]"
      "ptr_contains r b (ptr_result (BPF_OP (insn_code insn)) v y)" "reg_type r = reg_type ptr"
      "BPF_OP (insn_code insn) = BPF_ADD \<or> BPF_OP (insn_code insn) = BPF_SUB \<and> pd"
      using adjust_ptr_sound [OF acc w(2) p off] False by blast
    have "z = ptr_result (BPF_OP (insn_code insn)) v y"
      using r(4) ptr_result_interp [OF code [unfolded eq_True [THEN iffD2, OF w(1)]] run [unfolded eq_True [THEN iffD2, OF w(1)]]]
      by (auto simp: ptr_result_def add.commute)
    with r ptr that show ?thesis by (simp add: reg_models_def)
  qed
qed

lemma imm_reg_ok: "reg_ok (imm_reg im) (scast im)"
  by (simp add: imm_reg_def uu_mark_reg_known_ok)

lemma scalar_type1:
  "reg_type (scalar32_min_max_add d s) = reg_type d" "reg_type (scalar_min_max_add d s) = reg_type d"
  "reg_type (scalar32_min_max_sub d s) = reg_type d" "reg_type (scalar_min_max_sub d s) = reg_type d"
  "reg_type (scalar32_min_max_mul d s) = reg_type d" "reg_type (scalar_min_max_mul d s) = reg_type d"
  "reg_type (scalar32_min_max_and d s) = reg_type d" "reg_type (scalar_min_max_and d s) = reg_type d"
  "reg_type (scalar32_min_max_or d s) = reg_type d" "reg_type (scalar_min_max_or d s) = reg_type d"
  "reg_type (scalar32_min_max_xor d s) = reg_type d" "reg_type (scalar_min_max_xor d s) = reg_type d"
  by (simp_all add: scalar32_min_max_add_def scalar_min_max_add_def scalar32_min_max_sub_def scalar_min_max_sub_def
      scalar32_min_max_mul_def scalar_min_max_mul_def scalar32_min_max_and_def scalar_min_max_and_def
      scalar32_min_max_or_def scalar_min_max_or_def scalar32_min_max_xor_def scalar_min_max_xor_def Let_def
      uu_mark_reg32_unbounded_def uu_mark_reg64_unbounded_def uu_mark_reg32_known_def uu_mark_reg_known_def
      uuu_mark_reg_known_def refine_keeps_off)

lemma update32_type: "reg_type (uu_update_reg32_bounds r) = reg_type r"
  by (simp add: uu_update_reg32_bounds_def Let_def)

lemma scalar_type2:
  "reg_type (scalar32_min_max_lsh d s) = reg_type d" "reg_type (scalar_min_max_lsh d s) = reg_type d"
  "reg_type (scalar32_min_max_rsh d s) = reg_type d" "reg_type (scalar_min_max_rsh d s) = reg_type d"
  "reg_type (scalar32_min_max_arsh d s) = reg_type d" "reg_type (scalar_min_max_arsh d s) = reg_type d"
  by (simp_all add: scalar32_min_max_lsh_def scalar_min_max_lsh_def scalar32_min_max_rsh_def scalar_min_max_rsh_def
      scalar32_min_max_arsh_def scalar_min_max_arsh_def Let_def uu_scalar32_min_max_lsh_def uu_scalar64_min_max_lsh_def
      uu_mark_reg32_unbounded_def uu_mark_reg64_unbounded_def refine_keeps_off update32_type)

lemma unknown_type [simp]: "reg_type (uu_mark_reg_unknown env r) = SCALAR_VALUE"
  by (simp add: uu_mark_reg_unknown_def uu_mark_reg_unbounded_def)

lemma zext_type: "reg_type (zext_32_to_64 r) = reg_type r"
  by (simp add: zext_32_to_64_def uu_reg_assign_32_into_64_def Let_def)

lemma adjust_scalar_type:
  assumes "adjust_scalar_min_max_vals env insn dst src = Inr (env', dst')" and "reg_type dst = SCALAR_VALUE"
  shows "reg_type dst' = SCALAR_VALUE" and "cur_regs env' = cur_regs env"
proof -
  have "reg_type (scalar_switch e opc a dst src) = SCALAR_VALUE" for e opc a
    using assms(2) by (simp add: scalar_switch_def Let_def scalar_type1 scalar_type2)
  then show "reg_type dst' = SCALAR_VALUE"
    using assms(1) by (auto simp: adjust_scalar_min_max_vals_def Let_def refine_keeps_off uu_reg_deduce_bounds_def
        zext_type split: if_splits sum.splits)
  have "cur_regs e = cur_regs env" if "sanitize_val_alu env insn = Inr e" for e
    using that by (auto simp: sanitize_val_alu_def split: if_splits sum.splits)
  then show "cur_regs env' = cur_regs env"
    using assms(1) by (auto simp: adjust_scalar_min_max_vals_def Let_def split: if_splits sum.splits)
qed

lemma adjust_scalar_models:
  assumes "adjust_scalar_min_max_vals env insn dst src = Inr (env', dst')"
    and "jumptable (insn_code insn) = L_ALU wide op x" and "op \<noteq> OP_MOV"
    and "reg_ok dst u" and "reg_ok src y" and "reg_type dst = SCALAR_VALUE"
    and "interp_alu wide op x u y = Some (z, ax)"
  shows "reg_models b dst' z" and "cur_regs env' = cur_regs env"
  using adjust_scalar_sound [OF assms(1,2,3,4,5,7)] adjust_scalar_type [OF assms(1,6)]
  by (simp_all add: reg_models_def)

text \<open>What precision backtracking may change: marks only.\<close>

definition keeps_values :: "(bpf_verifier_env \<Rightarrow> nat \<Rightarrow> bpf_verifier_env result) \<Rightarrow> bool" where
  "keeps_values mcp \<longleftrightarrow>
    (\<forall>env r env'. mcp env r = Some (Inr env') \<longrightarrow> map value_view (cur_regs env') = map value_view (cur_regs env))"

text \<open>The machine registers after an operation on register \<open>d\<close>: only it and the auxiliary register change.\<close>

definition only_dst :: "nat \<Rightarrow> u64 list \<Rightarrow> u64 \<Rightarrow> u64 list \<Rightarrow> bool" where
  "only_dst d vs z vs' \<longleftrightarrow> length vs' = 12 \<and> vs' ! d = z \<and> (\<forall>i<MAX_BPF_REG. i \<noteq> d \<longrightarrow> vs' ! i = vs ! i)"

text \<open>A register keeps pointing into the object of one of the registers before.\<close>

definition rebased :: "u64 list \<Rightarrow> nat \<Rightarrow> u64 list \<Rightarrow> bool" where
  "rebased bs d bs' \<longleftrightarrow> (\<exists>b\<in>set bs. bs' = bs[d := b])"

lemma regs_models_set:
  assumes "regs_models bs rs vs" and "d < MAX_BPF_REG" and "reg_models b r z" and "b \<in> set bs" and "only_dst d vs z vs'"
  shows "\<exists>bs'. rebased bs d bs' \<and> regs_models bs' (rs[d := r]) vs'"
  using regs_models_update [OF assms(1,2,3), of vs'] assms(4,5) by (auto simp: only_dst_def rebased_def)

lemma regs_models_nth:
  assumes "regs_models bs rs vs" and "i < MAX_BPF_REG"
  shows "reg_models (bs ! i) (rs ! i) (vs ! i)" and "bs ! i \<in> set bs"
  using assms by (simp_all add: regs_models_def)

lemma reg_models_id: "reg_models b (r\<lparr>reg_id := k\<rparr>) v = reg_models b r v"
  by (simp add: reg_models_def ptr_contains_def reg_ok_def reg_contains_def reg_synced_def bounds64_def bounds32_def)

lemma reg_models_scalar: "reg_models b r v \<Longrightarrow> reg_type r = SCALAR_VALUE \<Longrightarrow> reg_ok r v"
  by (simp add: reg_models_def)

lemma view_type:
  assumes "map value_view rs = map value_view rs'" and "i < length rs'"
  shows "reg_type (rs ! i) = reg_type (rs' ! i)"
  using arg_cong [OF assms(1), of "\<lambda>l. l ! i"] assms(2) map_eq_imp_length_eq [OF assms(1)]
  by (intro value_view_type) simp

lemma clear_dst_id:
  assumes "regs_models bs (cur_regs env) vs" and "d < MAX_BPF_REG"
  shows "regs_models bs (cur_regs (clear_dst_id env d)) vs"
    and "reg_type (cur_regs (clear_dst_id env d) ! i) = reg_type (cur_regs env ! i)"
  using assms
  by (auto simp: clear_dst_id_def regs_models_def nth_list_update reg_models_id)

lemma adjust_reg_scalars_sound:
  assumes "adjust_reg_scalars env insn src = Some (Inr env')"
    and code: "jumptable (insn_code insn) = L_ALU wide op x" "op \<noteq> OP_MOV"
    and m: "regs_models bs (cur_regs env) vs" and d: "insn_dst insn < MAX_BPF_REG"
    and t: "reg_type (cur_regs env ! insn_dst insn) = SCALAR_VALUE" and s: "reg_ok src y"
    and run: "interp_alu wide op x (vs ! insn_dst insn) y = Some (z, ax)"
    and vs': "only_dst (insn_dst insn) vs z vs'"
  shows "\<exists>bs'. rebased bs (insn_dst insn) bs' \<and> regs_models bs' (cur_regs env') vs'"
proof -
  obtain env1 r where a: "adjust_scalar_min_max_vals env insn (cur_regs env ! insn_dst insn) src = Inr (env1, r)"
    "env' = set_reg_state env1 (insn_dst insn) r"
    using assms(1) by (auto simp: adjust_reg_scalars_def split: sum.splits)
  note md = regs_models_nth [OF m d]
  from adjust_scalar_models [OF a(1) code reg_models_scalar [OF md(1) t] s t run]
  show ?thesis using a(2) regs_models_set [OF m d _ md(2) vs'] by simp
qed

lemma adjust_ptr_step:
  assumes acc: "adjust_ptr_min_max_vals env insn ptr off pd = Inr env'"
    and code: "jumptable (insn_code insn) = L_ALU wide op x"
    and m: "regs_models bs (cur_regs env) vs" and d: "insn_dst insn < MAX_BPF_REG"
    and ptr: "reg_models b ptr v" "b \<in> set bs" "reg_type ptr \<noteq> NOT_INIT" "reg_type ptr \<noteq> SCALAR_VALUE"
    and off: "reg_ok off y"
    and run: "interp_alu wide op x (if pd then v else y) (if pd then y else v) = Some (z, ax)"
    and vs': "only_dst (insn_dst insn) vs z vs'"
  shows "\<exists>bs'. rebased bs (insn_dst insn) bs' \<and> regs_models bs' (cur_regs env') vs'"
proof -
  obtain r where "cur_regs env' = (cur_regs env)[insn_dst insn := r]" "reg_models b r z"
    using adjust_ptr_models [OF acc code ptr(1,3,4) conjunct1 [OF off [unfolded reg_ok_def]] run] by blast
  then show ?thesis using regs_models_set [OF m d _ ptr(2) vs'] by simp
qed

lemma bind_res_Inr: "bind_res m f = Some (Inr b) \<longleftrightarrow> (\<exists>a. m = Some (Inr a) \<and> f a = Some (Inr b))"
  by (auto simp: bind_res_def split: option.splits sum.splits)

lemma keeps_values_models:
  assumes "keeps_values mcp" and "mcp env k = Some (Inr env1)" and "regs_models bs (cur_regs env) vs"
  shows "regs_models bs (cur_regs env1) vs"
    and "i < MAX_BPF_REG \<Longrightarrow> reg_type (cur_regs env1 ! i) = reg_type (cur_regs env ! i)"
proof -
  have v: "map value_view (cur_regs env1) = map value_view (cur_regs env)"
    using assms(1,2) by (simp add: keeps_values_def)
  show "regs_models bs (cur_regs env1) vs" by (rule regs_models_cong [OF v [symmetric] assms(3)])
  show "i < MAX_BPF_REG \<Longrightarrow> reg_type (cur_regs env1 ! i) = reg_type (cur_regs env ! i)"
    using view_type [OF v] assms(3) by (simp add: regs_models_def)
qed

lemma unknown_models [simp]: "reg_models b (uu_mark_reg_unknown env r) v"
  by (simp add: reg_models_def uu_mark_reg_unknown_ok)

lemma mark_reg_unknown_regs:
  "d < MAX_BPF_REG \<Longrightarrow> mark_reg_unknown env rs d = rs[d := uu_mark_reg_unknown env (rs ! d)]"
  by (simp add: mark_reg_unknown_def)

text \<open>The branches of the function, read off its definition.\<close>

lemma adjust_reg_reg:
  assumes "adjust_reg_min_max_vals mcp env0 insn = Some (Inr env')" and "BPF_SRC (insn_code insn) = BPF_X"
  defines "env \<equiv> clear_dst_id env0 (insn_dst insn)"
  defines "dt \<equiv> reg_type (cur_regs env0 ! insn_dst insn)" and "st \<equiv> reg_type (cur_regs env ! insn_src insn)"
  obtains (ptrs) "dt \<noteq> SCALAR_VALUE" "st \<noteq> SCALAR_VALUE"
      "env' = set_cur_regs env (mark_reg_unknown env (cur_regs env) (insn_dst insn))"
    | (src_ptr) env1 where "dt = SCALAR_VALUE" "st \<noteq> SCALAR_VALUE" "mcp env (insn_dst insn) = Some (Inr env1)"
      "adjust_ptr_min_max_vals env1 insn (cur_regs env1 ! insn_src insn) (cur_regs env1 ! insn_dst insn) False = Inr env'"
    | (dst_ptr) env1 where "dt \<noteq> SCALAR_VALUE" "st = SCALAR_VALUE" "mcp env (insn_src insn) = Some (Inr env1)"
      "adjust_ptr_min_max_vals env1 insn (cur_regs env1 ! insn_dst insn) (cur_regs env1 ! insn_src insn) True = Inr env'"
    | (scalars) "dt = SCALAR_VALUE" "st = SCALAR_VALUE" "adjust_reg_scalars env insn (cur_regs env ! insn_src insn) = Some (Inr env')"
proof -
  show thesis
    using assms(1,2) ptrs src_ptr dst_ptr scalars
    unfolding adjust_reg_min_max_vals_def Let_def env_def [symmetric] dt_def [symmetric] st_def [symmetric]
    by (cases "st = SCALAR_VALUE"; cases "dt = SCALAR_VALUE") (simp_all add: bind_res_Inr split: if_splits, blast+)
qed

lemma adjust_reg_imm:
  assumes "adjust_reg_min_max_vals mcp env0 insn = Some (Inr env')" and "BPF_SRC (insn_code insn) \<noteq> BPF_X"
  defines "env \<equiv> clear_dst_id env0 (insn_dst insn)" and "dt \<equiv> reg_type (cur_regs env0 ! insn_dst insn)"
  shows "if dt = SCALAR_VALUE then adjust_reg_scalars env insn (imm_reg (insn_imm insn)) = Some (Inr env')
    else adjust_ptr_min_max_vals env insn (cur_regs env ! insn_dst insn) (imm_reg (insn_imm insn)) True = Inr env'"
  using assms(1,2) unfolding adjust_reg_min_max_vals_def Let_def env_def [symmetric] dt_def [symmetric]
  by (cases "dt = SCALAR_VALUE") simp_all

lemma adjust_reg_sound:
  assumes acc: "adjust_reg_min_max_vals mcp env insn = Some (Inr env')" and mcp: "keeps_values mcp"
    and code: "jumptable (insn_code insn) = L_ALU wide op x" "op \<noteq> OP_MOV"
    and m: "regs_models bs (cur_regs env) vs"
    and d: "insn_dst insn < MAX_BPF_REG" "reg_type (cur_regs env ! insn_dst insn) \<noteq> NOT_INIT"
    and s: "x \<Longrightarrow> insn_src insn < MAX_BPF_REG" "x \<Longrightarrow> reg_type (cur_regs env ! insn_src insn) \<noteq> NOT_INIT"
    and run: "interp_alu wide op x (vs ! insn_dst insn) (if x then vs ! insn_src insn else scast (insn_imm insn)) = Some (z, ax)"
    and vs': "only_dst (insn_dst insn) vs z vs'"
  shows "\<exists>bs'. rebased bs (insn_dst insn) bs' \<and> regs_models bs' (cur_regs env') vs'"
proof -
  let ?d = "insn_dst insn" and ?s = "insn_src insn" and ?e = "clear_dst_id env (insn_dst insn)"
  note e = clear_dst_id [OF m d(1)]
  have x: "BPF_SRC (insn_code insn) = BPF_X \<longleftrightarrow> x" using jumptable_alu(3) [OF code(1)] by simp
  show ?thesis
  proof (cases x)
    case True
    note sx = s [OF True] and runx = run [unfolded if_P [OF True]]
    have "BPF_SRC (insn_code insn) = BPF_X" using x True by simp
    with acc show ?thesis
    proof (cases rule: adjust_reg_reg)
      case ptrs
      show ?thesis unfolding ptrs(3)
        using regs_models_set [OF e(1) d(1) unknown_models regs_models_nth(2) [OF e(1) d(1)] vs'] d(1)
        by (simp add: mark_reg_unknown_regs)
    next
      case (src_ptr e1)
      note k = keeps_values_models [OF mcp src_ptr(3) e(1)]
      note ms = regs_models_nth [OF k(1) sx(1)] and md = regs_models_nth [OF k(1) d(1)]
      show ?thesis
        by (rule adjust_ptr_step [OF src_ptr(4) code(1) k(1) d(1) ms _ _ reg_models_scalar [OF md(1)] _ vs'])
          (use src_ptr(1,2) k(2) [OF sx(1)] k(2) [OF d(1)] e(2) sx(2) runx in simp_all)
    next
      case (dst_ptr e1)
      note k = keeps_values_models [OF mcp dst_ptr(3) e(1)]
      note ms = regs_models_nth [OF k(1) sx(1)] and md = regs_models_nth [OF k(1) d(1)]
      show ?thesis
        by (rule adjust_ptr_step [OF dst_ptr(4) code(1) k(1) d(1) md _ _ reg_models_scalar [OF ms(1)] _ vs'])
          (use dst_ptr(1,2) k(2) [OF sx(1)] k(2) [OF d(1)] e(2) d(2) runx in simp_all)
    next
      case scalars
      show ?thesis
        by (rule adjust_reg_scalars_sound [OF scalars(3) code e(1) d(1) _ reg_models_scalar [OF regs_models_nth(1) [OF e(1) sx(1)]] runx vs'])
          (use scalars(1,2) e(2) in simp_all)
    qed
  next
    case False
    note runk = run [unfolded if_not_P [OF False]]
    have nx: "BPF_SRC (insn_code insn) \<noteq> BPF_X" using x False by simp
    note a = adjust_reg_imm [OF acc nx]
    show ?thesis
    proof (cases "reg_type (cur_regs env ! ?d) = SCALAR_VALUE")
      case True
      show ?thesis
        by (rule adjust_reg_scalars_sound [OF a [unfolded if_P [OF True]] code e(1) d(1) _ imm_reg_ok runk vs']) (use True e(2) in simp)
    next
      case False
      show ?thesis
        by (rule adjust_ptr_step [OF a [unfolded if_not_P [OF False]] code(1) e(1) d(1) regs_models_nth [OF e(1) d(1)] _ _ imm_reg_ok _ vs'])
          (use False d(2) e(2) runk in simp_all)
    qed
  qed
qed

section \<open>Moves\<close>

lemma reg_models_live: "reg_models b (r\<lparr>reg_live := l, subreg_def := k\<rparr>) v = reg_models b r v"
  using value_view_models [of b "r\<lparr>reg_live := l, subreg_def := k\<rparr>" v] value_view_models [of b r v] by simp

lemma alu_mov_reg_wide:
  assumes acc: "alu_mov_reg env insn = Some (Inr env')" and w: "BPF_CLASS (insn_code insn) = BPF_ALU64"
    and m: "regs_models bs (cur_regs env) vs" and d: "insn_dst insn < MAX_BPF_REG" and s: "insn_src insn < MAX_BPF_REG"
    and vs': "only_dst (insn_dst insn) vs (vs ! insn_src insn) vs'"
  shows "\<exists>bs'. rebased bs (insn_dst insn) bs' \<and> regs_models bs' (cur_regs env') vs'"
proof -
  let ?s = "insn_src insn" and ?r = "cur_regs env ! insn_src insn"
  define rs where "rs = (if reg_type ?r = SCALAR_VALUE \<and> reg_id ?r = 0 then (cur_regs env)[?s := ?r\<lparr>reg_id := id_gen env + 1\<rparr>] else cur_regs env)"
  have m1: "regs_models bs rs vs" using m s by (auto simp: rs_def regs_models_def nth_list_update reg_models_id)
  have "cur_regs (env\<lparr>id_gen := k\<rparr>) = cur_regs env" for k by (simp add: cur_regs_def)
  then have "cur_regs env' = rs[insn_dst insn := (rs ! ?s)\<lparr>reg_live := reg_live (rs ! ?s) OR REG_LIVE_WRITTEN, subreg_def := DEF_NOT_SUBREG\<rparr>]"
    using acc w by (auto simp: alu_mov_reg_def Let_def rs_def)
  then show ?thesis
    using regs_models_set [OF m1 d _ _ vs'] regs_models_nth [OF m1 s] by (simp add: reg_models_live)
qed

lemma finish_type: "reg_type (uu_reg_bound_offset (uu_reg_deduce_bounds (uu_update_reg_bounds r))) = reg_type r"
  by (simp add: refine_keeps_off uu_reg_deduce_bounds_def)

lemma scalar_models: "reg_ok r v \<Longrightarrow> reg_type r = SCALAR_VALUE \<Longrightarrow> reg_models b r v"
  by (simp add: reg_models_def)

lemma alu_mov_reg_narrow:
  assumes acc: "alu_mov_reg env insn = Some (Inr env')" and w: "BPF_CLASS (insn_code insn) \<noteq> BPF_ALU64"
    and m: "regs_models bs (cur_regs env) vs" and d: "insn_dst insn < MAX_BPF_REG" and s: "insn_src insn < MAX_BPF_REG"
    and vs': "only_dst (insn_dst insn) vs (ucast (ucast (vs ! insn_src insn) :: u32)) vs'"
  shows "\<exists>bs'. rebased bs (insn_dst insn) bs' \<and> regs_models bs' (cur_regs env') vs'"
proof -
  let ?s = "cur_regs env ! insn_src insn" and ?v = "vs ! insn_src insn"
  let ?d = "if reg_type ?s = SCALAR_VALUE
    then ?s\<lparr>reg_id := 0, reg_live := reg_live ?s OR REG_LIVE_WRITTEN, subreg_def := insn_idx env + 1\<rparr>
    else uu_mark_reg_unknown env (cur_regs env ! insn_dst insn)"
  let ?r = "uu_reg_bound_offset (uu_reg_deduce_bounds (uu_update_reg_bounds (zext_32_to_64 ?d)))"
  have "reg_models (bs ! insn_src insn) ?d ?v"
    using regs_models_nth(1) [OF m s] by (simp add: reg_models_live reg_models_id)
  then have "reg_ok ?d ?v" by (rule reg_models_scalar) simp
  then have "reg_ok ?r (ucast (ucast ?v :: u32))"
    by (intro finish_ok zext_of_contains) (simp only: reg_ok_def)
  moreover have "reg_type ?r = SCALAR_VALUE" by (simp add: finish_type zext_type)
  ultimately have "reg_models (bs ! insn_src insn) ?r (ucast (ucast ?v :: u32))" by (rule scalar_models)
  moreover have "cur_regs env' = (cur_regs env)[insn_dst insn := ?r]"
    using acc w by (auto simp: alu_mov_reg_def Let_def split: if_splits)
  ultimately show ?thesis
    using regs_models_set [OF m d _ regs_models_nth(2) [OF m s] vs'] by simp
qed

lemma alu_mov_imm_sound:
  assumes m: "regs_models bs (cur_regs env) vs" and d: "insn_dst insn < MAX_BPF_REG"
    and vs': "only_dst (insn_dst insn) vs (if BPF_CLASS (insn_code insn) = BPF_ALU64 then scast (insn_imm insn) else ucast (insn_imm insn)) vs'"
  shows "\<exists>bs'. rebased bs (insn_dst insn) bs' \<and> regs_models bs' (cur_regs (alu_mov_imm env insn)) vs'"
proof -
  have "reg_models b (uu_mark_reg_known (r\<lparr>reg_type := SCALAR_VALUE\<rparr>) v) v" for b r v
    using uu_mark_reg_known_ok
    by (simp add: reg_models_def uu_mark_reg_known_def uuu_mark_reg_known_def)
  then show ?thesis
    using regs_models_set [OF m d _ regs_models_nth(2) [OF m d] vs'] by (simp add: alu_mov_imm_def Let_def)
qed

section \<open>One arithmetic instruction\<close>

lemma check_view:
  assumes "check_reg_arg env insn n t = Some (Inr env')" and "t \<noteq> DST_OP" and "regs_models bs (cur_regs env) vs"
  shows "regs_models bs (cur_regs env') vs" and "i < MAX_BPF_REG \<Longrightarrow> reg_type (cur_regs env' ! i) = reg_type (cur_regs env ! i)"
  using regs_models_cong [OF check_reg_arg_view(1) [OF assms(1,2), symmetric] assms(3)]
    view_type [OF check_reg_arg_view(1) [OF assms(1,2)], of i] assms(3)
  by (simp_all add: regs_models_def)

lemma check_dst:
  assumes "check_reg_arg env insn n DST_OP = Some (Inr env')" and "regs_models bs (cur_regs env) vs" and "only_dst n vs z vs'"
  shows "\<exists>bs'. rebased bs n bs' \<and> regs_models bs' (cur_regs env') vs'" and "n < MAX_BPF_REG"
proof -
  show n: "n < MAX_BPF_REG" using assms(1) by (auto simp: check_reg_arg_def split: if_splits)
  have "\<exists>e r. cur_regs env' = (cur_regs env)[n := uu_mark_reg_unknown e r]"
    using assms(1) n by (auto simp: check_reg_arg_def Let_def mark_reg_unknown_regs split: if_splits) blast+
  then show "\<exists>bs'. rebased bs n bs' \<and> regs_models bs' (cur_regs env') vs'"
    using regs_models_set [OF assms(2) n unknown_models regs_models_nth(2) [OF assms(2) n] assms(3)] by auto
qed

lemma check_alu_unary:
  assumes "check_alu_op mcp env insn = Some (Inr env')"
    and "BPF_OP (insn_code insn) = BPF_END \<or> BPF_OP (insn_code insn) = BPF_NEG"
    and "regs_models bs (cur_regs env) vs" and "only_dst (insn_dst insn) vs z vs'"
  shows "\<exists>bs'. rebased bs (insn_dst insn) bs' \<and> regs_models bs' (cur_regs env') vs'"
proof -
  obtain env1 where 1: "check_reg_arg env insn (insn_dst insn) SRC_OP = Some (Inr env1)"
    and 2: "check_reg_arg env1 insn (insn_dst insn) DST_OP = Some (Inr env')"
    using assms(1) unfolding check_alu_op_def Let_def if_P [OF assms(2)] by (auto simp: bind_res_Inr split: if_splits)
  show ?thesis by (rule check_dst(1) [OF 2 check_view(1) [OF 1 _ assms(3)] assms(4)]) simp
qed

lemma check_alu_mov:
  assumes acc: "check_alu_op mcp env insn = Some (Inr env')"
    and code: "jumptable (insn_code insn) = L_ALU wide OP_MOV x"
    and m: "regs_models bs (cur_regs env) vs"
    and run: "interp_alu wide OP_MOV x (vs ! insn_dst insn) (if x then vs ! insn_src insn else scast (insn_imm insn)) = Some (z, ax)"
    and vs': "only_dst (insn_dst insn) vs z vs'"
  shows "\<exists>bs'. rebased bs (insn_dst insn) bs' \<and> regs_models bs' (cur_regs env') vs'"
proof -
  note f = jumptable_alu [OF code, unfolded alu_opcode_def, simplified]
  have o: "BPF_OP (insn_code insn) = BPF_MOV" "\<not> (BPF_OP (insn_code insn) = BPF_END \<or> BPF_OP (insn_code insn) = BPF_NEG)"
    using f by simp_all
  obtain e1 e2 where 1: "(if x then check_reg_arg env insn (insn_src insn) SRC_OP else Some (Inr env)) = Some (Inr e1)"
    and 2: "check_reg_arg e1 insn (insn_dst insn) DST_OP_NO_MARK = Some (Inr e2)"
    and 3: "(if x then alu_mov_reg e2 insn else Some (Inr (alu_mov_imm e2 insn))) = Some (Inr env')"
    using acc f(3) unfolding check_alu_op_def Let_def if_not_P [OF o(2)] if_P [OF o(1)]
    by (cases x) (auto simp: bind_res_Inr split: if_splits)
  have m1: "regs_models bs (cur_regs e1) vs" using 1 check_view(1) [OF _ _ m] m by (cases x) auto
  note m2 = check_view(1) [OF 2 _ m1] and d = check_reg_arg_view(2) [OF 2]
  have w: "BPF_CLASS (insn_code insn) = BPF_ALU64 \<longleftrightarrow> wide" using f(1) by simp
  show ?thesis
  proof (cases x)
    case True
    have s: "insn_src insn < MAX_BPF_REG" using 1 True check_reg_arg_view(2) [of env insn "insn_src insn" SRC_OP] by simp
    have a: "alu_mov_reg e2 insn = Some (Inr env')" using 3 True by simp
    show ?thesis
    proof (cases wide)
      case w': True
      show ?thesis
        by (rule alu_mov_reg_wide [OF a _ m2 d s]) (use w w' True run vs' in \<open>simp_all add: interp_alu_def interp_alu64_def\<close>)
    next
      case w': False
      show ?thesis
        by (rule alu_mov_reg_narrow [OF a _ m2 d s]) (use w w' True run vs' in \<open>simp_all add: interp_alu_def interp_alu32_def\<close>)
    qed
  next
    case False
    have "ucast (scast (insn_imm insn) :: u64) = insn_imm insn" by (rule bit_word_eqI) (simp add: bit_simps)
    then have "z = (if BPF_CLASS (insn_code insn) = BPF_ALU64 then scast (insn_imm insn) else ucast (insn_imm insn))"
      using run False w by (simp add: interp_alu_def interp_alu64_def interp_alu32_def split: if_splits)
    then show ?thesis using alu_mov_imm_sound [OF m2 d] vs' 3 False by simp
  qed
qed

lemma check_alu_other:
  assumes acc: "check_alu_op mcp env insn = Some (Inr env')" and code: "jumptable (insn_code insn) = L_ALU wide op x" "op \<noteq> OP_MOV"
    and m: "regs_models bs (cur_regs env) vs"
  obtains env1 where "adjust_reg_min_max_vals mcp env1 insn = Some (Inr env')" "regs_models bs (cur_regs env1) vs"
    "insn_dst insn < MAX_BPF_REG" "reg_type (cur_regs env1 ! insn_dst insn) \<noteq> NOT_INIT"
    "x \<Longrightarrow> insn_src insn < MAX_BPF_REG" "x \<Longrightarrow> reg_type (cur_regs env1 ! insn_src insn) \<noteq> NOT_INIT"
    "op = OP_DIV \<or> op = OP_MOD \<Longrightarrow> \<not> x \<Longrightarrow> insn_imm insn \<noteq> 0"
    "op = OP_LSH \<or> op = OP_RSH \<or> op = OP_ARSH \<Longrightarrow> \<not> x \<Longrightarrow>
      \<not> insn_imm insn <s 0 \<and> \<not> (if wide then 64 else 32) \<le>s insn_imm insn"
proof -
  note f = jumptable_alu [OF code(1)]
  let ?c = "insn_code insn"
  have o: "\<not> (BPF_OP ?c = BPF_END \<or> BPF_OP ?c = BPF_NEG)" "BPF_OP ?c \<noteq> BPF_MOV" "\<not> BPF_OP ?c > BPF_END"
    using f(2) code(2) by (cases op; simp add: alu_opcode_def)+
  have k: "BPF_SRC ?c = BPF_K \<longleftrightarrow> \<not> x" "BPF_SRC ?c = BPF_X \<longleftrightarrow> x" using f(3) by simp_all
  have w: "BPF_CLASS ?c = BPF_ALU64 \<longleftrightarrow> wide" using f(1) by simp
  have opc: "BPF_OP ?c = BPF_MOD \<or> BPF_OP ?c = BPF_DIV \<longleftrightarrow> op = OP_DIV \<or> op = OP_MOD"
    "BPF_OP ?c = BPF_LSH \<or> BPF_OP ?c = BPF_RSH \<or> BPF_OP ?c = BPF_ARSH \<longleftrightarrow> op = OP_LSH \<or> op = OP_RSH \<or> op = OP_ARSH"
    using f(2) by (cases op; simp add: alu_opcode_def)+
  obtain e1 e2 e3 where 1: "(if x then check_reg_arg env insn (insn_src insn) SRC_OP else Some (Inr env)) = Some (Inr e1)"
    and 2: "check_reg_arg e1 insn (insn_dst insn) SRC_OP = Some (Inr e2)"
    and 3: "check_reg_arg e2 insn (insn_dst insn) DST_OP_NO_MARK = Some (Inr e3)"
    and 4: "adjust_reg_min_max_vals mcp e3 insn = Some (Inr env')"
    and 5: "\<not> ((op = OP_DIV \<or> op = OP_MOD) \<and> \<not> x \<and> insn_imm insn = 0)"
    and 6: "\<not> ((op = OP_LSH \<or> op = OP_RSH \<or> op = OP_ARSH) \<and> \<not> x \<and> (insn_imm insn <s 0 \<or> (if wide then 64 else 32) \<le>s insn_imm insn))"
    using acc unfolding check_alu_op_def Let_def if_not_P [OF o(1)] if_not_P [OF o(2)] if_not_P [OF o(3)] k w opc
    by (simp only: if_cancel bind_res_Inr split: if_split_asm) (auto simp: bind_res_Inr split: if_splits)
  have m1: "regs_models bs (cur_regs e1) vs" using 1 check_view(1) [OF _ _ m] m by (cases x) auto
  note m2 = check_view(1) [OF 2 _ m1] and m3 = check_view(1) [OF 3 _ check_view(1) [OF 2 _ m1]]
  have t: "reg_type (cur_regs e3 ! i) = reg_type (cur_regs e1 ! i)" if "i < MAX_BPF_REG" for i
    using that check_view(2) [OF 2 _ m1, of i] check_view(2) [OF 3 _ m2, of i] by simp
  note d = check_reg_arg_view(2,4) [OF 2]
  have s: "insn_src insn < MAX_BPF_REG" "reg_type (cur_regs e1 ! insn_src insn) \<noteq> NOT_INIT" if x
    using that 1 check_reg_arg_view(2,4) [of env insn "insn_src insn" SRC_OP e1] check_view(2) [of env insn "insn_src insn" SRC_OP e1 bs vs "insn_src insn"] m by simp_all
  show thesis by (rule that [OF 4 m3]) (use d s t 5 6 in auto)
qed

lemma only_dst_alu:
  "length vs = 12 \<Longrightarrow> d < MAX_BPF_REG \<Longrightarrow> only_dst d vs z ((case ax of None \<Rightarrow> vs | Some v \<Rightarrow> vs[11 := v])[d := z])"
  by (auto simp: only_dst_def split: option.splits)

lemma do_alu_Running:
  "do_alu wide op x insn st = Running st' \<longleftrightarrow>
    (\<exists>z ax. interp_alu wide op x (m_regs st ! insn_dst insn) (insn_operand x insn st) = Some (z, ax) \<and>
      st' = advance (set_reg (insn_dst insn) z (set_ax ax st)))"
  by (auto simp: do_alu_def Let_def split: option.splits)

definition alu_label :: "bpf_label \<Rightarrow> bool" where
  "alu_label l \<longleftrightarrow> (case l of L_ALU _ _ _ \<Rightarrow> True | L_NEG _ \<Rightarrow> True | L_END _ \<Rightarrow> True | _ \<Rightarrow> False)"

lemma check_alu_dst: "check_alu_op mcp env insn = Some (Inr env') \<Longrightarrow> alu_label (jumptable (insn_code insn)) \<Longrightarrow> insn_dst insn < MAX_BPF_REG"
  by (auto simp: check_alu_op_def Let_def bind_res_Inr check_reg_arg_def split: if_splits)

lemma check_alu_sound:
  assumes acc: "check_alu_op mcp env insn = Some (Inr env')" and mcp: "keeps_values mcp"
    and code: "alu_label (jumptable (insn_code insn))" and m: "regs_models bs (cur_regs env) (m_regs st)"
    and run: "exec_label ienv (jumptable (insn_code insn)) insn st = Running st'"
  shows "\<exists>bs'. rebased bs (insn_dst insn) bs' \<and> regs_models bs' (cur_regs env') (m_regs st')"
proof -
  note d = check_alu_dst [OF acc code]
  have len: "length (m_regs st) = 12" using m by (simp add: regs_models_def)
  note f = jumptable_fields [of "insn_code insn"]
  show ?thesis
  proof (cases "jumptable (insn_code insn)")
    case (L_ALU wide op x)
    obtain z ax where r: "interp_alu wide op x (m_regs st ! insn_dst insn) (if x then m_regs st ! insn_src insn else scast (insn_imm insn)) = Some (z, ax)"
      and st': "st' = advance (set_reg (insn_dst insn) z (set_ax ax st))"
      using run by (auto simp: L_ALU exec_label_def do_alu_Running insn_operand_def)
    have vs': "only_dst (insn_dst insn) (m_regs st) z (m_regs st')"
      using only_dst_alu [OF len d, of z ax] by (simp add: st' advance_def set_reg_def set_ax_def split: option.splits)
    show ?thesis
    proof (cases "op = OP_MOV")
      case True
      show ?thesis by (rule check_alu_mov [OF acc L_ALU [unfolded True] m r [unfolded True] vs'])
    next
      case False
      show ?thesis
        by (rule check_alu_other [OF acc L_ALU False m]) (rule adjust_reg_sound [OF _ mcp L_ALU False _ _ _ _ _ r vs'])
    qed
  next
    case (L_NEG wide)
    have "only_dst (insn_dst insn) (m_regs st) (alu_neg wide (m_regs st ! insn_dst insn)) (m_regs st')"
      using run only_dst_alu [OF len d, of _ None] by (auto simp: L_NEG exec_label_def advance_def set_reg_def)
    from check_alu_unary [OF acc _ m this] f show ?thesis by (simp add: L_NEG label_fields_def)
  next
    case (L_END be)
    have "only_dst (insn_dst insn) (m_regs st) (alu_end (little_endian ienv) be (insn_imm insn) (m_regs st ! insn_dst insn)) (m_regs st')"
      using run only_dst_alu [OF len d, of _ None] by (auto simp: L_END exec_label_def advance_def set_reg_def Let_def)
    from check_alu_unary [OF acc _ m this] f show ?thesis by (simp add: L_END label_fields_def)
  qed (use code in \<open>simp_all add: alu_label_def\<close>)
qed

section \<open>Accepted instructions are not stuck\<close>

text \<open>The divisor as the operation sees it: the lower half only for a 32-bit operation.\<close>

definition zero_divisor :: "bool \<Rightarrow> bpf_alu_op \<Rightarrow> u64 \<Rightarrow> bool" where
  "zero_divisor wide op v \<longleftrightarrow> (op = OP_DIV \<or> op = OP_MOD) \<and> (if wide then v = 0 else (ucast v :: u32) = 0)"

lemma unat_and_mask: "unat (v AND 63 :: u64) < 64" "unat (w AND 31 :: u32) < 32"
proof -
  have "v AND 63 = take_bit 6 v" "w AND 31 = take_bit 5 w" by (simp_all add: take_bit_eq_mask mask_eq_exp_minus_1)
  then show "unat (v AND 63) < 64" "unat (w AND 31) < 32"
    using take_bit_nat_less_exp [of 6 "unat v"] take_bit_nat_less_exp [of 5 "unat w"]
    by (simp_all add: unsigned_take_bit_eq)
qed

lemma interp_alu_reg: "\<not> zero_divisor wide op v \<Longrightarrow> interp_alu wide op True d v \<noteq> None"
  by (cases op; cases wide) (simp_all add: interp_alu_def interp_alu64_def interp_alu32_def zero_divisor_def
      shift_ok_def div64_u64_def div64_u64_rem_def do_div_def unat_and_mask Let_def)

lemma shift_imm:
  fixes im n :: s32
  assumes "\<not> im <s 0" and "\<not> n \<le>s im" and "sint n \<le> 64"
  shows "unat (scast im :: u64) < nat (sint n)" and "unat im < nat (sint n)"
proof -
  have s: "0 \<le> sint im" "sint im < sint n" using assms(1,2) by (simp_all add: word_order_int)
  have "uint im = sint im" by (rule sint_nonneg_uint [OF s(1)])
  then show "unat im < nat (sint n)" using s by (simp add: unat_eq_nat_uint)
  have "sint (scast im :: u64) = sint im" using s assms(3) by (simp add: signed_scast_eq signed_take_bit_int_eq_self)
  then have "uint (scast im :: u64) = sint im" using sint_nonneg_uint [of "scast im :: u64"] s(1) by simp
  then show "unat (scast im :: u64) < nat (sint n)" using s by (simp add: unat_eq_nat_uint)
qed

lemma ucast_scast_imm: "ucast (scast (im :: s32) :: u64) = im"
  by (rule bit_word_eqI) (simp add: bit_simps)

lemma interp_alu_imm:
  fixes im :: s32
  assumes "op = OP_DIV \<or> op = OP_MOD \<Longrightarrow> im \<noteq> 0"
    and "op = OP_LSH \<or> op = OP_RSH \<or> op = OP_ARSH \<Longrightarrow> \<not> im <s 0 \<and> \<not> (if wide then 64 else 32) \<le>s im"
  shows "interp_alu wide op False d (scast im) \<noteq> None"
proof -
  have nz: "op = OP_DIV \<or> op = OP_MOD \<Longrightarrow> (scast im :: u64) \<noteq> 0"
    using assms(1) ucast_scast_imm [of im] by (metis ucast_0)
  have sh: "unat (scast im :: u64) < 64" "\<not> wide \<Longrightarrow> unat im < 32" if "op = OP_LSH \<or> op = OP_RSH \<or> op = OP_ARSH"
    using assms(2) [OF that] shift_imm [of im 64] shift_imm [of im 32] by (cases wide; simp)+
  show ?thesis
  proof (cases "op \<in> {OP_LSH, OP_RSH, OP_ARSH, OP_DIV, OP_MOD}")
    case True
    then show ?thesis using nz sh assms(1)
      by (cases wide) (auto simp: interp_alu_def interp_alu64_def interp_alu32_def shift_ok_def div64_u64_def
          div64_u64_rem_def do_div_def ucast_scast_imm Let_def)
  next
    case False
    then show ?thesis by (cases op; cases wide) (simp_all add: interp_alu_def interp_alu64_def interp_alu32_def Let_def)
  qed
qed

lemma check_alu_not_stuck:
  assumes acc: "check_alu_op mcp env insn = Some (Inr env')" and code: "alu_label (jumptable (insn_code insn))"
    and m: "regs_models bs (cur_regs env) (m_regs st)"
    and div: "\<And>wide op. jumptable (insn_code insn) = L_ALU wide op True \<Longrightarrow> \<not> zero_divisor wide op (m_regs st ! insn_src insn)"
  shows "\<exists>st'. exec_label ienv (jumptable (insn_code insn)) insn st = Running st'"
proof (cases "jumptable (insn_code insn)")
  case (L_ALU wide op x)
  have "interp_alu wide op x (m_regs st ! insn_dst insn) (insn_operand x insn st) \<noteq> None"
  proof (cases x)
    case True
    then show ?thesis using interp_alu_reg div L_ALU by (simp add: insn_operand_def)
  next
    case False
    have "interp_alu wide op False (m_regs st ! insn_dst insn) (scast (insn_imm insn)) \<noteq> None"
    proof (cases "op = OP_MOV")
      case True
      then show ?thesis by (simp add: interp_alu_def interp_alu64_def interp_alu32_def)
    next
      case mov: False
      show ?thesis by (rule check_alu_other [OF acc L_ALU mov m]) (rule interp_alu_imm; use False in blast)
    qed
    then show ?thesis using False by (simp add: insn_operand_def)
  qed
  then show ?thesis by (simp add: L_ALU exec_label_def do_alu_Running)
qed (use code in \<open>simp_all add: alu_label_def exec_label_def\<close>)

end
