(* ===== verification/Bpf_Safety.thy ===== *)
theory Bpf_Safety
  imports Bpf_Check Bpf_Mem
begin

text \<open>
  What the checks of single instructions give for straight-line arithmetic code and for accesses to map
  values. The locale \<open>sound_check\<close> is the contract between a checker and a machine; \<open>safe_check\<close>
  adds progress. Both are instantiated with the verifier's \<^verbatim>\<open>check_alu_op\<close> and the
  interpreter. A pointer that has been through any accepted arithmetic and passes
  \<^verbatim>\<open>check_map_access\<close> is used inside its map value only.
\<close>

section \<open>Straight-line code\<close>

text \<open>A sequence of steps that may fail.\<close>

fun steps :: "('i \<Rightarrow> 's \<Rightarrow> 's option) \<Rightarrow> 'i list \<Rightarrow> 's \<Rightarrow> 's option" where
  "steps f [] s = Some s"
| "steps f (i # is) s = (case f i s of None \<Rightarrow> None | Some s' \<Rightarrow> steps f is s')"

text \<open>
  The contract of a checker: \<open>gamma\<close> relates the checker's state to the states of the machine, an
  accepted step keeps the relation.
\<close>

locale sound_check =
  fixes gamma :: "'a \<Rightarrow> 'c \<Rightarrow> bool" and check :: "'i \<Rightarrow> 'a \<Rightarrow> 'a option" and exec :: "'i \<Rightarrow> 'c \<Rightarrow> 'c option"
  assumes sound: "gamma a c \<Longrightarrow> check i a = Some a' \<Longrightarrow> exec i c = Some c' \<Longrightarrow> gamma a' c'"
begin

lemma steps_sound: "gamma a c \<Longrightarrow> steps check is a = Some a' \<Longrightarrow> steps exec is c = Some c' \<Longrightarrow> gamma a' c'"
  by (induction "is" arbitrary: a c) (auto split: option.splits dest: sound)

end

text \<open>A checker whose accepted steps can be executed where the side condition \<open>fine\<close> holds.\<close>

locale safe_check = sound_check gamma check exec
  for gamma :: "'a \<Rightarrow> 'c \<Rightarrow> bool" and check :: "'i \<Rightarrow> 'a \<Rightarrow> 'a option" and exec :: "'i \<Rightarrow> 'c \<Rightarrow> 'c option" +
  fixes fine :: "'i \<Rightarrow> 'c \<Rightarrow> bool"
  assumes progress: "gamma a c \<Longrightarrow> check i a = Some a' \<Longrightarrow> fine i c \<Longrightarrow> exec i c \<noteq> None"
begin

lemma stuck_only_unfine:
  assumes "gamma a c" and "steps check is a = Some a'" and "steps exec is c = None"
  shows "\<exists>pre i post c'. is = pre @ i # post \<and> steps exec pre c = Some c' \<and> \<not> fine i c'"
  using assms
proof (induction "is" arbitrary: a c)
  case (Cons i "is")
  then obtain a1 where a1: "check i a = Some a1" "steps check is a1 = Some a'" by (auto split: option.splits)
  show ?case
  proof (cases "exec i c")
    case None
    then have "\<not> fine i c" using progress [OF Cons.prems(1) a1(1)] by blast
    then show ?thesis by (intro exI [of _ "[]"]) simp
  next
    case (Some c1)
    then obtain pre j post c' where "is = pre @ j # post" "steps exec pre c1 = Some c'" "\<not> fine j c'"
      using Cons.IH [OF sound [OF Cons.prems(1) a1(1) Some] a1(2)] Cons.prems(3) by auto
    then show ?thesis using Some by (intro exI [of _ "i # pre"]) auto
  qed
qed simp

end

text \<open>The verifier and the interpreter on arithmetic instructions; \<open>B\<close> has the objects' addresses.\<close>

definition alu_gamma :: "u64 set \<Rightarrow> bpf_verifier_env \<Rightarrow> interp_state \<Rightarrow> bool" where
  "alu_gamma B env st \<longleftrightarrow> (\<exists>bs. set bs \<subseteq> B \<and> regs_models bs (cur_regs env) (m_regs st))"

definition alu_check :: "(bpf_verifier_env \<Rightarrow> nat \<Rightarrow> bpf_verifier_env result) \<Rightarrow> bpf_insn \<Rightarrow> bpf_verifier_env \<Rightarrow> bpf_verifier_env option" where
  "alu_check mcp insn env = (if alu_label (jumptable (insn_code insn))
     then case check_alu_op mcp env insn of Some (Inr env') \<Rightarrow> Some env' | _ \<Rightarrow> None else None)"

definition alu_exec :: "interp_env \<Rightarrow> bpf_insn \<Rightarrow> interp_state \<Rightarrow> interp_state option" where
  "alu_exec ienv insn st = (case exec_label ienv (jumptable (insn_code insn)) insn st of Running st' \<Rightarrow> Some st' | _ \<Rightarrow> None)"

definition alu_fine :: "bpf_insn \<Rightarrow> interp_state \<Rightarrow> bool" where
  "alu_fine insn st = (case jumptable (insn_code insn) of
     L_ALU wide op True \<Rightarrow> \<not> zero_divisor wide op (m_regs st ! insn_src insn) | _ \<Rightarrow> True)"

lemma alu_fineD:
  "alu_fine insn st \<Longrightarrow> jumptable (insn_code insn) = L_ALU wide op True \<Longrightarrow> \<not> zero_divisor wide op (m_regs st ! insn_src insn)"
  by (simp add: alu_fine_def)

lemma alu_check_Some: "alu_check mcp insn env = Some env' \<longleftrightarrow>
    alu_label (jumptable (insn_code insn)) \<and> check_alu_op mcp env insn = Some (Inr env')"
  by (auto simp: alu_check_def split: option.splits sum.splits)

lemma alu_exec_Some: "alu_exec ienv insn st = Some st' \<longleftrightarrow> exec_label ienv (jumptable (insn_code insn)) insn st = Running st'"
  by (auto simp: alu_exec_def split: outcome.splits)

lemma rebased_subset: "rebased bs d bs' \<Longrightarrow> set bs \<subseteq> B \<Longrightarrow> set bs' \<subseteq> B"
  unfolding rebased_def using set_update_subset_insert by fastforce

locale alu_checker =
  fixes mcp :: "bpf_verifier_env \<Rightarrow> nat \<Rightarrow> bpf_verifier_env result" and B :: "u64 set" and ienv :: interp_env
  assumes values_kept: "keeps_values mcp"

sublocale alu_checker \<subseteq> alu: safe_check "alu_gamma B" "alu_check mcp" "alu_exec ienv" alu_fine
proof unfold_locales
  fix env st insn env' st'
  assume g: "alu_gamma B env st" and c: "alu_check mcp insn env = Some env'"
  then obtain bs where bs: "set bs \<subseteq> B" "regs_models bs (cur_regs env) (m_regs st)" by (auto simp: alu_gamma_def)
  note c = c [unfolded alu_check_Some]
  show "alu_gamma B env' st'" if run: "alu_exec ienv insn st = Some st'"
  proof -
    obtain bs' where "rebased bs (insn_dst insn) bs'" "regs_models bs' (cur_regs env') (m_regs st')"
      using check_alu_sound [OF conjunct2 [OF c] values_kept conjunct1 [OF c] bs(2) run [unfolded alu_exec_Some]] by blast
    then show ?thesis
      using bs(1) rebased_subset unfolding alu_gamma_def by blast
  qed
  show "alu_exec ienv insn st \<noteq> None" if "alu_fine insn st"
    using check_alu_not_stuck [OF conjunct2 [OF c] conjunct1 [OF c] bs(2) alu_fineD [OF that], of ienv]
    by (auto simp: alu_exec_def)
qed

context alu_checker
begin

lemma straight_line:
  "alu_gamma B env st \<Longrightarrow> steps (alu_check mcp) insns env = Some env' \<Longrightarrow>
   steps (alu_exec ienv) insns st = Some st' \<Longrightarrow> alu_gamma B env' st'"
  by (rule alu.steps_sound)

lemma straight_line_stuck:
  "alu_gamma B env st \<Longrightarrow> steps (alu_check mcp) insns env = Some env' \<Longrightarrow> steps (alu_exec ienv) insns st = None \<Longrightarrow>
   \<exists>pre insn post st'. insns = pre @ insn # post \<and> steps (alu_exec ienv) pre st = Some st' \<and> \<not> alu_fine insn st'"
  by (rule alu.stuck_only_unfine)

end

text \<open>Without the capability there is no precision to track and backtracking returns at once.\<close>

definition no_precision :: "bpf_verifier_env \<Rightarrow> nat \<Rightarrow> bpf_verifier_env result" where
  "no_precision env regno = Some (Inr env)"

lemma no_precision_values: "keeps_values no_precision"
  by (simp add: keeps_values_def no_precision_def)

interpretation unpriv: alu_checker no_precision B ienv for B ienv
  by unfold_locales (rule no_precision_values)

lemma alu_checkerI: "keeps_values mcp \<Longrightarrow> alu_checker mcp"
  by unfold_locales

lemmas alu_straight_line = alu_checker.straight_line [OF alu_checkerI]

lemmas alu_straight_line_stuck = alu_checker.straight_line_stuck [OF alu_checkerI]

section \<open>Accesses through an accepted pointer\<close>

lemma map_value_access:
  fixes insn_off' :: s16 and k :: nat
  assumes acc: "check_map_access mp reg (scast insn_off' + reg_off reg) len z = Inr ()" and p: "ptr_contains reg b v"
    and off: "\<bar>sint (reg_off reg)\<bar> < 2 ^ 29" and k: "int k < sint len"
  shows "uint (v + scast insn_off' + of_nat k - b) < uint (value_size mp)"
proof -
  obtain x where x: "reg_contains reg x" "v = b + scast (reg_off reg) + x" using p by (auto simp: ptr_contains_def)
  let ?o = "scast insn_off' + reg_off reg"
  have s16: "\<bar>sint insn_off'\<bar> \<le> 2 ^ 15" using sint_ge [of insn_off'] sint_lt [of insn_off'] by (simp add: abs_le_iff)
  have o: "sint ?o = sint insn_off' + sint (reg_off reg)"
    using sint_add_wrap [of "scast insn_off' :: s32" "reg_off reg"] off s16 by (simp add: signed_scast_eq signed_take_bit_int_eq_self split: if_splits)
  note m = check_map_access_sound [OF acc, of x, unfolded o]
  have b: "bounds64 reg x" using x(1) by (simp add: reg_contains_def)
  let ?n = "uint x + (sint insn_off' + sint (reg_off reg)) + int k"
  have n: "0 \<le> ?n" "?n < uint (value_size mp)" using m(1,2) [OF b] k by simp_all
  have e: "v + scast insn_off' + of_nat k - b = (of_int ?n :: u64)"
    unfolding x(2) by simp
  have "?n < 2 ^ 64" using n(2) uint_lt2p [of "value_size mp"] by simp
  moreover have "uint (of_int j :: u64) = j" if "0 \<le> j" "j < 2 ^ 64" for j
    using that by (simp add: unsigned_of_int take_bit_int_eq_self)
  ultimately have "uint (of_int ?n :: u64) = ?n" using n(1) by blast
  then show ?thesis using n(2) unfolding e by simp
qed

end
