(* ===== verification/Bpf_Prune.thy ===== *)
theory Bpf_Prune
  imports Bpf_Safety
begin

text \<open>
  Pruning in the verifier (\<^verbatim>\<open>kernel/bpf/verifier.c\<close>): a path is not explored further when its
  state is covered by an explored one (\<^verbatim>\<open>states_equal\<close> and the comparisons of registers, stack
  slots and references below it), and explored states are cleaned of what nothing has read
  (\<^verbatim>\<open>clean_live_states\<close>). The lemmas show that a covered state allows no value the explored one
  does not, that accesses checked in the explored state stay inside their object, that cleaning changes
  no comparison, and in which case the comparison of ids is skipped.
\<close>

unbundle bit_operations_syntax

section \<open>Frames and stack slots\<close>

datatype bpf_stack_slot_type = STACK_INVALID | STACK_SPILL | STACK_MISC | STACK_ZERO

abbreviation BPF_REG_SIZE :: nat where "BPF_REG_SIZE \<equiv> 8"
abbreviation BPF_ID_MAP_SIZE :: nat where "BPF_ID_MAP_SIZE \<equiv> 75"

record bpf_stack_state =
  spilled_ptr :: bpf_reg_state
  slot_type :: "bpf_stack_slot_type list"

record bpf_reference_state =
  ref_id :: s32
  ref_insn_idx :: s32

text \<open>The counts of bytes of stack and of references are never negative and are natural numbers.\<close>

record bpf_func_state =
  fs_regs :: "bpf_reg_state list"
  callsite :: s32
  acquired_refs :: nat
  fs_refs :: "bpf_reference_state list"
  allocated_stack :: nat
  fs_stack :: "bpf_stack_state list"

text \<open>
  A verifier state with all its frames, as the comparisons read it; the other functions only use the
  registers of the current frame, which \<^typ>\<open>bpf_verifier_state\<close> has.
\<close>

record bpf_frames_state =
  vs_frame :: "bpf_func_state list"
  vs_branches :: u32
  vs_insn_idx :: u32
  curframe :: nat
  active_spin_lock :: u32
  vs_speculative :: bool

type_synonym bpf_id_map = "(u32 \<times> u32) list"

section \<open>Cleaning explored states\<close>

definition clean_reg :: "bpf_verifier_env \<Rightarrow> bpf_reg_state \<Rightarrow> bpf_reg_state" where
  "clean_reg env r =
    (let live = reg_live r; r' = r\<lparr>reg_live := live OR REG_LIVE_DONE\<rparr>
     in if live AND REG_LIVE_READ = 0 then uu_mark_reg_not_init env r' else r')"

definition clean_slot :: "bpf_verifier_env \<Rightarrow> bpf_stack_state \<Rightarrow> bpf_stack_state" where
  "clean_slot env s =
    (let live = reg_live (spilled_ptr s); p = (spilled_ptr s)\<lparr>reg_live := live OR REG_LIVE_DONE\<rparr>
     in if live AND REG_LIVE_READ = 0
        then \<lparr>spilled_ptr = uu_mark_reg_not_init env p, slot_type = replicate BPF_REG_SIZE STACK_INVALID\<rparr>
        else s\<lparr>spilled_ptr := p\<rparr>)"

definition map_upto :: "('a \<Rightarrow> 'a) \<Rightarrow> nat \<Rightarrow> 'a list \<Rightarrow> 'a list" where
  "map_upto f n xs = map f (take n xs) @ drop n xs"

definition clean_func_state :: "bpf_verifier_env \<Rightarrow> bpf_func_state \<Rightarrow> bpf_func_state" where
  "clean_func_state env st = st\<lparr>
     fs_regs := map_upto (clean_reg env) BPF_REG_FP (fs_regs st),
     fs_stack := map_upto (clean_slot env) (allocated_stack st div BPF_REG_SIZE) (fs_stack st)\<rparr>"

definition clean_verifier_state :: "bpf_verifier_env \<Rightarrow> bpf_frames_state \<Rightarrow> bpf_frames_state" where
  "clean_verifier_state env st =
    (if reg_live (fs_regs (vs_frame st ! 0) ! 0) AND REG_LIVE_DONE \<noteq> 0 then st
     else st\<lparr>vs_frame := map_upto (clean_func_state env) (Suc (curframe st)) (vs_frame st)\<rparr>)"

text \<open>The list of explored states of the instruction, in the order of the links.\<close>

definition clean_live_states :: "bpf_verifier_env \<Rightarrow> u32 \<Rightarrow> bpf_frames_state \<Rightarrow> bpf_frames_state list \<Rightarrow> bpf_frames_state list" where
  "clean_live_states env insn cur sl = map (\<lambda>s.
     if vs_branches s \<noteq> 0 then s
     else if vs_insn_idx s \<noteq> insn \<or> curframe s \<noteq> curframe cur then s
     else if list_ex (\<lambda>i. callsite (vs_frame s ! i) \<noteq> callsite (vs_frame cur ! i)) [0..<Suc (curframe cur)] then s
     else clean_verifier_state env s) sl"

section \<open>Comparing registers\<close>

definition range_within :: "bpf_reg_state \<Rightarrow> bpf_reg_state \<Rightarrow> bool" where
  "range_within old cur \<longleftrightarrow>
    umin_value old \<le> umin_value cur \<and> umax_value cur \<le> umax_value old \<and>
    smin_value old \<le>s smin_value cur \<and> smax_value cur \<le>s smax_value old \<and>
    u32_min_value old \<le> u32_min_value cur \<and> u32_max_value cur \<le> u32_max_value old \<and>
    s32_min_value old \<le>s s32_min_value cur \<and> s32_max_value cur \<le>s s32_max_value old"

text \<open>The result of \<^verbatim>\<open>check_ids\<close> with the updated array of pairs.\<close>

fun check_ids :: "u32 \<Rightarrow> u32 \<Rightarrow> bpf_id_map \<Rightarrow> bool \<times> bpf_id_map" where
  "check_ids old_id cur_id [] = (False, [])"
| "check_ids old_id cur_id ((ol, cu) # idmap) =
    (if ol = 0 then (True, (old_id, cur_id) # idmap)
     else if ol = old_id then (cu = cur_id, (ol, cu) # idmap)
     else let (r, idmap') = check_ids old_id cur_id idmap in (r, (ol, cu) # idmap'))"

text \<open>
  The two calls of \<^verbatim>\<open>memcmp\<close>: the fields before \<^verbatim>\<open>id\<close>, and the fields before
  \<^verbatim>\<open>parent\<close>. The padding of the structure is always zero.
\<close>

definition same_upto_id :: "bpf_reg_state \<Rightarrow> bpf_reg_state \<Rightarrow> bool" where
  "same_upto_id a b \<longleftrightarrow> reg_type a = reg_type b \<and> reg_raw a = reg_raw b \<and> reg_off a = reg_off b"

definition same_upto_parent :: "bpf_reg_state \<Rightarrow> bpf_reg_state \<Rightarrow> bool" where
  "same_upto_parent a b \<longleftrightarrow> same_upto_id a b \<and> reg_id a = reg_id b \<and> ref_obj_id a = ref_obj_id b \<and>
    var_off a = var_off b \<and> smin_value a = smin_value b \<and> smax_value a = smax_value b \<and>
    umin_value a = umin_value b \<and> umax_value a = umax_value b \<and>
    s32_min_value a = s32_min_value b \<and> s32_max_value a = s32_max_value b \<and>
    u32_min_value a = u32_min_value b \<and> u32_max_value a = u32_max_value b"

definition regsafe :: "bpf_verifier_env \<Rightarrow> bpf_reg_state \<Rightarrow> bpf_reg_state \<Rightarrow> bpf_id_map \<Rightarrow> bool \<times> bpf_id_map" where
  "regsafe env rold rcur idmap =
    (if reg_live rold AND REG_LIVE_READ = 0 then (True, idmap)
     else let equal = same_upto_parent rold rcur in
     if reg_type rold = PTR_TO_STACK then (equal \<and> frameno rold = frameno rcur, idmap)
     else if equal then (True, idmap)
     else if reg_type rold = NOT_INIT then (True, idmap)
     else if reg_type rcur = NOT_INIT then (False, idmap)
     else case reg_type rold of
       SCALAR_VALUE \<Rightarrow>
         if explore_alu_limits env then (False, idmap)
         else if reg_type rcur = SCALAR_VALUE then
           (if \<not> reg_precise rold \<and> \<not> reg_precise rcur then (True, idmap)
            else (range_within rold rcur \<and> tnum_in (var_off rold) (var_off rcur), idmap))
         else (False, idmap)
     | PTR_TO_MAP_VALUE \<Rightarrow>
         (same_upto_id rold rcur \<and> range_within rold rcur \<and> tnum_in (var_off rold) (var_off rcur), idmap)
     | PTR_TO_MAP_VALUE_OR_NULL \<Rightarrow>
         if reg_type rcur \<noteq> PTR_TO_MAP_VALUE_OR_NULL then (False, idmap)
         else if \<not> same_upto_id rold rcur then (False, idmap)
         else check_ids (reg_id rold) (reg_id rcur) idmap
     | t \<Rightarrow>
         if t = PTR_TO_PACKET_META \<or> t = PTR_TO_PACKET then
           if reg_type rcur \<noteq> t then (False, idmap)
           else if reg_range rcur < reg_range rold then (False, idmap)
           else if reg_off rold \<noteq> reg_off rcur then (False, idmap)
           else let (ok, idmap') = (if reg_id rold \<noteq> 0 then check_ids (reg_id rold) (reg_id rcur) idmap else (True, idmap)) in
             if \<not> ok then (False, idmap')
             else (range_within rold rcur \<and> tnum_in (var_off rold) (var_off rcur), idmap')
         else (False, idmap))"

section \<open>Comparing stacks, references and states\<close>

text \<open>The loop of \<^verbatim>\<open>stacksafe\<close> from byte \<open>i\<close> of the explored stack on.\<close>

function stacksafe_loop :: "bpf_verifier_env \<Rightarrow> bpf_func_state \<Rightarrow> bpf_func_state \<Rightarrow> nat \<Rightarrow> bpf_id_map \<Rightarrow> bool \<times> bpf_id_map" where
  "stacksafe_loop env old cur i idmap =
    (if i \<ge> allocated_stack old then (True, idmap)
     else let spi = i div BPF_REG_SIZE;
              os = fs_stack old ! spi; cs = fs_stack cur ! spi;
              b = i mod BPF_REG_SIZE in
     if reg_live (spilled_ptr os) AND REG_LIVE_READ = 0 then stacksafe_loop env old cur (i + BPF_REG_SIZE) idmap
     else if slot_type os ! b = STACK_INVALID then stacksafe_loop env old cur (i + 1) idmap
     else if i \<ge> allocated_stack cur then (False, idmap)
     else if slot_type os ! b = STACK_MISC \<and> slot_type cs ! b = STACK_ZERO then stacksafe_loop env old cur (i + 1) idmap
     else if slot_type os ! b \<noteq> slot_type cs ! b then (False, idmap)
     else if b \<noteq> 0 then stacksafe_loop env old cur (i + 1) idmap
     else if slot_type os ! 0 \<noteq> STACK_SPILL then stacksafe_loop env old cur (i + 1) idmap
     else let (ok, idmap') = regsafe env (spilled_ptr os) (spilled_ptr cs) idmap in
       if \<not> ok then (False, idmap') else stacksafe_loop env old cur (i + 1) idmap')"
  by pat_completeness auto
termination by (relation "measure (\<lambda>(env, old, cur, i, idmap). allocated_stack old - i)") auto

declare stacksafe_loop.simps [simp del]

definition stacksafe :: "bpf_verifier_env \<Rightarrow> bpf_func_state \<Rightarrow> bpf_func_state \<Rightarrow> bpf_id_map \<Rightarrow> bool \<times> bpf_id_map" where
  "stacksafe env old cur idmap = stacksafe_loop env old cur 0 idmap"

definition refsafe :: "bpf_func_state \<Rightarrow> bpf_func_state \<Rightarrow> bool" where
  "refsafe old cur =
    (if acquired_refs old \<noteq> acquired_refs cur then False
     else take (acquired_refs old) (fs_refs old) = take (acquired_refs old) (fs_refs cur))"

fun regs_loop :: "bpf_verifier_env \<Rightarrow> bpf_reg_state list \<Rightarrow> bpf_reg_state list \<Rightarrow> nat list \<Rightarrow> bpf_id_map \<Rightarrow> bool \<times> bpf_id_map" where
  "regs_loop env olds curs [] idmap = (True, idmap)"
| "regs_loop env olds curs (i # is) idmap =
    (let (ok, idmap') = regsafe env (olds ! i) (curs ! i) idmap
     in if ok then regs_loop env olds curs is idmap' else (False, idmap'))"

definition func_states_equal :: "bpf_verifier_env \<Rightarrow> bpf_func_state \<Rightarrow> bpf_func_state \<Rightarrow> bool" where
  "func_states_equal env old cur =
    (let (ok, idmap) = regs_loop env (fs_regs old) (fs_regs cur) [0..<MAX_BPF_REG] (replicate BPF_ID_MAP_SIZE (0, 0)) in
     if \<not> ok then False
     else if \<not> fst (stacksafe env old cur idmap) then False
     else refsafe old cur)"

definition states_equal :: "bpf_verifier_env \<Rightarrow> bpf_frames_state \<Rightarrow> bpf_frames_state \<Rightarrow> bool" where
  "states_equal env old cur =
    (if curframe old \<noteq> curframe cur then False
     else if vs_speculative old \<and> \<not> vs_speculative cur then False
     else if active_spin_lock old \<noteq> active_spin_lock cur then False
     else list_all (\<lambda>i. callsite (vs_frame old ! i) = callsite (vs_frame cur ! i) \<and>
       func_states_equal env (vs_frame old ! i) (vs_frame cur ! i)) [0..<Suc (curframe old)])"

definition states_maybe_looping :: "bpf_frames_state \<Rightarrow> bpf_frames_state \<Rightarrow> bool" where
  "states_maybe_looping old cur =
    (let fr = curframe cur in
     if curframe old \<noteq> fr then False
     else list_all (\<lambda>i. same_upto_parent (fs_regs (vs_frame old ! fr) ! i) (fs_regs (vs_frame cur ! fr) ! i)) [0..<MAX_BPF_REG])"

section \<open>What a comparison shows\<close>

text \<open>
  The explored register \<open>rold\<close> covers \<open>rcur\<close>: it was not read or not initialised, or both have the
  same type, point to the same place of the same object (a packet pointer may have a larger range)
  and every variable part \<open>rcur\<close> allows is allowed by \<open>rold\<close>. The values of two scalars that were not
  needed precisely are not compared.
\<close>

definition reg_covers :: "bpf_reg_state \<Rightarrow> bpf_reg_state \<Rightarrow> bool" where
  "reg_covers rold rcur \<longleftrightarrow> reg_live rold AND REG_LIVE_READ = 0 \<or> reg_type rold = NOT_INIT \<or>
    reg_type rcur = reg_type rold \<and>
    (reg_type rold \<noteq> SCALAR_VALUE \<longrightarrow> reg_off rcur = reg_off rold \<and>
      (if reg_type rold \<in> {PTR_TO_PACKET, PTR_TO_PACKET_META} then reg_range rold \<le> reg_range rcur
       else reg_raw rcur = reg_raw rold)) \<and>
    (reg_type rold = PTR_TO_STACK \<longrightarrow> frameno rcur = frameno rold) \<and>
    (reg_type rold = SCALAR_VALUE \<and> \<not> reg_precise rold \<and> \<not> reg_precise rcur \<or>
     reg_type rold = PTR_TO_MAP_VALUE_OR_NULL \<or>
     (\<forall>x. reg_contains rcur x \<longrightarrow> reg_contains rold x))"

lemma range_within_contains:
  assumes rw: "range_within old cur" and tn: "tnum_in (var_off old) (var_off cur)" and x: "reg_contains cur x"
  shows "reg_contains old x"
  using assms tnum_in_sound [OF tn reg_containsD(1) [OF x]]
  by (auto simp: range_within_def reg_contains_def bounds64_def bounds32_def word_sle_eq)

lemma same_upto_parent_contains: "same_upto_parent a b \<Longrightarrow> reg_contains a x = reg_contains b x"
  by (simp add: same_upto_parent_def reg_contains_def bounds64_def bounds32_def)

lemma same_upto_parent_covers:
  assumes "same_upto_parent rold rcur" and "reg_type rold = PTR_TO_STACK \<longrightarrow> frameno rold = frameno rcur"
  shows "reg_covers rold rcur"
  using assms same_upto_parent_contains [OF assms(1)]
  by (simp add: reg_covers_def same_upto_parent_def same_upto_id_def reg_range_def)

lemma regsafe_covers:
  assumes "regsafe env rold rcur idmap = (True, idmap')"
  shows "reg_covers rold rcur"
proof (cases "reg_live rold AND REG_LIVE_READ = 0 \<or> reg_type rold = NOT_INIT")
  case True
  then show ?thesis by (auto simp: reg_covers_def)
next
  case False
  show ?thesis
  proof (cases "same_upto_parent rold rcur")
    case True
    with assms False show ?thesis by (intro same_upto_parent_covers) (auto simp: regsafe_def Let_def split: if_splits)
  next
    case differ: False
    from range_within_contains [of rold rcur] show ?thesis
      using assms False differ
      by (cases "reg_type rold") (auto simp: regsafe_def reg_covers_def same_upto_id_def Let_def split: if_splits prod.splits)
  qed
qed

text \<open>Byte \<open>j\<close> of the explored stack covers byte \<open>j\<close> of the current one.\<close>

definition byte_covers :: "bpf_func_state \<Rightarrow> bpf_func_state \<Rightarrow> nat \<Rightarrow> bool" where
  "byte_covers old cur j \<longleftrightarrow>
    (let os = fs_stack old ! (j div BPF_REG_SIZE); cs = fs_stack cur ! (j div BPF_REG_SIZE); b = j mod BPF_REG_SIZE in
     reg_live (spilled_ptr os) AND REG_LIVE_READ = 0 \<or> slot_type os ! b = STACK_INVALID \<or>
     j < allocated_stack cur \<and>
     (slot_type os ! b = STACK_MISC \<and> slot_type cs ! b = STACK_ZERO \<or>
      slot_type os ! b = slot_type cs ! b \<and>
      (b = 0 \<and> slot_type os ! b = STACK_SPILL \<longrightarrow> reg_covers (spilled_ptr os) (spilled_ptr cs))))"

text \<open>
  The loop skips eight bytes at a slot that was not read, from the first byte of the slot: at any
  other byte the slot it is in was read.
\<close>

lemma stacksafe_step_read:
  assumes ok: "fst (stacksafe_loop env old cur i idmap)" and i: "i < allocated_stack old"
    and rd: "reg_live (spilled_ptr (fs_stack old ! (i div BPF_REG_SIZE))) AND REG_LIVE_READ \<noteq> 0"
  shows "byte_covers old cur i \<and> (\<exists>idmap'. fst (stacksafe_loop env old cur (i + 1) idmap'))"
  using ok i rd regsafe_covers [of env "spilled_ptr (fs_stack old ! (i div BPF_REG_SIZE))" "spilled_ptr (fs_stack cur ! (i div BPF_REG_SIZE))" idmap]
  by (subst (asm) stacksafe_loop.simps) (auto simp: byte_covers_def Let_def not_le split: if_splits prod.splits)

lemma same_slot:
  fixes i j :: nat
  assumes "i mod BPF_REG_SIZE = 0" and "i \<le> j" and "j < i + BPF_REG_SIZE"
  shows "j div BPF_REG_SIZE = i div BPF_REG_SIZE"
  using assms by (intro div_nat_eqI) (auto simp: mod_eq_0_iff_dvd)

lemma next_byte:
  fixes i :: nat
  shows "(i + 1) mod BPF_REG_SIZE = 0 \<or> (i + 1) div BPF_REG_SIZE = i div BPF_REG_SIZE"
  by (simp add: mod_Suc div_Suc)

lemma stacksafe_loop_covers:
  assumes "fst (stacksafe_loop env old cur i idmap)"
    and "i mod BPF_REG_SIZE = 0 \<or> reg_live (spilled_ptr (fs_stack old ! (i div BPF_REG_SIZE))) AND REG_LIVE_READ \<noteq> 0"
    and "i \<le> j" and "j < allocated_stack old"
  shows "byte_covers old cur j"
  using assms
proof (induction "allocated_stack old - i" arbitrary: i idmap rule: less_induct)
  case less
  let ?unread = "reg_live (spilled_ptr (fs_stack old ! (i div BPF_REG_SIZE))) AND REG_LIVE_READ = 0"
  have i: "i < allocated_stack old" using less.prems(3,4) by simp
  show ?case
  proof (cases ?unread)
    case True
    then have al: "i mod BPF_REG_SIZE = 0" using less.prems(2) by simp
    show ?thesis
    proof (cases "j < i + BPF_REG_SIZE")
      case near: True
      then have "j div BPF_REG_SIZE = i div BPF_REG_SIZE" by (rule same_slot [OF al less.prems(3)])
      with True show ?thesis by (simp add: byte_covers_def)
    next
      case False
      have "fst (stacksafe_loop env old cur (i + BPF_REG_SIZE) idmap)"
        using less.prems(1) i True by (subst (asm) stacksafe_loop.simps) (simp add: Let_def)
      from less.hyps [OF _ this _ _ less.prems(4)] show ?thesis using al False i by simp
    qed
  next
    case False
    obtain idmap' where c: "byte_covers old cur i" and n: "fst (stacksafe_loop env old cur (i + 1) idmap')"
      using stacksafe_step_read [OF less.prems(1) i False] by blast
    have a: "(i + 1) mod BPF_REG_SIZE = 0 \<or>
        reg_live (spilled_ptr (fs_stack old ! ((i + 1) div BPF_REG_SIZE))) AND REG_LIVE_READ \<noteq> 0" using next_byte [of i] False by auto
    show ?thesis
    proof (cases "j = i")
      case True
      with c show ?thesis by simp
    next
      case False
      from less.hyps [OF _ n a _ less.prems(4)] show ?thesis using False i less.prems(3) by simp
    qed
  qed
qed

lemma regs_loop_covers:
  assumes "regs_loop env olds curs is idmap = (True, idmap')" and "i \<in> set is"
  shows "reg_covers (olds ! i) (curs ! i)"
  using assms by (induction "is" arbitrary: idmap) (auto simp: Let_def dest: regsafe_covers split: prod.splits if_splits)

text \<open>A frame of an explored state covers a frame of the current one.\<close>

definition frame_covers :: "bpf_func_state \<Rightarrow> bpf_func_state \<Rightarrow> bool" where
  "frame_covers old cur \<longleftrightarrow>
    list_all (\<lambda>r. reg_covers (fs_regs old ! r) (fs_regs cur ! r)) [0..<MAX_BPF_REG] \<and>
    list_all (byte_covers old cur) [0..<allocated_stack old] \<and>
    take (acquired_refs old) (fs_refs old) = take (acquired_refs cur) (fs_refs cur)"

lemma func_states_equal_covers:
  assumes "func_states_equal env old cur"
  shows "frame_covers old cur"
proof -
  obtain idmap where r: "regs_loop env (fs_regs old) (fs_regs cur) [0..<MAX_BPF_REG] (replicate BPF_ID_MAP_SIZE (0, 0)) = (True, idmap)"
    and s: "fst (stacksafe_loop env old cur 0 idmap)" and f: "refsafe old cur"
    using assms by (auto simp: func_states_equal_def stacksafe_def Let_def simp del: upt_rec_numeral split: prod.splits if_splits)
  show ?thesis
    unfolding frame_covers_def list_all_iff
    using regs_loop_covers [OF r] stacksafe_loop_covers [OF s] f by (auto simp: refsafe_def split: if_splits)
qed

lemma states_equal_frames:
  assumes "states_equal env old cur" and "i \<le> curframe old"
  shows "curframe cur = curframe old" and "callsite (vs_frame cur ! i) = callsite (vs_frame old ! i)"
    and "frame_covers (vs_frame old ! i) (vs_frame cur ! i)"
  using assms func_states_equal_covers [of env "vs_frame old ! i" "vs_frame cur ! i"]
  by (auto simp: states_equal_def list_all_iff simp del: upt_Suc split: if_splits)

section \<open>Ids\<close>

text \<open>The current id an array of pairs has for an explored id: the first pair before the empty slots.\<close>

fun id_of :: "bpf_id_map \<Rightarrow> u32 \<Rightarrow> u32 option" where
  "id_of [] x = None"
| "id_of ((ol, cu) # idmap) x = (if ol = 0 then None else if ol = x then Some cu else id_of idmap x)"

lemma check_ids_found:
  "check_ids ol cu idmap = (True, idmap') \<Longrightarrow> ol \<noteq> 0 \<Longrightarrow> id_of idmap' ol = Some cu"
  by (induction ol cu idmap arbitrary: idmap' rule: check_ids.induct) (auto split: if_splits prod.splits)

lemma check_ids_kept:
  "check_ids ol cu idmap = (ok, idmap') \<Longrightarrow> id_of idmap x = Some y \<Longrightarrow> id_of idmap' x = Some y"
  by (induction ol cu idmap arbitrary: idmap' rule: check_ids.induct) (auto split: if_splits prod.splits)

text \<open>The registers whose ids \<^const>\<open>regsafe\<close> compares.\<close>

definition ids_compared :: "bpf_reg_state \<Rightarrow> bpf_reg_state \<Rightarrow> bool" where
  "ids_compared rold rcur \<longleftrightarrow> reg_live rold AND REG_LIVE_READ \<noteq> 0 \<and> \<not> same_upto_parent rold rcur \<and> reg_id rold \<noteq> 0 \<and>
    reg_type rold \<in> {PTR_TO_MAP_VALUE_OR_NULL, PTR_TO_PACKET_META, PTR_TO_PACKET}"

lemma regsafe_ids:
  assumes "regsafe env rold rcur idmap = (True, idmap')"
  shows "id_of idmap x = Some y \<Longrightarrow> id_of idmap' x = Some y"
    and "ids_compared rold rcur \<Longrightarrow> id_of idmap' (reg_id rold) = Some (reg_id rcur)"
proof -
  note c = check_ids_kept [of "reg_id rold" "reg_id rcur" idmap] check_ids_found [of "reg_id rold" "reg_id rcur" idmap]
  show "id_of idmap x = Some y \<Longrightarrow> id_of idmap' x = Some y"
    using assms c(1) by (cases "reg_type rold") (auto simp: regsafe_def Let_def split: if_splits prod.splits)
  show "ids_compared rold rcur \<Longrightarrow> id_of idmap' (reg_id rold) = Some (reg_id rcur)"
    using assms c(2) by (cases "reg_type rold") (auto simp: regsafe_def ids_compared_def Let_def split: if_splits prod.splits)
qed

lemma regs_loop_kept:
  assumes "regs_loop env olds curs is idmap = (True, idmap')" and "id_of idmap x = Some y"
  shows "id_of idmap' x = Some y"
  using assms by (induction "is" arbitrary: idmap) (auto simp: Let_def dest: regsafe_ids(1) split: prod.splits if_splits)

lemma regs_loop_ids:
  assumes "regs_loop env olds curs is idmap = (True, idmap')" and "i \<in> set is" and "ids_compared (olds ! i) (curs ! i)"
  shows "id_of idmap' (reg_id (olds ! i)) = Some (reg_id (curs ! i))"
  using assms
proof (induction "is" arbitrary: idmap)
  case (Cons k ks)
  obtain m where m: "regsafe env (olds ! k) (curs ! k) idmap = (True, m)" "regs_loop env olds curs ks m = (True, idmap')"
    using Cons.prems(1) by (auto simp: Let_def split: prod.splits if_splits)
  show ?case
  proof (cases "i \<in> set ks")
    case True
    from Cons.IH [OF m(2) this Cons.prems(3)] show ?thesis .
  next
    case False
    with Cons.prems(2) have "i = k" by simp
    with regs_loop_kept [OF m(2) regsafe_ids(2) [OF m(1)]] Cons.prems(3) show ?thesis by simp
  qed
qed simp

lemma func_states_equal_regs:
  assumes "func_states_equal env old cur"
  shows "\<exists>idmap. regs_loop env (fs_regs old) (fs_regs cur) [0..<MAX_BPF_REG] (replicate BPF_ID_MAP_SIZE (0, 0)) = (True, idmap)"
  using assms by (auto simp: func_states_equal_def Let_def simp del: upt_rec_numeral split: prod.splits if_splits)

lemma states_equal_funcs:
  "states_equal env old cur \<Longrightarrow> i \<le> curframe old \<Longrightarrow> func_states_equal env (vs_frame old ! i) (vs_frame cur ! i)"
  by (auto simp: states_equal_def list_all_iff simp del: upt_Suc split: if_splits)

section \<open>Cleaning\<close>

text \<open>The arrays of a frame have their sizes.\<close>

definition frame_ok :: "bpf_func_state \<Rightarrow> bool" where
  "frame_ok st \<longleftrightarrow> length (fs_regs st) = MAX_BPF_REG \<and> allocated_stack st \<le> BPF_REG_SIZE * length (fs_stack st) \<and>
    list_all (\<lambda>s. length (slot_type s) = BPF_REG_SIZE) (fs_stack st)"

definition frames_ok :: "bpf_frames_state \<Rightarrow> bool" where
  "frames_ok st \<longleftrightarrow> curframe st < length (vs_frame st) \<and> list_all frame_ok (vs_frame st)"

lemma length_map_upto [simp]: "length (map_upto f n xs) = length xs"
  by (simp add: map_upto_def)

lemma nth_map_upto: "i < length xs \<Longrightarrow> map_upto f n xs ! i = (if i < n then f (xs ! i) else xs ! i)"
  by (simp add: map_upto_def nth_append)

lemma list_all_map_upto: "list_all P xs \<Longrightarrow> (\<And>x. P x \<Longrightarrow> P (f x)) \<Longrightarrow> list_all P (map_upto f n xs)"
  by (auto simp: map_upto_def list_all_iff dest: in_set_takeD in_set_dropD)

lemma mark_not_init_live [simp]: "reg_live (uu_mark_reg_not_init env r) = reg_live r"
  by (simp add: uu_mark_reg_not_init_def uu_mark_reg_unknown_def uu_mark_reg_unbounded_def)

lemma done_keeps_read [simp]: "(lv OR REG_LIVE_DONE) AND REG_LIVE_READ = lv AND (REG_LIVE_READ :: u32)"
  by (simp add: bit.conj_disj_distrib2)

lemma clean_reg_live: "reg_live (clean_reg env r) AND REG_LIVE_READ = reg_live r AND REG_LIVE_READ"
  by (simp add: clean_reg_def Let_def)

lemma same_upto_parent_live [simp]: "same_upto_parent (a\<lparr>reg_live := l\<rparr>) b = same_upto_parent a b"
  by (simp add: same_upto_parent_def same_upto_id_def)

lemma regsafe_done: "regsafe env (r\<lparr>reg_live := reg_live r OR REG_LIVE_DONE\<rparr>) c m = regsafe env r c m"
  by (simp add: regsafe_def Let_def range_within_def same_upto_id_def reg_range_def cong: if_cong bpf_reg_type.case_cong)

lemma regsafe_clean: "regsafe env (clean_reg e r) c m = regsafe env r c m"
proof (cases "reg_live r AND REG_LIVE_READ = 0")
  case True
  then show ?thesis using clean_reg_live [of e r] by (simp add: regsafe_def)
next
  case False
  then have "clean_reg e r = r\<lparr>reg_live := reg_live r OR REG_LIVE_DONE\<rparr>" by (simp add: clean_reg_def Let_def)
  then show ?thesis by (simp add: regsafe_done)
qed

lemma regs_loop_clean:
  assumes "\<forall>i\<in>set is. i < length olds"
  shows "regs_loop env (map_upto (clean_reg e) n olds) curs is m = regs_loop env olds curs is m"
  using assms by (induction "is" arbitrary: m) (simp_all add: nth_map_upto regsafe_clean cong: prod.case_cong if_cong)

lemma clean_slot_live: "reg_live (spilled_ptr (clean_slot e s)) AND REG_LIVE_READ = reg_live (spilled_ptr s) AND REG_LIVE_READ"
  by (simp add: clean_slot_def Let_def)

lemma clean_slot_read:
  assumes "reg_live (spilled_ptr s) AND REG_LIVE_READ \<noteq> 0"
  shows "slot_type (clean_slot e s) = slot_type s" and "regsafe env (spilled_ptr (clean_slot e s)) c m = regsafe env (spilled_ptr s) c m"
  using assms by (simp_all add: clean_slot_def Let_def regsafe_done)

lemma clean_frame_simps [simp]:
  "allocated_stack (clean_func_state e st) = allocated_stack st" "acquired_refs (clean_func_state e st) = acquired_refs st"
  "fs_refs (clean_func_state e st) = fs_refs st" "callsite (clean_func_state e st) = callsite st"
  "fs_regs (clean_func_state e st) = map_upto (clean_reg e) BPF_REG_FP (fs_regs st)"
  by (simp_all add: clean_func_state_def)

lemma clean_stack_nth:
  fixes e :: bpf_verifier_env
  assumes "i < allocated_stack st" and "frame_ok st"
  defines "s \<equiv> fs_stack st ! (i div BPF_REG_SIZE)" and "s' \<equiv> fs_stack (clean_func_state e st) ! (i div BPF_REG_SIZE)"
  shows "reg_live (spilled_ptr s') AND REG_LIVE_READ = reg_live (spilled_ptr s) AND REG_LIVE_READ"
    and "reg_live (spilled_ptr s) AND REG_LIVE_READ \<noteq> 0 \<Longrightarrow> slot_type s' = slot_type s"
    and "reg_live (spilled_ptr s) AND REG_LIVE_READ \<noteq> 0 \<Longrightarrow> regsafe env (spilled_ptr s') c m = regsafe env (spilled_ptr s) c m"
proof -
  have "i div BPF_REG_SIZE < length (fs_stack st)" using assms(1,2) by (simp add: frame_ok_def div_less_iff_less_mult mult.commute)
  then have "s' = s \<or> s' = clean_slot e s" by (simp add: s_def s'_def clean_func_state_def nth_map_upto)
  then show "reg_live (spilled_ptr s') AND REG_LIVE_READ = reg_live (spilled_ptr s) AND REG_LIVE_READ"
    and "reg_live (spilled_ptr s) AND REG_LIVE_READ \<noteq> 0 \<Longrightarrow> slot_type s' = slot_type s"
    and "reg_live (spilled_ptr s) AND REG_LIVE_READ \<noteq> 0 \<Longrightarrow> regsafe env (spilled_ptr s') c m = regsafe env (spilled_ptr s) c m"
    by (auto simp: clean_slot_live clean_slot_read)
qed

lemma stacksafe_loop_clean:
  assumes "frame_ok old"
  shows "stacksafe_loop env (clean_func_state e old) cur i m = stacksafe_loop env old cur i m"
proof (induction "allocated_stack old - i" arbitrary: i m rule: less_induct)
  case less
  note u = stacksafe_loop.simps [of env "clean_func_state e old" cur i m] stacksafe_loop.simps [of env old cur i m]
  show ?case
  proof (cases "i < allocated_stack old")
    case True
    have i8: "stacksafe_loop env (clean_func_state e old) cur (i + BPF_REG_SIZE) m' = stacksafe_loop env old cur (i + BPF_REG_SIZE) m'"
      and i1: "stacksafe_loop env (clean_func_state e old) cur (i + 1) m' = stacksafe_loop env old cur (i + 1) m'" for m'
      by (rule less.hyps; use True in simp)+
    note n = clean_stack_nth [OF True assms, where e = e]
    show ?thesis
    proof (cases "reg_live (spilled_ptr (fs_stack old ! (i div BPF_REG_SIZE))) AND REG_LIVE_READ = 0")
      case unread: True
      then show ?thesis unfolding u Let_def clean_frame_simps n(1) i8 by simp
    next
      case False
      show ?thesis unfolding u Let_def clean_frame_simps n(1) n(2) [OF False] n(3) [OF False] i8 i1 ..
    qed
  next
    case False
    then show ?thesis unfolding u by simp
  qed
qed

lemma func_states_equal_clean:
  assumes "frame_ok old"
  shows "func_states_equal env (clean_func_state e old) cur = func_states_equal env old cur"
proof -
  have r: "regs_loop env (map_upto (clean_reg e) BPF_REG_FP (fs_regs old)) (fs_regs cur) [0..<MAX_BPF_REG] m =
      regs_loop env (fs_regs old) (fs_regs cur) [0..<MAX_BPF_REG] m" for m
    by (rule regs_loop_clean) (use assms in \<open>simp add: frame_ok_def\<close>)
  show ?thesis
    unfolding func_states_equal_def clean_frame_simps r stacksafe_def stacksafe_loop_clean [OF assms] refsafe_def ..
qed

lemma states_equal_clean:
  assumes ok: "frames_ok old"
  shows "states_equal env (clean_verifier_state e old) cur = states_equal env old cur"
proof (cases "clean_verifier_state e old = old")
  case False
  then have c: "clean_verifier_state e old = old\<lparr>vs_frame := map_upto (clean_func_state e) (Suc (curframe old)) (vs_frame old)\<rparr>"
    by (auto simp: clean_verifier_state_def split: if_splits)
  have f: "frame_ok (vs_frame old ! i)" if "i \<le> curframe old" for i
    using ok that by (simp add: frames_ok_def list_all_length)
  have "i < length (vs_frame old)" if "i \<le> curframe old" for i using ok that by (simp add: frames_ok_def)
  then show ?thesis unfolding c states_equal_def
    by (simp add: list_all_iff nth_map_upto func_states_equal_clean [OF f] less_Suc_eq_le del: upt_Suc cong: conj_cong)
qed simp

lemma frame_ok_clean: "frame_ok st \<Longrightarrow> frame_ok (clean_func_state e st)"
  unfolding frame_ok_def
  by (simp add: clean_func_state_def list_all_map_upto clean_slot_def Let_def)

lemma frames_ok_clean: "frames_ok st \<Longrightarrow> frames_ok (clean_verifier_state e st)"
  unfolding frames_ok_def by (simp add: clean_verifier_state_def list_all_map_upto frame_ok_clean)

section \<open>Properties\<close>

text \<open>
  States of one frame with three registers set and one stack slot: the first holds a pointer to a map
  value (in the explored state with a variable part of at most eight, in the current one without), the
  other two hold unchecked results of lookups with the given ids.
\<close>

definition prune_env :: bpf_verifier_env where
  "prune_env = \<lparr>insn_idx = 0, cur_state = \<lparr>st_regs = [], st_speculative = False\<rparr>, parent_regs = [],
     stack_head = [], stack_size = 0, kzalloc_ok = True, id_gen = 0, explore_alu_limits = False, allow_ptr_leaks = False,
     bpf_capable = False, bypass_spec_v1 = False, longest_mark_read_walk = 0,
     insn_aux_data = (\<lambda>_. \<lparr>alu_state = 0, alu_limit = 0, zext_dst = False\<rparr>),
     map_of_ptr = (\<lambda>_. \<lparr>value_size = 16, spin_lock_off = -1\<rparr>), subprog_cnt = 1\<rparr>"

definition cur_ptr :: bpf_reg_state where
  "cur_ptr = reg_zero\<lparr>reg_type := PTR_TO_MAP_VALUE, reg_live := REG_LIVE_READ64\<rparr>"

definition old_ptr :: bpf_reg_state where
  "old_ptr = cur_ptr\<lparr>var_off := TNUM 0 15, smax_value := 8, umax_value := 8, s32_max_value := 8, u32_max_value := 8\<rparr>"

definition lookup_result :: "u32 \<Rightarrow> bpf_reg_state" where
  "lookup_result i = reg_zero\<lparr>reg_type := PTR_TO_MAP_VALUE_OR_NULL, reg_id := i, reg_live := REG_LIVE_READ64\<rparr>"

definition prune_state :: "bpf_reg_state \<Rightarrow> u32 \<Rightarrow> u32 \<Rightarrow> bpf_frames_state" where
  "prune_state p i j = \<lparr>vs_frame = [\<lparr>fs_regs = reg_zero # p # lookup_result i # lookup_result j # replicate 7 reg_zero,
       callsite = 0, acquired_refs = 0, fs_refs = [], allocated_stack = 8,
       fs_stack = [\<lparr>spilled_ptr = p, slot_type = replicate 8 STACK_SPILL\<rparr>]\<rparr>],
     vs_branches = 0, vs_insn_idx = 3, curframe = 0, active_spin_lock = 0, vs_speculative = False\<rparr>"


lemma prune_states_equal: "states_equal prune_env (prune_state old_ptr 5 5) (prune_state cur_ptr 9 9)"
  by code_simp


text \<open>
  C11. Pruning keeps memory accesses safe: if the explored state passed \<^verbatim>\<open>check_map_access\<close>
  through a register that points to a map value, then in every current state it covers the register
  points to a value of the same map, and the same access through any address the register may hold
  there touches only bytes of the value.
\<close>

theorem pruned_map_access:
  assumes "states_equal env old cur" and "i \<le> curframe old" and "r < MAX_BPF_REG"
    and "rold = fs_regs (vs_frame old ! i) ! r" and "rcur = fs_regs (vs_frame cur ! i) ! r"
    and "reg_live rold AND REG_LIVE_READ \<noteq> 0" and "reg_type rold = PTR_TO_MAP_VALUE"
    and "check_map_access mp rold (scast (insn_off insn) + reg_off rold) len z = Inr ()"
    and "\<bar>sint (reg_off rold)\<bar> < 2 ^ 29" and "ptr_contains rcur b v" and "int k < sint len"
  shows "reg_raw rcur = reg_raw rold \<and> uint (v + scast (insn_off insn) + of_nat k - b) < uint (value_size mp)"
proof -
  have "reg_covers rold rcur" using states_equal_frames(3) [OF assms(1,2)] assms(3-5) by (simp add: frame_covers_def list_all_iff)
  then have c: "reg_raw rcur = reg_raw rold" "reg_off rcur = reg_off rold" "\<And>x. reg_contains rcur x \<Longrightarrow> reg_contains rold x"
    using assms(6,7) by (auto simp: reg_covers_def)
  then have "ptr_contains rold b v" using assms(10) by (auto simp: ptr_contains_def)
  with map_value_access [OF assms(8) _ assms(9,11)] c(1) show ?thesis by blast
qed

lemma cur_ptr_contains: "ptr_contains cur_ptr 4096 4096"
proof -
  have "reg_contains cur_ptr 0" by code_simp
  then show ?thesis by (auto simp: ptr_contains_def cur_ptr_def reg_zero_def intro!: exI [of _ 0])
qed

theorem pruned_map_access_witness:
  "reg_raw cur_ptr = reg_raw old_ptr \<and>
   uint ((4096 :: u64) + scast (insn_off \<lparr>insn_code = 0x61, insn_dst = 0, insn_src = 1, insn_off = 4, insn_imm = 0\<rparr>) + of_nat 3 - 4096) < uint (value_size \<lparr>value_size = 16, spin_lock_off = -1\<rparr>)"
proof (rule pruned_map_access [OF prune_states_equal, of 0 1, OF _ _ _ _ _ _ _ _ cur_ptr_contains])
  show "check_map_access \<lparr>value_size = 16, spin_lock_off = -1\<rparr> old_ptr
    (scast (insn_off \<lparr>insn_code = 0x61, insn_dst = 0, insn_src = 1, insn_off = 4, insn_imm = 0\<rparr>) + reg_off old_ptr) 4 False = Inr ()"
    by code_simp
qed (simp_all add: prune_state_def old_ptr_def cur_ptr_def reg_zero_def)

text \<open>
  C32. Where \<^verbatim>\<open>regsafe\<close> compares ids, sharing is preserved: two registers of a frame that had the
  same id in the explored state have the same id in the current state.
\<close>

theorem ids_preserved:
  assumes "states_equal env old cur" and "f \<le> curframe old" and "i < MAX_BPF_REG" and "j < MAX_BPF_REG"
    and "ids_compared (fs_regs (vs_frame old ! f) ! i) (fs_regs (vs_frame cur ! f) ! i)"
    and "ids_compared (fs_regs (vs_frame old ! f) ! j) (fs_regs (vs_frame cur ! f) ! j)"
    and "reg_id (fs_regs (vs_frame old ! f) ! i) = reg_id (fs_regs (vs_frame old ! f) ! j)"
  shows "reg_id (fs_regs (vs_frame cur ! f) ! i) = reg_id (fs_regs (vs_frame cur ! f) ! j)"
proof -
  obtain idmap where "regs_loop env (fs_regs (vs_frame old ! f)) (fs_regs (vs_frame cur ! f)) [0..<MAX_BPF_REG]
      (replicate BPF_ID_MAP_SIZE (0, 0)) = (True, idmap)"
    using func_states_equal_regs [OF states_equal_funcs [OF assms(1,2)]] by blast
  from regs_loop_ids [OF this _ assms(5)] regs_loop_ids [OF this _ assms(6)] assms(3,4,7) show ?thesis by simp
qed

theorem ids_preserved_witness:
  "reg_id (fs_regs (vs_frame (prune_state cur_ptr 9 9) ! 0) ! 2) = reg_id (fs_regs (vs_frame (prune_state cur_ptr 9 9) ! 0) ! 3)"
proof (rule ids_preserved [OF prune_states_equal])
  show "ids_compared (fs_regs (vs_frame (prune_state old_ptr 5 5) ! 0) ! 2) (fs_regs (vs_frame (prune_state cur_ptr 9 9) ! 0) ! 2)"
    by code_simp
  show "ids_compared (fs_regs (vs_frame (prune_state old_ptr 5 5) ! 0) ! 3) (fs_regs (vs_frame (prune_state cur_ptr 9 9) ! 0) ! 3)"
    by code_simp
qed (simp_all add: prune_state_def lookup_result_def)

lemma regsafe_refl: "regsafe env r r m = (True, m)"
  by (simp add: regsafe_def Let_def same_upto_parent_def same_upto_id_def)

lemma regsafe_lookup:
  "i \<noteq> j \<Longrightarrow> regsafe env (lookup_result i) (lookup_result j) m = check_ids i j m"
  by (simp add: regsafe_def Let_def same_upto_parent_def same_upto_id_def lookup_result_def)

lemma stacksafe_same:
  assumes "fs_stack old = fs_stack cur" and "allocated_stack old = allocated_stack cur"
  shows "fst (stacksafe_loop env old cur i m)"
proof (induction "allocated_stack old - i" arbitrary: i m rule: less_induct)
  case less
  show ?case
  proof (cases "i < allocated_stack old")
    case True
    have "fst (stacksafe_loop env old cur (i + BPF_REG_SIZE) m')" and "fst (stacksafe_loop env old cur (i + 1) m')" for m'
      by (rule less.hyps; use True in simp)+
    with True assms show ?thesis unfolding stacksafe_loop.simps [of env old cur i m] by (simp add: Let_def regsafe_refl)
  next
    case False
    then show ?thesis unfolding stacksafe_loop.simps [of env old cur i m] by simp
  qed
qed

lemma skipped_states_equal: "states_equal env (prune_state p 1 1) (prune_state p 1 2)"
proof -
  have "check_ids 1 2 (replicate BPF_ID_MAP_SIZE (0, 0)) = (True, (1, 2) # replicate 74 (0, 0))" by code_simp
  then show ?thesis
    by (simp add: stacksafe_def stacksafe_same states_equal_def func_states_equal_def upt_rec prune_state_def regsafe_refl regsafe_lookup refsafe_def)
qed

text \<open>
  C37. The comparison of ids is skipped for a register that is unchanged, before its id is recorded: an
  explored state in which two unchecked lookups share an id is accepted for a current state in which
  they have different ids, whatever the verifier's settings. The explored paths may have tested one of
  them and used the other.
\<close>

theorem equal_registers_skip_ids:
  "\<exists>old cur. states_equal env old cur \<and>
    (let olds = fs_regs (vs_frame old ! 0); curs = fs_regs (vs_frame cur ! 0) in
     reg_type (olds ! 2) = PTR_TO_MAP_VALUE_OR_NULL \<and> reg_type (olds ! 3) = PTR_TO_MAP_VALUE_OR_NULL \<and>
     reg_live (olds ! 2) AND REG_LIVE_READ \<noteq> 0 \<and> reg_live (olds ! 3) AND REG_LIVE_READ \<noteq> 0 \<and>
     reg_id (olds ! 2) \<noteq> 0 \<and> reg_id (olds ! 2) = reg_id (olds ! 3) \<and> reg_id (curs ! 2) \<noteq> reg_id (curs ! 3))"
  using skipped_states_equal [of env cur_ptr]
  by (intro exI [of _ "prune_state cur_ptr 1 1"] exI [of _ "prune_state cur_ptr 1 2"])
    (simp add: prune_state_def lookup_result_def)

text \<open>
  C31. Cleaning the explored states of an instruction (\<^verbatim>\<open>clean_live_states\<close>) keeps their arrays
  well formed and changes no decision: each of them prunes exactly the states it pruned before.
\<close>

theorem cleaning_keeps_pruning:
  assumes "list_all frames_ok sl"
  shows "list_all frames_ok (clean_live_states env insn cur sl) \<and>
    map (\<lambda>s. states_equal env' s c) (clean_live_states env insn cur sl) = map (\<lambda>s. states_equal env' s c) sl"
  using assms by (auto simp: clean_live_states_def list_all_iff frames_ok_clean states_equal_clean)

theorem cleaning_keeps_pruning_witness:
  "clean_live_states prune_env 3 (prune_state cur_ptr 9 9) [prune_state old_ptr 5 5] \<noteq> [prune_state old_ptr 5 5] \<and>
   states_equal prune_env (hd (clean_live_states prune_env 3 (prune_state cur_ptr 9 9) [prune_state old_ptr 5 5])) (prune_state cur_ptr 9 9)"
proof -
  have ok: "list_all frames_ok [prune_state old_ptr 5 5]" by code_simp
  have d: "hd (clean_live_states prune_env 3 (prune_state cur_ptr 9 9) [prune_state old_ptr 5 5]) \<noteq> prune_state old_ptr 5 5" by code_simp
  from cleaning_keeps_pruning [OF ok, where env = prune_env and insn = 3 and cur = "prune_state cur_ptr 9 9" and env' = prune_env and c = "prune_state cur_ptr 9 9"]
  obtain s where "clean_live_states prune_env 3 (prune_state cur_ptr 9 9) [prune_state old_ptr 5 5] = [s]"
    "states_equal prune_env s (prune_state cur_ptr 9 9)"
    using prune_states_equal by (cases "clean_live_states prune_env 3 (prune_state cur_ptr 9 9) [prune_state old_ptr 5 5]") auto
  with d show ?thesis by simp
qed

end
