(* ===== verification/Memblock.thy ===== *)
theory Memblock
  imports Prelude
begin

text \<open>
  The region arrays of the boot-time allocator, \<^verbatim>\<open>mm/memblock.c\<close>: the regions of one
  \<^verbatim>\<open>struct memblock_type\<close>, the loops that merge, insert, split, remove and update them, and what each
  does to the map from addresses to flags and nodes that the regions stand for.
\<close>

section \<open>Regions\<close>

type_synonym phys_addr = u64

abbreviation (input) PHYS_ADDR_MAX :: phys_addr where "PHYS_ADDR_MAX \<equiv> - 1"
abbreviation (input) MAX_NUMNODES :: s32 where "MAX_NUMNODES \<equiv> 64"
abbreviation (input) NUMA_NO_NODE :: s32 where "NUMA_NO_NODE \<equiv> - 1"

abbreviation (input) MEMBLOCK_NONE :: u32 where "MEMBLOCK_NONE \<equiv> 0x0"
abbreviation (input) MEMBLOCK_HOTPLUG :: u32 where "MEMBLOCK_HOTPLUG \<equiv> 0x1"
abbreviation (input) MEMBLOCK_MIRROR :: u32 where "MEMBLOCK_MIRROR \<equiv> 0x2"
abbreviation (input) MEMBLOCK_NOMAP :: u32 where "MEMBLOCK_NOMAP \<equiv> 0x4"

record memblock_region =
  rgn_base :: phys_addr
  rgn_size :: phys_addr
  rgn_flags :: u32
  rgn_nid :: s32

text \<open>
  The regions in use; \<^verbatim>\<open>cnt\<close> is the length of the list. \<open>mt_array\<close> is the physical address of
  the array, \<open>None\<close> for the static one, and \<open>mt_in_slab\<close> is
  \<^verbatim>\<open>memblock_memory_in_slab\<close> or \<^verbatim>\<open>memblock_reserved_in_slab\<close>.
\<close>

record memblock_type =
  mt_regions :: "memblock_region list"
  mt_max :: nat
  mt_total_size :: phys_addr
  mt_array :: "phys_addr option"
  mt_in_slab :: bool

definition rgn_end :: "memblock_region \<Rightarrow> phys_addr" where
  "rgn_end r = rgn_base r + rgn_size r"

lemma rgn_end_simps [simp]:
  "rgn_end (r\<lparr>rgn_size := at - rgn_base r\<rparr>) = at"
  "rgn_end (r\<lparr>rgn_base := at, rgn_size := rgn_size r - (at - rgn_base r)\<rparr>) = rgn_end r"
  "rgn_end \<lparr>rgn_base = b, rgn_size = e - b, rgn_flags = f, rgn_nid = n\<rparr> = e"
  "rgn_end (r\<lparr>rgn_flags := f\<rparr>) = rgn_end r" "rgn_end (r\<lparr>rgn_nid := n\<rparr>) = rgn_end r"
  by (simp_all add: rgn_end_def)

lemma rgn_end_merge: "rgn_end r = rgn_base s \<Longrightarrow> rgn_end (r\<lparr>rgn_size := rgn_size r + rgn_size s\<rparr>) = rgn_end s"
  by (simp add: rgn_end_def add.assoc [symmetric])

abbreviation cnt :: "memblock_type \<Rightarrow> nat" where "cnt ty \<equiv> length (mt_regions ty)"

definition memblock_cap_size :: "phys_addr \<Rightarrow> phys_addr \<Rightarrow> phys_addr" where
  "memblock_cap_size base len = min len (PHYS_ADDR_MAX - base)"

definition memblock_addrs_overlap :: "phys_addr \<Rightarrow> phys_addr \<Rightarrow> phys_addr \<Rightarrow> phys_addr \<Rightarrow> bool" where
  "memblock_addrs_overlap base1 size1 base2 size2 \<longleftrightarrow> base1 < base2 + size2 \<and> base2 < base1 + size1"

definition memblock_overlaps_region :: "memblock_type \<Rightarrow> phys_addr \<Rightarrow> phys_addr \<Rightarrow> bool" where
  "memblock_overlaps_region ty base len =
    (let len1 = memblock_cap_size base len
     in list_ex (\<lambda>r. memblock_addrs_overlap base len1 (rgn_base r) (rgn_size r)) (mt_regions ty))"

section \<open>Changing the list of regions\<close>

definition empty_region :: memblock_region where
  "empty_region = \<lparr>rgn_base = 0, rgn_size = 0, rgn_flags = 0, rgn_nid = MAX_NUMNODES\<rparr>"

definition memblock_remove_region :: "memblock_type \<Rightarrow> nat \<Rightarrow> memblock_type" where
  "memblock_remove_region ty r =
    (let rs = take r (mt_regions ty) @ drop (r + 1) (mt_regions ty)
     in ty\<lparr>mt_total_size := mt_total_size ty - rgn_size (mt_regions ty ! r),
           mt_regions := (if rs = [] then [empty_region] else rs)\<rparr>)"

text \<open>\<open>None\<close> stands for the \<^verbatim>\<open>BUG_ON\<close> when the array is full.\<close>

definition memblock_insert_region :: "memblock_type \<Rightarrow> nat \<Rightarrow> phys_addr \<Rightarrow> phys_addr \<Rightarrow> s32 \<Rightarrow> u32 \<Rightarrow> memblock_type option" where
  "memblock_insert_region ty idx base len nid flags =
    (if cnt ty \<ge> mt_max ty then None
     else Some (ty\<lparr>mt_regions := take idx (mt_regions ty) @
            \<lparr>rgn_base = base, rgn_size = len, rgn_flags = flags, rgn_nid = nid\<rparr> # drop idx (mt_regions ty),
          mt_total_size := mt_total_size ty + len\<rparr>))"

lemma insert_region_cnt: "memblock_insert_region ty idx base len nid flags = Some ty' \<Longrightarrow> cnt ty' = Suc (cnt ty)"
  by (auto simp: memblock_insert_region_def split: if_splits)

text \<open>The loop of \<^verbatim>\<open>memblock_merge_regions\<close>; \<open>None\<close> is its \<^verbatim>\<open>BUG_ON\<close>.\<close>

function merge_loop :: "memblock_region list \<Rightarrow> nat \<Rightarrow> memblock_region list option" where
  "merge_loop rs i =
    (if i + 1 < length rs then
       let this = rs ! i; nxt = rs ! (i + 1) in
       if rgn_end this \<noteq> rgn_base nxt \<or> rgn_nid this \<noteq> rgn_nid nxt \<or> rgn_flags this \<noteq> rgn_flags nxt
       then if rgn_end this > rgn_base nxt then None else merge_loop rs (i + 1)
       else merge_loop (take i rs @ this\<lparr>rgn_size := rgn_size this + rgn_size nxt\<rparr> # drop (i + 2) rs) i
     else Some rs)"
  by pat_completeness auto
termination
  by (relation "measure (\<lambda>(rs, i). length rs - i)") auto

definition memblock_merge_regions :: "memblock_type \<Rightarrow> memblock_type option" where
  "memblock_merge_regions ty = map_option (\<lambda>rs. ty\<lparr>mt_regions := rs\<rparr>) (merge_loop (mt_regions ty) 0)"

text \<open>
  One pass of \<^verbatim>\<open>memblock_add_range\<close> over the regions: counting the new regions it takes to cover
  the range, and inserting them if \<open>ins\<close> is set.
\<close>

function add_range_loop :: "bool \<Rightarrow> memblock_type \<Rightarrow> nat \<Rightarrow> phys_addr \<Rightarrow> phys_addr \<Rightarrow> s32 \<Rightarrow> u32 \<Rightarrow> nat \<Rightarrow>
    (memblock_type \<times> nat \<times> phys_addr \<times> nat) option" where
  "add_range_loop ins ty idx base end nid flags nr_new =
    (if idx < cnt ty then
       let rgn = mt_regions ty ! idx; rbase = rgn_base rgn; rend = rgn_end rgn in
       if rbase \<ge> end then Some (ty, idx, base, nr_new)
       else if rend \<le> base then add_range_loop ins ty (idx + 1) base end nid flags nr_new
       else if rbase > base then
         if ins then (case memblock_insert_region ty idx base (rbase - base) nid flags of
             None \<Rightarrow> None
           | Some ty1 \<Rightarrow> add_range_loop ins ty1 (idx + 2) (min rend end) end nid flags (nr_new + 1))
         else add_range_loop ins ty (idx + 1) (min rend end) end nid flags (nr_new + 1)
       else add_range_loop ins ty (idx + 1) (min rend end) end nid flags nr_new
     else Some (ty, idx, base, nr_new))"
  by pat_completeness auto
termination
  by (relation "measure (\<lambda>(ins, ty, idx, base, end, nid, flags, nr). cnt ty - idx)")
    (auto simp: insert_region_cnt)

definition add_range_pass :: "bool \<Rightarrow> memblock_type \<Rightarrow> phys_addr \<Rightarrow> phys_addr \<Rightarrow> s32 \<Rightarrow> u32 \<Rightarrow> (memblock_type \<times> nat) option" where
  "add_range_pass ins ty base end nid flags =
    (case add_range_loop ins ty 0 base end nid flags 0 of
       None \<Rightarrow> None
     | Some (ty1, idx, base1, nr_new) \<Rightarrow>
         if base1 < end then
           if ins then map_option (\<lambda>t. (t, nr_new + 1)) (memblock_insert_region ty1 idx base1 (end - base1) nid flags)
           else Some (ty1, nr_new + 1)
         else Some (ty1, nr_new))"

text \<open>
  The loop of \<^verbatim>\<open>memblock_isolate_range\<close>: regions that cross a boundary of the range are split.
  The weight of a region is the number of times the loop may still look at a part of it.
\<close>

definition split_weight :: "phys_addr \<Rightarrow> phys_addr \<Rightarrow> memblock_region \<Rightarrow> nat" where
  "split_weight base end r = 1 + of_bool (rgn_base r < base) + 2 * of_bool (rgn_base r < end \<and> end < rgn_end r)"

definition split_region :: "memblock_type \<Rightarrow> nat \<Rightarrow> phys_addr \<Rightarrow> memblock_type option" where
  "split_region ty idx at =
    (let rgn = mt_regions ty ! idx; rbase = rgn_base rgn
     in memblock_insert_region
          (ty\<lparr>mt_regions := (mt_regions ty)[idx := rgn\<lparr>rgn_base := at, rgn_size := rgn_size rgn - (at - rbase)\<rparr>],
              mt_total_size := mt_total_size ty - (at - rbase)\<rparr>)
          idx rbase (at - rbase) (rgn_nid rgn) (rgn_flags rgn))"

lemma split_region_regions:
  assumes "split_region ty idx at = Some ty'" and "idx < cnt ty"
  shows "\<exists>lo hi. mt_regions ty' = take idx (mt_regions ty) @ lo # hi # drop (Suc idx) (mt_regions ty) \<and>
    lo = (mt_regions ty ! idx)\<lparr>rgn_size := at - rgn_base (mt_regions ty ! idx)\<rparr> \<and>
    hi = (mt_regions ty ! idx)\<lparr>rgn_base := at, rgn_size := rgn_size (mt_regions ty ! idx) - (at - rgn_base (mt_regions ty ! idx))\<rparr> \<and>
    mt_total_size ty' = mt_total_size ty \<and> mt_max ty' = mt_max ty \<and> mt_array ty' = mt_array ty \<and> mt_in_slab ty' = mt_in_slab ty"
  using assms
  by (auto simp: split_region_def Let_def memblock_insert_region_def drop_update_cancel Cons_nth_drop_Suc [symmetric] split: if_splits)

function isolate_loop :: "memblock_type \<Rightarrow> nat \<Rightarrow> phys_addr \<Rightarrow> phys_addr \<Rightarrow> nat \<Rightarrow> nat \<Rightarrow> (memblock_type \<times> nat \<times> nat) option" where
  "isolate_loop ty idx base end start_rgn end_rgn =
    (if idx < cnt ty then
       let rgn = mt_regions ty ! idx; rbase = rgn_base rgn; rend = rgn_end rgn in
       if rbase \<ge> end then Some (ty, start_rgn, end_rgn)
       else if rend \<le> base then isolate_loop ty (idx + 1) base end start_rgn end_rgn
       else if rbase < base then
         (case split_region ty idx base of None \<Rightarrow> None | Some ty1 \<Rightarrow> isolate_loop ty1 (idx + 1) base end start_rgn end_rgn)
       else if rend > end then
         (case split_region ty idx end of None \<Rightarrow> None | Some ty1 \<Rightarrow> isolate_loop ty1 idx base end start_rgn end_rgn)
       else isolate_loop ty (idx + 1) base end (if end_rgn = 0 then idx else start_rgn) (idx + 1)
     else Some (ty, start_rgn, end_rgn))"
  by pat_completeness auto
termination
proof (relation "measure (\<lambda>(ty, idx, base, end, st, en). sum_list (map (split_weight base end) (drop idx (mt_regions ty))))", goal_cases)
  case (2 ty idx base "end" st en rgn rbase rend)
  then show ?case by (simp add: Cons_nth_drop_Suc [symmetric] split_weight_def)
next
  case (3 ty idx base "end" st en rgn rbase rend ty1)
  then show ?case
    using split_region_regions [OF 3(8,1)] by (auto simp: Cons_nth_drop_Suc [symmetric] split_weight_def)
next
  case (4 ty idx base "end" st en rgn rbase rend ty1)
  then show ?case
    using split_region_regions [OF 4(9,1)] by (auto simp: Cons_nth_drop_Suc [symmetric] split_weight_def)
next
  case (5 ty idx base "end" st en rgn rbase rend)
  then show ?case by (simp add: Cons_nth_drop_Suc [symmetric] split_weight_def)
qed simp

section \<open>The map a list of regions stands for\<close>

text \<open>The flags and the node of an address, if a region covers it.\<close>

fun attr_at :: "memblock_region list \<Rightarrow> phys_addr \<Rightarrow> (u32 \<times> s32) option" where
  "attr_at [] a = None"
| "attr_at (r # rs) a = (if rgn_base r \<le> a \<and> a < rgn_end r then Some (rgn_flags r, rgn_nid r) else attr_at rs a)"

text \<open>Sorted, disjoint, nonempty and without wrap-around: every region starts at or after the end of the one before.\<close>

fun chain :: "phys_addr \<Rightarrow> memblock_region list \<Rightarrow> bool" where
  "chain lo [] = True"
| "chain lo (r # rs) \<longleftrightarrow> lo \<le> rgn_base r \<and> rgn_base r < rgn_end r \<and> chain (rgn_end r) rs"

definition last_end :: "phys_addr \<Rightarrow> memblock_region list \<Rightarrow> phys_addr" where
  "last_end lo rs = (if rs = [] then lo else rgn_end (last rs))"

lemma last_end_simps [simp]: "last_end lo [] = lo" "last_end lo (r # rs) = last_end (rgn_end r) rs"
  by (simp_all add: last_end_def)

lemma chain_append [simp]: "chain lo (xs @ ys) \<longleftrightarrow> chain lo xs \<and> chain (last_end lo xs) ys"
  by (induction xs arbitrary: lo) auto

lemma chain_mono: "chain lo rs \<Longrightarrow> lo' \<le> lo \<Longrightarrow> chain lo' rs"
  by (cases rs) auto

lemma chain_last_end: "chain lo rs \<Longrightarrow> lo \<le> last_end lo rs"
  by (induction rs arbitrary: lo) (auto, fastforce)

lemma attr_at_append: "attr_at (xs @ ys) a = (case attr_at xs a of None \<Rightarrow> attr_at ys a | Some x \<Rightarrow> Some x)"
  by (induction xs) auto

lemma attr_at_below: "chain lo rs \<Longrightarrow> a < lo \<Longrightarrow> attr_at rs a = None"
proof (induction rs arbitrary: lo)
  case (Cons r rs)
  then show ?case using Cons.IH [of "rgn_end r"] by auto
qed simp

lemma attr_at_above: "chain lo rs \<Longrightarrow> last_end lo rs \<le> a \<Longrightarrow> attr_at rs a = None"
proof (induction rs arbitrary: lo)
  case (Cons r rs)
  then show ?case using chain_last_end [of "rgn_end r" rs] by auto
qed simp

definition sizes :: "memblock_region list \<Rightarrow> phys_addr" where
  "sizes rs = sum_list (map rgn_size rs)"

lemma sizes_simps [simp]: "sizes [] = 0" "sizes (r # rs) = rgn_size r + sizes rs" "sizes (xs @ ys) = sizes xs + sizes ys"
  by (simp_all add: sizes_def)

section \<open>Merging\<close>

definition apart :: "memblock_region \<Rightarrow> memblock_region \<Rightarrow> bool" where
  "apart r s \<longleftrightarrow> rgn_end r \<noteq> rgn_base s \<or> rgn_nid r \<noteq> rgn_nid s \<or> rgn_flags r \<noteq> rgn_flags s"

lemma chain_nth:
  assumes "chain lo rs" and "Suc i < length rs"
  shows "rgn_end (rs ! i) \<le> rgn_base (rs ! Suc i)"
  using assms by (induction rs arbitrary: lo i) (auto simp: nth_Cons neq_Nil_conv length_Suc_conv split: nat.splits)

lemma split_two:
  assumes "Suc i < length rs"
  shows "rs = take i rs @ rs ! i # rs ! Suc i # drop (Suc (Suc i)) rs"
  using assms by (metis Cons_nth_drop_Suc Suc_lessD append_take_drop_id)

lemma merge_step:
  assumes "chain lo (xs @ r # s # ys)" and "rgn_end r = rgn_base s" "rgn_nid r = rgn_nid s" "rgn_flags r = rgn_flags s"
  defines "m \<equiv> r\<lparr>rgn_size := rgn_size r + rgn_size s\<rparr>"
  shows "chain lo (xs @ m # ys)" and "attr_at (xs @ m # ys) a = attr_at (xs @ r # s # ys) a"
proof -
  have m: "rgn_end m = rgn_end s" "rgn_base m = rgn_base r" "rgn_nid m = rgn_nid r" "rgn_flags m = rgn_flags r"
    using rgn_end_merge [OF assms(2)] by (simp_all add: m_def)
  show "chain lo (xs @ m # ys)" using assms(1,2) by (auto simp: m)
  show "attr_at (xs @ m # ys) a = attr_at (xs @ r # s # ys) a"
    using assms(1-4) by (auto simp: attr_at_append m split: option.splits)
qed

lemma merge_loop_correct:
  assumes "chain lo rs" and "successively apart (take (Suc i) rs)" and "i < length rs"
  shows "\<exists>rs'. merge_loop rs i = Some rs' \<and> chain lo rs' \<and> (\<forall>a. attr_at rs' a = attr_at rs a) \<and> sizes rs' = sizes rs \<and>
    rs' \<noteq> [] \<and> length rs' \<le> length rs \<and> successively apart rs'"
  using assms
proof (induction rs i rule: merge_loop.induct)
  case (1 rs i)
  let ?r = "rs ! i" and ?s = "rs ! (i + 1)"
  show ?case
  proof (cases "i + 1 < length rs")
    case False
    then show ?thesis using 1(3-) by (subst merge_loop.simps) (auto simp: take_Suc_conv_app_nth)
  next
    case lt: True
    have le: "rgn_end ?r \<le> rgn_base ?s" using chain_nth [OF 1(3)] lt by simp
    have two: "rs = take i rs @ ?r # ?s # drop (i + 2) rs" using split_two [of i rs] lt by simp
    show ?thesis
    proof (cases "apart ?r ?s")
      case True
      have "successively apart (take (Suc (Suc i)) rs)"
        using 1(4) True lt by (simp add: take_Suc_conv_app_nth [of "Suc i"] successively_append_iff take_Suc_conv_app_nth [of i])
      then show ?thesis
        using 1(1) [OF lt refl refl] True le lt 1(3) by (subst merge_loop.simps) (simp add: apart_def Let_def)
    next
      case False
      let ?m = "?r\<lparr>rgn_size := rgn_size ?r + rgn_size ?s\<rparr>"
      let ?rs = "take i rs @ ?m # drop (i + 2) rs"
      have f: "rgn_end ?r = rgn_base ?s" "rgn_nid ?r = rgn_nid ?s" "rgn_flags ?r = rgn_flags ?s" using False by (auto simp: apart_def)
      have c: "chain lo (take i rs @ ?r # ?s # drop (i + 2) rs)" using 1(3) two by simp
      have "chain lo ?rs" by (rule merge_step(1) [OF c f])
      moreover have "attr_at ?rs a = attr_at rs a" for a using merge_step(2) [OF c f, of a] two by simp
      moreover have "sizes ?rs = sizes rs" using arg_cong [OF two, of sizes] by (simp add: algebra_simps)
      moreover have "successively apart (take (Suc i) ?rs)"
        using 1(4) lt by (simp add: take_Suc_conv_app_nth successively_append_iff apart_def)
      moreover have "merge_loop rs i = merge_loop ?rs i" using lt f by (subst merge_loop.simps) (simp add: Let_def)
      ultimately show ?thesis using 1(2) [OF lt refl refl] f lt by fastforce
    qed
  qed
qed

declare merge_loop.simps [simp del] add_range_loop.simps [simp del] isolate_loop.simps [simp del]

section \<open>Adding a range\<close>

text \<open>What the two passes compute, as a recursion over the regions: the gaps of the range are filled.\<close>

abbreviation new_region :: "phys_addr \<Rightarrow> phys_addr \<Rightarrow> s32 \<Rightarrow> u32 \<Rightarrow> memblock_region" where
  "new_region b e nid flags \<equiv> \<lparr>rgn_base = b, rgn_size = e - b, rgn_flags = flags, rgn_nid = nid\<rparr>"

fun fill :: "phys_addr \<Rightarrow> phys_addr \<Rightarrow> s32 \<Rightarrow> u32 \<Rightarrow> memblock_region list \<Rightarrow> memblock_region list" where
  "fill base end nid flags [] = (if base < end then [new_region base end nid flags] else [])"
| "fill base end nid flags (r # rs) =
    (if rgn_base r \<ge> end then (if base < end then [new_region base end nid flags] else []) @ r # rs
     else if rgn_end r \<le> base then r # fill base end nid flags rs
     else (if rgn_base r > base then [new_region base (rgn_base r) nid flags] else []) @
       r # fill (min (rgn_end r) end) end nid flags rs)"

lemma fill_longer: "length rs \<le> length (fill base end nid flags rs)"
  by (induction base "end" nid flags rs rule: fill.induct) auto

lemma fill_chain:
  "chain lo rs \<Longrightarrow> lo \<le> base \<or> end \<le> base \<Longrightarrow> chain lo (fill base end nid flags rs)"
proof (induction base "end" nid flags rs arbitrary: lo rule: fill.induct)
  case (2 base "end" nid flags r rs)
  have "chain (rgn_end r) (fill base end nid flags rs)" if "rgn_base r < end" "rgn_end r \<le> base"
    using 2(1) [of "rgn_end r"] 2(3) that by simp
  moreover have "chain (rgn_end r) (fill (min (rgn_end r) end) end nid flags rs)" if "rgn_base r < end" "\<not> rgn_end r \<le> base"
    using 2(2) [of "rgn_end r"] 2(3) that by (auto simp: min_def)
  ultimately show ?case using 2(3,4) by auto
qed auto

lemma fill_attr:
  assumes "chain lo rs" and "lo \<le> base \<or> end \<le> base"
  shows "attr_at (fill base end nid flags rs) a =
    (case attr_at rs a of Some x \<Rightarrow> Some x | None \<Rightarrow> if base \<le> a \<and> a < end then Some (flags, nid) else None)"
  using assms
proof (induction base "end" nid flags rs arbitrary: lo rule: fill.induct)
  case (2 base "end" nid flags r rs)
  note c = 2(3) [unfolded chain.simps]
  have above: "attr_at rs a = None" if "a < rgn_end r" using attr_at_below [of "rgn_end r" rs a] c that by simp
  consider "end \<le> rgn_base r" | (skip) "\<not> end \<le> rgn_base r" "rgn_end r \<le> base"
    | (mid) "\<not> end \<le> rgn_base r" "\<not> rgn_end r \<le> base" by blast
  then show ?case
  proof cases
    case 1
    have "attr_at rs a = None" if "a < end" using above that 1 c by auto
    then show ?thesis using 1 by (auto split: option.splits)
  next
    case skip
    then show ?thesis using 2(1) [of "rgn_end r"] c by auto
  next
    case mid
    have IH: "attr_at (fill (min (rgn_end r) end) end nid flags rs) a =
       (case attr_at rs a of Some x \<Rightarrow> Some x | None \<Rightarrow> if min (rgn_end r) end \<le> a \<and> a < end then Some (flags, nid) else None)"
      using 2(2) [of "rgn_end r"] mid c by (auto simp: min_def)
    have f: "attr_at (fill base end nid flags (r # rs)) a =
       (if base < rgn_base r \<and> base \<le> a \<and> a < rgn_base r then Some (flags, nid)
        else if rgn_base r \<le> a \<and> a < rgn_end r then Some (rgn_flags r, rgn_nid r)
        else attr_at (fill (min (rgn_end r) end) end nid flags rs) a)"
      using mid by simp
    show ?thesis
    proof (cases "a < rgn_end r")
      case True
      then show ?thesis using above mid c unfolding f IH by (auto simp: min_def)
    next
      case False
      then show ?thesis using mid c unfolding f IH by (auto simp: min_def)
    qed
  qed
qed auto

text \<open>The passes follow this recursion, the second as long as there is room.\<close>

definition add_range_tail :: "bool \<Rightarrow> phys_addr \<Rightarrow> s32 \<Rightarrow> u32 \<Rightarrow> (memblock_type \<times> nat \<times> phys_addr \<times> nat) option \<Rightarrow> (memblock_type \<times> nat) option" where
  "add_range_tail ins end nid flags res =
    (case res of None \<Rightarrow> None
     | Some (ty1, idx, base1, nr_new) \<Rightarrow>
         if base1 < end then
           if ins then map_option (\<lambda>t. (t, nr_new + 1)) (memblock_insert_region ty1 idx base1 (end - base1) nid flags)
           else Some (ty1, nr_new + 1)
         else Some (ty1, nr_new))"

lemma add_range_pass_tail: "add_range_pass ins ty base end nid flags = add_range_tail ins end nid flags (add_range_loop ins ty 0 base end nid flags 0)"
  by (simp add: add_range_pass_def add_range_tail_def)

lemma count_pass:
  assumes "mt_regions ty = pre @ rs" and "idx = length pre"
  shows "add_range_tail False end nid flags (add_range_loop False ty idx base end nid flags nr) =
    Some (ty, nr + (length (fill base end nid flags rs) - length rs))"
  using assms
proof (induction rs arbitrary: pre idx base nr)
  case Nil
  then show ?case by (subst add_range_loop.simps) (simp add: add_range_tail_def)
next
  case (Cons r rs)
  have r: "mt_regions ty ! idx = r" "idx < cnt ty" using Cons.prems by simp_all
  note IH = Cons.IH [of "pre @ [r]" "Suc idx"]
  consider (stop) "end \<le> rgn_base r" | (skip) "\<not> end \<le> rgn_base r" "rgn_end r \<le> base"
    | (gap) "\<not> end \<le> rgn_base r" "\<not> rgn_end r \<le> base" "base < rgn_base r"
    | (over) "\<not> end \<le> rgn_base r" "\<not> rgn_end r \<le> base" "\<not> base < rgn_base r" by blast
  then show ?case
  proof cases
    case stop
    then show ?thesis using r Cons.prems by (subst add_range_loop.simps) (simp add: add_range_tail_def)
  next
    case gap
    then show ?thesis using r Cons.prems IH fill_longer [of rs "min (rgn_end r) end" "end" nid flags]
      by (subst add_range_loop.simps) (simp add: Let_def Suc_diff_le)
  qed (use r Cons.prems IH in \<open>subst add_range_loop.simps; simp add: Let_def\<close>)+
qed

lemma insert_pass:
  assumes "mt_regions ty = pre @ rs" and "idx = length pre" and "length pre + length (fill base end nid flags rs) \<le> mt_max ty"
  shows "add_range_tail True end nid flags (add_range_loop True ty idx base end nid flags nr) =
    Some (ty\<lparr>mt_regions := pre @ fill base end nid flags rs,
             mt_total_size := mt_total_size ty + (sizes (fill base end nid flags rs) - sizes rs)\<rparr>,
          nr + (length (fill base end nid flags rs) - length rs))"
  using assms
proof (induction rs arbitrary: ty pre idx base nr)
  case Nil
  then show ?case
    by (cases "base < end"; subst add_range_loop.simps) (simp_all add: add_range_tail_def memblock_insert_region_def)
next
  case (Cons r rs)
  have r: "mt_regions ty ! idx = r" "idx < cnt ty" using Cons.prems by simp_all
  consider (stop) "end \<le> rgn_base r" | (skip) "\<not> end \<le> rgn_base r" "rgn_end r \<le> base"
    | (gap) "\<not> end \<le> rgn_base r" "\<not> rgn_end r \<le> base" "base < rgn_base r"
    | (over) "\<not> end \<le> rgn_base r" "\<not> rgn_end r \<le> base" "\<not> base < rgn_base r" by blast
  then show ?case
  proof cases
    case stop
    then show ?thesis using Cons.prems r
      by (cases "base < end"; subst add_range_loop.simps) (simp_all add: add_range_tail_def memblock_insert_region_def)
  next
    case skip
    show ?thesis using skip Cons.prems r Cons.IH [of ty "pre @ [r]" "Suc idx" base nr]
      by (subst add_range_loop.simps) (simp add: Let_def)
  next
    case gap
    let ?n = "new_region base (rgn_base r) nid flags" and ?b = "min (rgn_end r) end"
    let ?ty = "ty\<lparr>mt_regions := (pre @ [?n, r]) @ rs, mt_total_size := mt_total_size ty + (rgn_base r - base)\<rparr>"
    have ins: "memblock_insert_region ty idx base (rgn_base r - base) nid flags = Some ?ty"
      using Cons.prems gap fill_longer [of rs ?b "end" nid flags] by (simp add: memblock_insert_region_def)
    have IH: "add_range_tail True end nid flags (add_range_loop True ?ty (idx + 2) ?b end nid flags (nr + 1)) =
      Some (?ty\<lparr>mt_regions := (pre @ [?n, r]) @ fill ?b end nid flags rs,
             mt_total_size := mt_total_size ?ty + (sizes (fill ?b end nid flags rs) - sizes rs)\<rparr>,
          nr + 1 + (length (fill ?b end nid flags rs) - length rs))"
      by (rule Cons.IH) (use Cons.prems gap in simp_all)
    show ?thesis
      using gap Cons.prems r ins IH fill_longer [of rs ?b "end" nid flags] by (subst add_range_loop.simps) (simp add: Let_def Suc_diff_le)
  next
    case over
    show ?thesis using over Cons.prems r Cons.IH [of ty "pre @ [r]" "Suc idx" "min (rgn_end r) end" nr]
      by (subst add_range_loop.simps) (simp add: Let_def)
  qed
qed

section \<open>Isolating a range\<close>

definition split_lo :: "phys_addr \<Rightarrow> memblock_region \<Rightarrow> memblock_region" where
  "split_lo at r = r\<lparr>rgn_size := at - rgn_base r\<rparr>"

definition split_hi :: "phys_addr \<Rightarrow> memblock_region \<Rightarrow> memblock_region" where
  "split_hi at r = r\<lparr>rgn_base := at, rgn_size := rgn_size r - (at - rgn_base r)\<rparr>"

lemma split_simps [simp]:
  "rgn_base (split_lo at r) = rgn_base r" "rgn_end (split_lo at r) = at"
  "rgn_flags (split_lo at r) = rgn_flags r" "rgn_nid (split_lo at r) = rgn_nid r"
  "rgn_base (split_hi at r) = at" "rgn_end (split_hi at r) = rgn_end r"
  "rgn_flags (split_hi at r) = rgn_flags r" "rgn_nid (split_hi at r) = rgn_nid r"
  "rgn_size (split_lo at r) + rgn_size (split_hi at r) = rgn_size r"
  "rgn_size (split_lo at r) + (rgn_size (split_hi at r) + x) = rgn_size r + x"
  by (simp_all add: split_lo_def split_hi_def)

lemma split_region_at:
  assumes "mt_regions ty = pre @ r # rs" and "idx = length pre" and "cnt ty < mt_max ty"
  shows "split_region ty idx at = Some (ty\<lparr>mt_regions := pre @ split_lo at r # split_hi at r # rs\<rparr>)"
  using assms by (simp add: split_region_def Let_def memblock_insert_region_def split_lo_def split_hi_def list_update_append)

text \<open>The parts of the regions before, inside and after the range.\<close>

fun inside :: "phys_addr \<Rightarrow> memblock_region list \<Rightarrow> memblock_region list \<times> memblock_region list" where
  "inside end [] = ([], [])"
| "inside end (r # rs) =
    (if end \<le> rgn_base r then ([], r # rs)
     else if end < rgn_end r then ([split_lo end r], split_hi end r # rs)
     else (r # fst (inside end rs), snd (inside end rs)))"

fun iso :: "phys_addr \<Rightarrow> phys_addr \<Rightarrow> memblock_region list \<Rightarrow> memblock_region list \<times> memblock_region list \<times> memblock_region list" where
  "iso base end [] = ([], [], [])"
| "iso base end (r # rs) =
    (if end \<le> rgn_base r then ([], [], r # rs)
     else if rgn_end r \<le> base then (case iso base end rs of (b, i, a) \<Rightarrow> (r # b, i, a))
     else if rgn_base r < base then ([split_lo base r], inside end (split_hi base r # rs))
     else ([], inside end (r # rs)))"

text \<open>The loop computes them. First from a region on that does not start below the range.\<close>

lemma isolate_inside:
  assumes "mt_regions ty = pre @ rs" and "idx = length pre" and "chain base rs"
    and "length pre + length (fst (inside end rs)) + length (snd (inside end rs)) \<le> mt_max ty"
    and "en = 0 \<or> en = idx"
  shows "isolate_loop ty idx base end st en =
    Some (ty\<lparr>mt_regions := pre @ fst (inside end rs) @ snd (inside end rs)\<rparr>,
      if en = 0 \<and> fst (inside end rs) \<noteq> [] then idx else st,
      if fst (inside end rs) = [] then en else idx + length (fst (inside end rs)))"
  using assms
proof (induction rs arbitrary: ty pre idx st en base)
  case Nil
  then show ?case by (subst isolate_loop.simps) simp
next
  case (Cons r rs)
  have r: "mt_regions ty ! idx = r" "idx < cnt ty" "base \<le> rgn_base r" "rgn_base r < rgn_end r" "\<not> rgn_end r \<le> base" "\<not> rgn_base r < base"
    using Cons.prems by auto
  consider (stop) "end \<le> rgn_base r" | (cross) "\<not> end \<le> rgn_base r" "end < rgn_end r"
    | (sub) "\<not> end \<le> rgn_base r" "\<not> end < rgn_end r" by blast
  then show ?case
  proof cases
    case stop
    then show ?thesis using Cons.prems r by (subst isolate_loop.simps) simp
  next
    case cross
    let ?ty = "ty\<lparr>mt_regions := pre @ split_lo end r # split_hi end r # rs\<rparr>"
    have s: "split_region ty idx end = Some ?ty"
      by (rule split_region_at [OF Cons.prems(1,2)]) (use Cons.prems cross in simp)
    have e: "\<not> end \<le> base" using cross r by simp
    have stop: "isolate_loop ?ty (Suc idx) base end st' (Suc idx) = Some (?ty, st', Suc idx)" for st'
      using Cons.prems by (subst isolate_loop.simps) (simp add: nth_append)
    have "isolate_loop ?ty idx base end st en = Some (?ty, if en = 0 then idx else st, Suc idx)"
      using Cons.prems cross r e stop by (subst isolate_loop.simps) (simp add: nth_append)
    then show ?thesis using cross r s by (subst isolate_loop.simps) simp
  next
    case sub
    have "chain base rs" using Cons.prems(3) r by (auto intro: chain_mono)
    then have "isolate_loop ty (Suc idx) base end (if en = 0 then idx else st) (Suc idx) =
      Some (ty\<lparr>mt_regions := (pre @ [r]) @ fst (inside end rs) @ snd (inside end rs)\<rparr>,
        if en = 0 then idx else st, Suc idx + length (fst (inside end rs)))"
      using Cons.IH [of ty "pre @ [r]" "Suc idx" base "Suc idx" "if en = 0 then idx else st"] Cons.prems sub by auto
    then show ?thesis using sub r by (subst isolate_loop.simps) simp
  qed
qed

lemma isolate_loop_iso:
  assumes "mt_regions ty = pre @ rs" and "idx = length pre" and "chain lo rs" and "iso base end rs = (b, i, a)"
    and "length pre + length b + length i + length a \<le> mt_max ty"
  shows "isolate_loop ty idx base end st 0 =
    Some (ty\<lparr>mt_regions := pre @ b @ i @ a\<rparr>,
      if i \<noteq> [] then idx + length b else st, if i = [] then 0 else idx + length b + length i)"
  using assms
proof (induction rs arbitrary: ty pre idx lo b)
  case Nil
  then show ?case by (subst isolate_loop.simps) simp
next
  case (Cons r rs)
  have r: "mt_regions ty ! idx = r" "idx < cnt ty" "rgn_base r < rgn_end r" using Cons.prems by auto
  consider (stop) "end \<le> rgn_base r" | (skip) "\<not> end \<le> rgn_base r" "rgn_end r \<le> base"
    | (low) "\<not> end \<le> rgn_base r" "\<not> rgn_end r \<le> base" "rgn_base r < base"
    | (ins) "\<not> end \<le> rgn_base r" "\<not> rgn_end r \<le> base" "\<not> rgn_base r < base" by blast
  then show ?case
  proof cases
    case stop
    then show ?thesis using Cons.prems r by (subst isolate_loop.simps) auto
  next
    case skip
    then obtain b1 where b1: "b = r # b1" "iso base end rs = (b1, i, a)" using Cons.prems(4) by (auto split: prod.splits)
    show ?thesis using Cons.IH [of ty "pre @ [r]" "Suc idx" "rgn_end r" b1] Cons.prems b1 skip r
      by (subst isolate_loop.simps) simp
  next
    case low
    let ?ty = "ty\<lparr>mt_regions := (pre @ [split_lo base r]) @ split_hi base r # rs\<rparr>"
    have f: "b = [split_lo base r]" "inside end (split_hi base r # rs) = (i, a)" using Cons.prems(4) low by simp_all
    have len: "length rs + 1 \<le> length i + length a" using f(2)
    proof -
      have "length xs \<le> length (fst (inside end xs)) + length (snd (inside end xs))" for xs by (induction xs) auto
      from this [of "split_hi base r # rs"] show ?thesis unfolding f(2) by simp
    qed
    have s: "split_region ty idx base = Some ?ty"
      using split_region_at [OF Cons.prems(1,2), of base] Cons.prems len f by simp
    have "isolate_loop ?ty (Suc idx) base end st 0 = Some (?ty\<lparr>mt_regions := (pre @ [split_lo base r]) @ i @ a\<rparr>,
        if i \<noteq> [] then Suc idx else st, if i = [] then 0 else Suc idx + length i)"
      using isolate_inside [of ?ty "pre @ [split_lo base r]" "split_hi base r # rs" "Suc idx" base "end" 0 st] f Cons.prems low by simp
    then show ?thesis using low r s f by (subst isolate_loop.simps) simp
  next
    case ins
    have f: "b = []" "inside end (r # rs) = (i, a)" using Cons.prems(4) ins by (simp_all split: if_splits)
    have "chain base (r # rs)" using Cons.prems(3) ins by simp
    then show ?thesis using isolate_inside [of ty pre "r # rs" idx base "end" 0 st] f Cons.prems by simp
  qed
qed

lemma inside_length: "length (fst (inside end rs)) + length (snd (inside end rs)) \<le> Suc (length rs)"
  by (induction rs) auto

lemma iso_length: "iso base end rs = (b, i, a) \<Longrightarrow> length b + length i + length a \<le> length rs + 2"
proof (induction rs arbitrary: b)
  case (Cons r rs)
  have "length (fst (inside end (x # rs))) + length (snd (inside end (x # rs))) \<le> Suc (Suc (length rs))" for x
    using inside_length [of "end" "x # rs"] by simp
  from this [of "split_hi base r"] this [of r] show ?case
    using Cons by (auto split: if_splits prod.splits)
qed simp

lemma inside_nonempty: "rs \<noteq> [] \<Longrightarrow> fst (inside end rs) @ snd (inside end rs) \<noteq> []"
  by (cases rs) auto

lemma iso_nonempty: "iso base end rs = (b, i, a) \<Longrightarrow> rs \<noteq> [] \<Longrightarrow> b @ i @ a \<noteq> []"
  by (cases rs) (auto split: if_splits prod.splits)

lemma inside_spec:
  assumes "chain lo rs" and "lo \<le> end"
  shows "chain lo (fst (inside end rs)) \<and> last_end lo (fst (inside end rs)) \<le> end \<and> chain end (snd (inside end rs)) \<and>
    sizes (fst (inside end rs)) + sizes (snd (inside end rs)) = sizes rs \<and>
    attr_at (fst (inside end rs) @ snd (inside end rs)) a = attr_at rs a"
  using assms
proof (induction rs arbitrary: lo)
  case (Cons r rs)
  have "chain (rgn_end r) rs" "lo \<le> rgn_base r" "rgn_base r < rgn_end r" using Cons.prems by simp_all
  then show ?case using Cons.IH [of "rgn_end r"] Cons.prems by (auto simp: add.assoc)
qed simp

lemma chain_join:
  assumes "chain x i" "last_end x i \<le> end" "chain end a" "lo \<le> x" "x \<le> end"
  shows "chain lo i" "last_end lo i \<le> end" "chain lo (i @ a)"
proof -
  show i: "chain lo i" using assms by (blast intro: chain_mono)
  show l: "last_end lo i \<le> end" using assms by (auto simp: last_end_def split: if_splits)
  show "chain lo (i @ a)" using i chain_mono [OF assms(3) l] by simp
qed

lemma iso_spec:
  assumes "chain lo rs" and "base \<le> end" and "iso base end rs = (b, i, a)"
  shows "chain lo b \<and> (b = [] \<or> last_end lo b \<le> base) \<and> chain base i \<and> last_end base i \<le> end \<and> chain end a \<and> chain lo (b @ i @ a) \<and>
    sizes b + sizes i + sizes a = sizes rs \<and> attr_at (b @ i @ a) x = attr_at rs x"
  using assms
proof (induction rs arbitrary: lo b)
  case (Cons r rs)
  have r: "chain (rgn_end r) rs" "lo \<le> rgn_base r" "rgn_base r < rgn_end r" using Cons.prems by simp_all
  consider (stop) "end \<le> rgn_base r" | (skip) "\<not> end \<le> rgn_base r" "rgn_end r \<le> base"
    | (low) "\<not> end \<le> rgn_base r" "\<not> rgn_end r \<le> base" "rgn_base r < base"
    | (ins) "\<not> end \<le> rgn_base r" "\<not> rgn_end r \<le> base" "\<not> rgn_base r < base" by blast
  then show ?case
  proof cases
    case stop
    then show ?thesis using Cons.prems by auto
  next
    case skip
    then obtain b1 where b1: "b = r # b1" "iso base end rs = (b1, i, a)" using Cons.prems(3) by (auto split: prod.splits)
    show ?thesis using Cons.IH [OF r(1) Cons.prems(2) b1(2)] r skip by (auto simp: b1 add.assoc)
  next
    case low
    let ?h = "split_hi base r # rs"
    have f: "b = [split_lo base r]" "i = fst (inside end ?h)" "a = snd (inside end ?h)" using Cons.prems(3) low by (simp_all del: inside.simps)
    have "chain base ?h" using r low by simp
    note sp = inside_spec [OF this Cons.prems(2), of x, folded f(2,3)]
    then have j: "chain base (i @ a)" using chain_join [of base i "end" a base] Cons.prems(2) by blast
    have s: "sizes b + sizes i + sizes a = sizes (r # rs)" using sp by (simp add: f(1) add.assoc)
    have "attr_at (b @ i @ a) x = attr_at (split_lo base r # ?h) x" using sp by (simp add: f(1))
    also have "\<dots> = attr_at (r # rs) x" using r low by auto
    finally show ?thesis using sp j s r low by (simp add: f(1))
  next
    case ins
    have f: "b = []" "i = fst (inside end (r # rs))" "a = snd (inside end (r # rs))" using Cons.prems(3) ins by (simp_all del: inside.simps)
    have c: "chain (rgn_base r) (r # rs)" and e: "rgn_base r \<le> end" using r ins by auto
    note sp = inside_spec [OF c e, of x, folded f(2,3)]
    then show ?thesis using chain_join [of "rgn_base r" i "end" a lo] chain_join [of "rgn_base r" i "end" a base] e r ins f(1) by simp
  qed
qed simp

section \<open>Well-formed types\<close>

text \<open>A sorted list of disjoint regions, or the single region of size zero that stands for no region at all.\<close>

definition no_regions :: "memblock_region list \<Rightarrow> bool" where
  "no_regions rs \<longleftrightarrow> map rgn_base rs = [0] \<and> map rgn_size rs = [0]"

definition regions_ok :: "memblock_region list \<Rightarrow> bool" where
  "regions_ok rs \<longleftrightarrow> rs \<noteq> [] \<and> (no_regions rs \<or> chain 0 rs)"

definition ty_ok :: "memblock_type \<Rightarrow> bool" where
  "ty_ok ty \<longleftrightarrow> regions_ok (mt_regions ty) \<and> cnt ty \<le> mt_max ty \<and> mt_total_size ty = sizes (mt_regions ty)"

lemma no_regions_empty: "no_regions [empty_region]"
  by (simp add: no_regions_def empty_region_def)

lemma no_regionsE:
  assumes "no_regions rs"
  obtains r where "rs = [r]" "rgn_base r = 0" "rgn_size r = 0" "rgn_end r = 0"
  using assms by (auto simp: no_regions_def rgn_end_def)

lemma no_regions_attr: "no_regions rs \<Longrightarrow> attr_at rs x = None"
  by (auto elim: no_regionsE)

lemma attr_at_out: "chain lo rs \<Longrightarrow> last_end lo rs \<le> hi \<Longrightarrow> attr_at rs x \<noteq> None \<Longrightarrow> lo \<le> x \<and> x < hi"
  using attr_at_below [of lo rs x] attr_at_above [of lo rs x] by (meson leI le_less_trans order_trans)

text \<open>What the three parts of an isolated range hold.\<close>

lemma iso_attr:
  assumes "regions_ok rs" and "base < end" and "iso base end rs = (b, i, a)"
  shows "regions_ok (b @ i @ a)" and "sizes b + sizes i + sizes a = sizes rs"
    and "attr_at i x = (if base \<le> x \<and> x < end then attr_at rs x else None)"
    and "attr_at (b @ a) x = (if base \<le> x \<and> x < end then None else attr_at rs x)"
    and "attr_at (b @ i @ a) x = attr_at rs x"
    and "b @ a = [] \<or> regions_ok (b @ a)"
proof -
  have e: "base \<le> end" using assms(2) by simp
  have *: "regions_ok (b @ i @ a) \<and> sizes b + sizes i + sizes a = sizes rs \<and>
    attr_at i x = (if base \<le> x \<and> x < end then attr_at rs x else None) \<and>
    attr_at (b @ a) x = (if base \<le> x \<and> x < end then None else attr_at rs x) \<and>
    attr_at (b @ i @ a) x = attr_at rs x \<and> (b @ a = [] \<or> regions_ok (b @ a))"
  proof (cases "no_regions rs")
    case True
    then obtain r where r: "rs = [r]" "rgn_base r = 0" "rgn_size r = 0" "rgn_end r = 0" by (rule no_regionsE)
    then have "b = [r]" "i = []" "a = []" using assms(2,3) by (auto split: if_splits)
    then show ?thesis using assms(1) r by auto
  next
    case False
    then have c: "chain 0 rs" "rs \<noteq> []" using assms(1) by (auto simp: regions_ok_def)
    note sp = iso_spec [OF c(1) e assms(3), of x]
    have ne: "b @ i @ a \<noteq> []" using iso_nonempty [OF assms(3) c(2)] .
    have i: "attr_at i x = None" if "\<not> (base \<le> x \<and> x < end)" using sp attr_at_out [of base i "end" x] that by blast
    have a: "attr_at a x = None" if "x < end" using sp attr_at_below [of "end" a x] that by blast
    have b: "attr_at b x = None" if "base \<le> x"
      using sp attr_at_above [of 0 b x] that by (cases "b = []") (auto elim: order_trans)
    have ats: "attr_at i x = (if base \<le> x \<and> x < end then attr_at rs x else None)"
      "attr_at (b @ a) x = (if base \<le> x \<and> x < end then None else attr_at rs x)"
      using sp i a b by (auto simp: attr_at_append split: option.splits)
    have "chain 0 (b @ a)" using sp chain_mono [of "end" a "last_end 0 b"] e by (auto simp: last_end_def split: if_splits)
    then show ?thesis using sp ats ne by (simp add: regions_ok_def)
  qed
  show "regions_ok (b @ i @ a)" "sizes b + sizes i + sizes a = sizes rs"
    "attr_at i x = (if base \<le> x \<and> x < end then attr_at rs x else None)"
    "attr_at (b @ a) x = (if base \<le> x \<and> x < end then None else attr_at rs x)"
    "attr_at (b @ i @ a) x = attr_at rs x" "b @ a = [] \<or> regions_ok (b @ a)"
    using * by simp_all
qed

text \<open>The loops over the isolated regions: removing them from the last one down, and updating them.\<close>

primrec remove_loop :: "memblock_type \<Rightarrow> nat \<Rightarrow> nat \<Rightarrow> memblock_type" where
  "remove_loop ty start_rgn 0 = ty"
| "remove_loop ty start_rgn (Suc n) = remove_loop (memblock_remove_region ty (start_rgn + n)) start_rgn n"

definition update_loop :: "(memblock_region \<Rightarrow> memblock_region) \<Rightarrow> memblock_type \<Rightarrow> nat \<Rightarrow> nat \<Rightarrow> memblock_type" where
  "update_loop f ty start_rgn end_rgn =
    ty\<lparr>mt_regions := foldl (\<lambda>rs i. rs[i := f (rs ! i)]) (mt_regions ty) [start_rgn..<end_rgn]\<rparr>"

lemma update_loop_parts:
  "foldl (\<lambda>rs i. rs[i := f (rs ! i)]) (b @ xs @ a) [length b..<length b + length xs] = b @ map f xs @ a"
proof (induction xs arbitrary: a rule: rev_induct)
  case (snoc x xs)
  from snoc [of "x # a"] show ?case by (simp add: list_update_append nth_append)
qed simp

lemma remove_loop_parts:
  assumes "mt_regions ty = b @ xs @ a" and "xs \<noteq> []"
  shows "remove_loop ty (length b) (length xs) =
    ty\<lparr>mt_total_size := mt_total_size ty - sizes xs, mt_regions := (if b @ a = [] then [empty_region] else b @ a)\<rparr>"
  using assms
proof (induction xs arbitrary: ty rule: rev_induct)
  case (snoc x xs)
  have rm: "memblock_remove_region ty (length b + length xs) =
      ty\<lparr>mt_total_size := mt_total_size ty - rgn_size x, mt_regions := (if b @ xs @ a = [] then [empty_region] else b @ xs @ a)\<rparr>"
    using snoc.prems by (simp add: memblock_remove_region_def Let_def nth_append)
  show ?case
  proof (cases "xs = []")
    case True
    then show ?thesis using rm by simp
  next
    case False
    then show ?thesis using rm snoc.IH [of "memblock_remove_region ty (length b + length xs)"]
      by (simp add: algebra_simps)
  qed
qed simp

text \<open>What the operations on one type do to its map. First the ones that keep it.\<close>

lemma merge_ok:
  assumes "regions_ok (mt_regions ty)"
  shows "\<exists>rs. memblock_merge_regions ty = Some (ty\<lparr>mt_regions := rs\<rparr>) \<and> regions_ok rs \<and> (\<forall>x. attr_at rs x = attr_at (mt_regions ty) x) \<and>
    sizes rs = sizes (mt_regions ty) \<and> length rs \<le> cnt ty \<and> successively apart rs"
proof (cases "no_regions (mt_regions ty)")
  case True
  then obtain r where "mt_regions ty = [r]" by (rule no_regionsE)
  moreover have "merge_loop [r] 0 = Some [r]" by (subst merge_loop.simps) simp
  ultimately show ?thesis using assms by (intro exI [of _ "[r]"]) (simp add: memblock_merge_regions_def)
next
  case False
  then have c: "chain 0 (mt_regions ty)" "0 < cnt ty" using assms by (auto simp: regions_ok_def)
  have "successively apart (take (Suc 0) (mt_regions ty))" by (cases "mt_regions ty") simp_all
  then show ?thesis using merge_loop_correct [OF c(1) _ c(2)] by (auto simp: memblock_merge_regions_def regions_ok_def)
qed

lemma isolate_ok:
  assumes "regions_ok (mt_regions ty)" and "base < end" and "iso base end (mt_regions ty) = (b, i, a)" and "cnt ty + 2 \<le> mt_max ty"
  shows "isolate_loop ty 0 base end 0 0 =
    Some (ty\<lparr>mt_regions := b @ i @ a\<rparr>, if i \<noteq> [] then length b else 0, if i = [] then 0 else length b + length i)"
proof (cases "no_regions (mt_regions ty)")
  case True
  then obtain r where r: "mt_regions ty = [r]" "rgn_base r = 0" "rgn_size r = 0" "rgn_end r = 0" by (rule no_regionsE)
  then have "b = [r]" "i = []" "a = []" using assms(2,3) by (auto split: if_splits)
  moreover have "isolate_loop ty (Suc 0) base end 0 0 = Some (ty, 0, 0)" using r by (subst isolate_loop.simps) simp
  ultimately show ?thesis using r assms(2) by (subst isolate_loop.simps) auto
next
  case False
  then have c: "chain 0 (mt_regions ty)" using assms(1) by (auto simp: regions_ok_def)
  show ?thesis using isolate_loop_iso [of ty "[]", OF _ _ c assms(3), of 0 0] iso_length [OF assms(3)] assms(4) by simp
qed

lemma fill_ok:
  assumes "chain 0 rs" and "rs \<noteq> []"
  shows "regions_ok (fill base end nid flags rs)"
    and "attr_at (fill base end nid flags rs) x =
      (case attr_at rs x of Some y \<Rightarrow> Some y | None \<Rightarrow> if base \<le> x \<and> x < end then Some (flags, nid) else None)"
  using assms fill_chain [OF assms(1), of base "end" nid flags] fill_attr [OF assms(1), of base "end" nid flags x]
    fill_longer [of rs base "end" nid flags] by (auto simp: regions_ok_def)

lemma attr_at_map:
  assumes "\<And>r. rgn_base (f r) = rgn_base r \<and> rgn_end (f r) = rgn_end r \<and> (rgn_flags (f r), rgn_nid (f r)) = g (rgn_flags r, rgn_nid r)"
  shows "attr_at (map f rs) x = map_option g (attr_at rs x)"
  using assms by (induction rs) auto

lemma chain_map:
  assumes "\<And>r. rgn_base (f r) = rgn_base r \<and> rgn_end (f r) = rgn_end r"
  shows "chain lo (map f rs) = chain lo rs" and "last_end lo (map f rs) = last_end lo rs"
  using assms by (induction rs arbitrary: lo) auto

end
