(* ===== verification/Memblock_Iter.thy ===== *)
theory Memblock_Iter
  imports Memblock
begin

text \<open>
  The iterators over free memory of \<^verbatim>\<open>mm/memblock.c\<close>, \<^verbatim>\<open>__next_mem_range\<close> and
  \<^verbatim>\<open>__next_mem_range_rev\<close>, and the search for a free area. Both iterators are instances of one
  contract: what a loop over the ranges returns is the first hit in the list of intersections of the
  memory regions with the areas between the reserved ones.
\<close>

unbundle bit_operations_syntax

section \<open>The loop variable\<close>

text \<open>
  The lower and the upper 32 bits of the loop variable, as the two \<^verbatim>\<open>int\<close> the code reads from it.
  The value \<^verbatim>\<open>ULLONG_MAX\<close> stands for the end of the iteration.
\<close>

abbreviation (input) ULLONG_MAX :: u64 where "ULLONG_MAX \<equiv> - 1"

definition idx_lo :: "u64 \<Rightarrow> int" where
  "idx_lo i = sint (ucast i :: s32)"

definition idx_hi :: "u64 \<Rightarrow> int" where
  "idx_hi i = sint (ucast (drop_bit 32 i) :: s32)"

definition idx_pack :: "int \<Rightarrow> int \<Rightarrow> u64" where
  "idx_pack a b = ucast (word_of_int a :: u32) OR push_bit 32 (word_of_int b)"

lemma idx_pack_lo [simp]: "- (2 ^ 31) \<le> a \<Longrightarrow> a < 2 ^ 31 \<Longrightarrow> idx_lo (idx_pack a b) = a"
proof -
  assume "- (2 ^ 31) \<le> a" "a < 2 ^ 31"
  moreover have "(ucast (idx_pack a b) :: s32) = word_of_int a"
    by (rule bit_word_eqI) (simp add: idx_pack_def bit_simps)
  ultimately show ?thesis by (simp add: idx_lo_def sint_sbintrunc' signed_take_bit_int_eq_self)
qed

lemma idx_pack_hi [simp]: "- (2 ^ 31) \<le> b \<Longrightarrow> b < 2 ^ 31 \<Longrightarrow> idx_hi (idx_pack a b) = b"
proof -
  assume "- (2 ^ 31) \<le> b" "b < 2 ^ 31"
  moreover have "(ucast (drop_bit 32 (idx_pack a b)) :: s32) = word_of_int b"
    by (rule bit_word_eqI) (auto simp: idx_pack_def bit_simps)
  ultimately show ?thesis by (simp add: idx_hi_def sint_sbintrunc' signed_take_bit_int_eq_self)
qed

section \<open>Iterating over free ranges\<close>

definition memblock_is_hotpluggable :: "memblock_region \<Rightarrow> bool" where
  "memblock_is_hotpluggable m \<longleftrightarrow> rgn_flags m AND MEMBLOCK_HOTPLUG \<noteq> 0"

definition memblock_is_mirror :: "memblock_region \<Rightarrow> bool" where
  "memblock_is_mirror m \<longleftrightarrow> rgn_flags m AND MEMBLOCK_MIRROR \<noteq> 0"

definition memblock_is_nomap :: "memblock_region \<Rightarrow> bool" where
  "memblock_is_nomap m \<longleftrightarrow> rgn_flags m AND MEMBLOCK_NOMAP \<noteq> 0"

text \<open>
  \<open>memory\<close> says whether the regions are those of \<^verbatim>\<open>memblock.memory\<close>, and \<open>movable\<close> is
  \<^verbatim>\<open>movable_node_is_enabled()\<close>.
\<close>

definition should_skip_region :: "bool \<Rightarrow> bool \<Rightarrow> s32 \<Rightarrow> u32 \<Rightarrow> memblock_region \<Rightarrow> bool" where
  "should_skip_region memory movable nid flags m =
    (if \<not> memory then False
     else if nid \<noteq> NUMA_NO_NODE \<and> nid \<noteq> rgn_nid m then True
     else if movable \<and> memblock_is_hotpluggable m \<and> flags AND MEMBLOCK_HOTPLUG = 0 then True
     else if flags AND MEMBLOCK_MIRROR \<noteq> 0 \<and> \<not> memblock_is_mirror m then True
     else if flags AND MEMBLOCK_NOMAP = 0 \<and> memblock_is_nomap m then True
     else False)"

text \<open>The area before the region at index \<open>b\<close>.\<close>

definition gap_start :: "memblock_type \<Rightarrow> nat \<Rightarrow> phys_addr" where
  "gap_start ty b = (if b \<noteq> 0 then rgn_end (mt_regions ty ! (b - 1)) else 0)"

definition gap_end :: "memblock_type \<Rightarrow> nat \<Rightarrow> phys_addr" where
  "gap_end ty b = (if b < cnt ty then rgn_base (mt_regions ty ! b) else PHYS_ADDR_MAX)"

type_synonym mem_range = "phys_addr \<times> phys_addr \<times> s32"

text \<open>
  The inner loop: the index at which it stops, and whether it found an area that intersects the region
  \<open>m\<close>. The outer loop returns the range and the next value of the loop variable.
\<close>

function next_gap :: "memblock_type \<Rightarrow> memblock_region \<Rightarrow> nat \<Rightarrow> nat \<times> bool" where
  "next_gap ty m b =
    (if b < cnt ty + 1 then
       if gap_start ty b \<ge> rgn_end m then (b, False)
       else if rgn_base m < gap_end ty b then (b, True)
       else next_gap ty m (b + 1)
     else (b, False))"
  by pat_completeness auto
termination
  by (relation "measure (\<lambda>(ty, m, b). cnt ty + 1 - b)") auto

definition range_in_gap :: "memblock_type \<Rightarrow> memblock_region \<Rightarrow> nat \<Rightarrow> mem_range" where
  "range_in_gap ty m b = (max (rgn_base m) (gap_start ty b), min (rgn_end m) (gap_end ty b), rgn_nid m)"

function next_range_loop :: "(memblock_region \<Rightarrow> bool) \<Rightarrow> memblock_type \<Rightarrow> memblock_type option \<Rightarrow> nat \<Rightarrow> nat \<Rightarrow> (mem_range \<times> u64) option" where
  "next_range_loop skip ta tb a b =
    (if a < cnt ta then
       let m = mt_regions ta ! a in
       if skip m then next_range_loop skip ta tb (a + 1) b
       else (case tb of
           None \<Rightarrow> Some ((rgn_base m, rgn_end m, rgn_nid m), idx_pack (int (a + 1)) (int b))
         | Some ty \<Rightarrow> (case next_gap ty m b of
             (b1, False) \<Rightarrow> next_range_loop skip ta tb (a + 1) b1
           | (b1, True) \<Rightarrow> Some (range_in_gap ty m b1,
               if rgn_end m \<le> gap_end ty b1 then idx_pack (int (a + 1)) (int b1) else idx_pack (int a) (int (b1 + 1)))))
     else None)"
  by pat_completeness auto
termination
  by (relation "measure (\<lambda>(skip, ta, tb, a, b). cnt ta - a)") auto

text \<open>
  \<open>None\<close> is the end of the iteration. A negative index compares with the unsigned \<^verbatim>\<open>cnt\<close> as a large
  number, so no loop is entered.
\<close>

definition uu_next_mem_range :: "u64 \<Rightarrow> s32 \<Rightarrow> u32 \<Rightarrow> bool \<Rightarrow> bool \<Rightarrow> memblock_type \<Rightarrow> memblock_type option \<Rightarrow> (mem_range \<times> u64) option" where
  "uu_next_mem_range idx nid flags memory movable ta tb =
    (let nid1 = (if nid = MAX_NUMNODES then NUMA_NO_NODE else nid)
     in if idx_lo idx < 0 \<or> idx_hi idx < 0 then None
        else next_range_loop (should_skip_region memory movable nid1 flags) ta tb (nat (idx_lo idx)) (nat (idx_hi idx)))"

text \<open>The same downwards. The indices are \<^verbatim>\<open>int\<close> and end at \<open>- 1\<close>.\<close>

function prev_gap :: "memblock_type \<Rightarrow> memblock_region \<Rightarrow> int \<Rightarrow> int \<times> bool" where
  "prev_gap ty m b =
    (if 0 \<le> b then
       if gap_end ty (nat b) \<le> rgn_base m then (b, False)
       else if rgn_end m > gap_start ty (nat b) then (b, True)
       else prev_gap ty m (b - 1)
     else (b, False))"
  by pat_completeness auto
termination
  by (relation "measure (\<lambda>(ty, m, b). nat (b + 1))") auto

function prev_range_loop :: "(memblock_region \<Rightarrow> bool) \<Rightarrow> memblock_type \<Rightarrow> memblock_type option \<Rightarrow> int \<Rightarrow> int \<Rightarrow> (mem_range \<times> u64) option" where
  "prev_range_loop skip ta tb a b =
    (if 0 \<le> a then
       let m = mt_regions ta ! nat a in
       if skip m then prev_range_loop skip ta tb (a - 1) b
       else (case tb of
           None \<Rightarrow> Some ((rgn_base m, rgn_end m, rgn_nid m), idx_pack (a - 1) b)
         | Some ty \<Rightarrow> (case prev_gap ty m b of
             (b1, False) \<Rightarrow> prev_range_loop skip ta tb (a - 1) b1
           | (b1, True) \<Rightarrow> Some (range_in_gap ty m (nat b1),
               if rgn_base m \<ge> gap_start ty (nat b1) then idx_pack (a - 1) b1 else idx_pack a (b1 - 1))))
     else None)"
  by pat_completeness auto
termination
  by (relation "measure (\<lambda>(skip, ta, tb, a, b). nat (a + 1))") auto

definition uu_next_mem_range_rev :: "u64 \<Rightarrow> s32 \<Rightarrow> u32 \<Rightarrow> bool \<Rightarrow> bool \<Rightarrow> memblock_type \<Rightarrow> memblock_type option \<Rightarrow> (mem_range \<times> u64) option" where
  "uu_next_mem_range_rev idx nid flags memory movable ta tb =
    (let nid1 = (if nid = MAX_NUMNODES then NUMA_NO_NODE else nid);
         idx_a = (if idx = ULLONG_MAX then int (cnt ta) - 1 else idx_lo idx);
         idx_b = (if idx = ULLONG_MAX then (case tb of Some ty \<Rightarrow> int (cnt ty) | None \<Rightarrow> 0) else idx_hi idx)
     in prev_range_loop (should_skip_region memory movable nid1 flags) ta tb idx_a idx_b)"

declare next_gap.simps [simp del] next_range_loop.simps [simp del] prev_gap.simps [simp del] prev_range_loop.simps [simp del]

text \<open>
  The loop of \<^verbatim>\<open>__for_each_mem_range\<close>: the body runs on each range until it returns. The result is
  \<open>Some None\<close> if it never does, and \<open>None\<close> if the loop does not end.
\<close>

partial_function (option) for_each_range :: "(u64 \<Rightarrow> (mem_range \<times> u64) option) \<Rightarrow> (phys_addr \<Rightarrow> phys_addr \<Rightarrow> 'r option) \<Rightarrow> u64 \<Rightarrow> 'r option option" where
  "for_each_range step body idx =
    (case step idx of
       None \<Rightarrow> Some None
     | Some ((s, e, n), idx1) \<Rightarrow> (case body s e of Some r \<Rightarrow> Some (Some r) | None \<Rightarrow> for_each_range step body idx1))"

section \<open>What an iteration visits\<close>

text \<open>
  The contract of a \<open>next\<close> function: from every valid position it produces the head of the list of
  ranges that are left and moves to a valid position for the rest.
\<close>

fun first_some :: "(phys_addr \<Rightarrow> phys_addr \<Rightarrow> 'r option) \<Rightarrow> mem_range list \<Rightarrow> 'r option" where
  "first_some body [] = None"
| "first_some body ((s, e, n) # rs) = (case body s e of Some r \<Rightarrow> Some r | None \<Rightarrow> first_some body rs)"

lemma first_some_SomeE:
  assumes "first_some body rs = Some r"
  obtains s e n where "(s, e, n) \<in> set rs" "body s e = Some r"
  using assms by (induction body rs rule: first_some.induct) (auto split: option.splits)

lemma first_some_None: "first_some body rs = None \<longleftrightarrow> (\<forall>(s, e, n) \<in> set rs. body s e = None)"
  by (induction body rs rule: first_some.induct) (auto split: option.splits)

definition produces :: "(u64 \<Rightarrow> mem_range list) \<Rightarrow> (u64 \<Rightarrow> bool) \<Rightarrow> mem_range list \<Rightarrow> (mem_range \<times> u64) option \<Rightarrow> bool" where
  "produces rest valid rs res \<longleftrightarrow>
    (case res of None \<Rightarrow> rs = [] | Some (r, idx1) \<Rightarrow> rs = r # rest idx1 \<and> valid idx1)"

lemma produces_simps [simp]:
  "produces rest valid rs None \<longleftrightarrow> rs = []"
  "produces rest valid rs (Some (r, idx1)) \<longleftrightarrow> rs = r # rest idx1 \<and> valid idx1"
  by (simp_all add: produces_def)

locale range_iterator =
  fixes step :: "u64 \<Rightarrow> (mem_range \<times> u64) option"
    and rest :: "u64 \<Rightarrow> mem_range list"
    and valid :: "u64 \<Rightarrow> bool"
  assumes step: "valid idx \<Longrightarrow> produces rest valid (rest idx) (step idx)"
begin

lemma visits: "valid idx \<Longrightarrow> for_each_range step body idx = Some (first_some body (rest idx))"
proof (induction "rest idx" arbitrary: idx)
  case Nil
  then have "step idx = None" using step [OF Nil(2)] by (cases "step idx") (auto simp: produces_def)
  then show ?case using Nil(1) [symmetric] by (subst for_each_range.simps) simp
next
  case (Cons r rs)
  obtain idx1 where st: "step idx = Some (r, idx1)" "rs = rest idx1" "valid idx1"
    using step [OF Cons.prems] Cons.hyps(2) by (cases "step idx") auto
  obtain s e n where r: "r = (s, e, n)" by (cases r) auto
  show ?case using Cons.hyps(1) [OF st(2,3)] Cons.hyps(2) [symmetric] st r
    by (subst for_each_range.simps) (simp split: option.splits)
qed

end

text \<open>The areas between the regions of a type, and the list of intersections, upwards and downwards.\<close>

fun gaps :: "phys_addr \<Rightarrow> memblock_region list \<Rightarrow> (phys_addr \<times> phys_addr) list" where
  "gaps lo [] = [(lo, PHYS_ADDR_MAX)]"
| "gaps lo (r # rs) = (lo, rgn_base r) # gaps (rgn_end r) rs"

lemma gaps_length [simp]: "length (gaps lo rs) = Suc (length rs)"
  by (induction rs arbitrary: lo) auto

lemma gaps_nth: "b \<le> length rs \<Longrightarrow> gaps lo rs ! b =
    ((if b = 0 then lo else rgn_end (rs ! (b - 1))), if b < length rs then rgn_base (rs ! b) else PHYS_ADDR_MAX)"
  by (induction rs arbitrary: lo b) (auto simp: nth_Cons split: nat.splits)

abbreviation gap_list :: "memblock_type \<Rightarrow> (phys_addr \<times> phys_addr) list" where
  "gap_list ty \<equiv> gaps 0 (mt_regions ty)"

lemma gap_list_nth: "b \<le> cnt ty \<Longrightarrow> gap_list ty ! b = (gap_start ty b, gap_end ty b)"
  by (simp add: gaps_nth gap_start_def gap_end_def)

lemma drop_gaps: "b \<le> cnt ty \<Longrightarrow> drop b (gap_list ty) = (gap_start ty b, gap_end ty b) # drop (Suc b) (gap_list ty)"
  by (metis Cons_nth_drop_Suc gap_list_nth gaps_length less_Suc_eq_le)

function meet_up :: "(memblock_region \<Rightarrow> bool) \<Rightarrow> memblock_region list \<Rightarrow> (phys_addr \<times> phys_addr) list \<Rightarrow> mem_range list" where
  "meet_up skip [] gs = []"
| "meet_up skip (m # ms) [] = []"
| "meet_up skip (m # ms) ((s, e) # gs) =
    (if skip m \<or> rgn_end m \<le> s then meet_up skip ms ((s, e) # gs)
     else if rgn_base m < e then
       (max (rgn_base m) s, min (rgn_end m) e, rgn_nid m) #
         (if rgn_end m \<le> e then meet_up skip ms ((s, e) # gs) else meet_up skip (m # ms) gs)
     else meet_up skip (m # ms) gs)"
  by pat_completeness auto
termination
  by (relation "measure (\<lambda>(skip, ms, gs). length ms + length gs)") auto

lemma meet_up_Nil [simp]: "meet_up skip ms [] = []"
  by (cases ms) auto

lemma meet_up_skip: "skip m \<Longrightarrow> meet_up skip (m # ms) gs = meet_up skip ms gs"
  by (cases gs) auto

lemma next_gap_bounds: "next_gap ty m b = (b1, f) \<Longrightarrow> b \<le> cnt ty + 1 \<Longrightarrow> b \<le> b1 \<and> b1 \<le> cnt ty + 1 \<and> (f \<longrightarrow> b1 \<le> cnt ty)"
proof (induction ty m b rule: next_gap.induct)
  case (1 ty m b)
  then show ?case using 1(2) by (subst (asm) next_gap.simps) (auto split: if_splits)
qed

lemma next_gap_meet:
  assumes "\<not> skip m" and "b \<le> cnt ty + 1" and "next_gap ty m b = (b1, f)"
  shows "meet_up skip (m # ms) (drop b (gap_list ty)) =
    (if f then range_in_gap ty m b1 #
       (if rgn_end m \<le> gap_end ty b1 then meet_up skip ms (drop b1 (gap_list ty)) else meet_up skip (m # ms) (drop (b1 + 1) (gap_list ty)))
     else meet_up skip ms (drop b1 (gap_list ty)))"
  using assms
proof (induction ty m b rule: next_gap.induct)
  case (1 ty m b)
  show ?case
  proof (cases "b < cnt ty + 1")
    case False
    then have "next_gap ty m b = (b, False)" by (subst next_gap.simps) simp
    then have "b = cnt ty + 1" "b1 = b" "\<not> f" using 1(3,4) False by auto
    then show ?thesis by simp
  next
    case True
    then have d: "drop b (gap_list ty) = (gap_start ty b, gap_end ty b) # drop (b + 1) (gap_list ty)" by (simp add: drop_gaps)
    consider (stop) "gap_start ty b \<ge> rgn_end m" | (hit) "\<not> gap_start ty b \<ge> rgn_end m" "rgn_base m < gap_end ty b"
      | (on) "\<not> gap_start ty b \<ge> rgn_end m" "\<not> rgn_base m < gap_end ty b" by blast
    then show ?thesis
    proof cases
      case stop
      then have "b1 = b" "\<not> f" using 1(4) True by (auto simp: next_gap.simps [of ty m b])
      then show ?thesis using stop d by simp
    next
      case hit
      then have "b1 = b" "f" using 1(4) True by (auto simp: next_gap.simps [of ty m b])
      then show ?thesis using hit d 1(2) by (simp add: range_in_gap_def)
    next
      case on
      then have "next_gap ty m (b + 1) = (b1, f)" using 1(4) True by (simp add: next_gap.simps [of ty m b])
      then show ?thesis using 1(1) [OF True on 1(2)] on d 1(2) True by simp
    qed
  qed
qed

function meet_down :: "(memblock_region \<Rightarrow> bool) \<Rightarrow> memblock_region list \<Rightarrow> (phys_addr \<times> phys_addr) list \<Rightarrow> mem_range list" where
  "meet_down skip [] gs = []"
| "meet_down skip (m # ms) [] = []"
| "meet_down skip (m # ms) ((s, e) # gs) =
    (if skip m \<or> e \<le> rgn_base m then meet_down skip ms ((s, e) # gs)
     else if s < rgn_end m then
       (max (rgn_base m) s, min (rgn_end m) e, rgn_nid m) #
         (if s \<le> rgn_base m then meet_down skip ms ((s, e) # gs) else meet_down skip (m # ms) gs)
     else meet_down skip (m # ms) gs)"
  by pat_completeness auto
termination
  by (relation "measure (\<lambda>(skip, ms, gs). length ms + length gs)") auto

lemma meet_down_Nil [simp]: "meet_down skip ms [] = []"
  by (cases ms) auto

lemma meet_down_skip: "skip m \<Longrightarrow> meet_down skip (m # ms) gs = meet_down skip ms gs"
  by (cases gs) auto

text \<open>The areas and the regions below an index, the highest first.\<close>

definition below :: "'a list \<Rightarrow> int \<Rightarrow> 'a list" where
  "below xs i = rev (take (nat (i + 1)) xs)"

lemma below_neg [simp]: "i < 0 \<Longrightarrow> below xs i = []"
  by (simp add: below_def)

lemma below_nth: "0 \<le> i \<Longrightarrow> nat i < length xs \<Longrightarrow> below xs i = xs ! nat i # below xs (i - 1)"
  by (simp add: below_def nat_add_distrib take_Suc_conv_app_nth)

lemma below_gaps: "0 \<le> b \<Longrightarrow> b \<le> int (cnt ty) \<Longrightarrow>
    below (gap_list ty) b = (gap_start ty (nat b), gap_end ty (nat b)) # below (gap_list ty) (b - 1)"
  by (simp add: below_nth gap_list_nth nat_le_iff less_Suc_eq_le)

lemma prev_gap_bounds: "prev_gap ty m b = (b1, f) \<Longrightarrow> - 1 \<le> b \<Longrightarrow> - 1 \<le> b1 \<and> b1 \<le> b \<and> (f \<longrightarrow> 0 \<le> b1)"
proof (induction ty m b rule: prev_gap.induct)
  case (1 ty m b)
  then show ?case using 1(2) by (subst (asm) prev_gap.simps) (auto split: if_splits)
qed

lemma prev_gap_meet:
  assumes "\<not> skip m" and "b \<le> int (cnt ty)" and "prev_gap ty m b = (b1, f)"
  shows "meet_down skip (m # ms) (below (gap_list ty) b) =
    (if f then range_in_gap ty m (nat b1) #
       (if gap_start ty (nat b1) \<le> rgn_base m then meet_down skip ms (below (gap_list ty) b1) else meet_down skip (m # ms) (below (gap_list ty) (b1 - 1)))
     else meet_down skip ms (below (gap_list ty) b1))"
  using assms
proof (induction ty m b rule: prev_gap.induct)
  case (1 ty m b)
  show ?case
  proof (cases "0 \<le> b")
    case False
    then have "prev_gap ty m b = (b, False)" by (subst prev_gap.simps) simp
    then have "b1 = b" "\<not> f" using 1(4) by auto
    then show ?thesis using False by simp
  next
    case True
    note d = below_gaps [OF True 1(3)]
    consider (stop) "gap_end ty (nat b) \<le> rgn_base m" | (hit) "\<not> gap_end ty (nat b) \<le> rgn_base m" "rgn_end m > gap_start ty (nat b)"
      | (on) "\<not> gap_end ty (nat b) \<le> rgn_base m" "\<not> rgn_end m > gap_start ty (nat b)" by blast
    then show ?thesis
    proof cases
      case stop
      then have "b1 = b" "\<not> f" using 1(4) True by (auto simp: prev_gap.simps [of ty m b])
      then show ?thesis using stop d by simp
    next
      case hit
      then have "b1 = b" "f" using 1(4) True by (auto simp: prev_gap.simps [of ty m b])
      then show ?thesis using hit d 1(2) by (simp add: range_in_gap_def)
    next
      case on
      then have "prev_gap ty m (b - 1) = (b1, f)" using 1(4) True by (simp add: prev_gap.simps [of ty m b])
      then show ?thesis using 1(1) [OF True on 1(2)] on d 1(2,3) by simp
    qed
  qed
qed

text \<open>The iterators satisfy the contract.\<close>

text \<open>The indices of the iterators are \<^verbatim>\<open>int\<close>: with more regions than this they overflow.\<close>

definition few :: "memblock_type \<Rightarrow> bool" where
  "few ty \<longleftrightarrow> int (cnt ty) < 2 ^ 31 - 1"

definition up_rest :: "(memblock_region \<Rightarrow> bool) \<Rightarrow> memblock_type \<Rightarrow> memblock_type \<Rightarrow> u64 \<Rightarrow> mem_range list" where
  "up_rest skip ta tb idx = meet_up skip (drop (nat (idx_lo idx)) (mt_regions ta)) (drop (nat (idx_hi idx)) (gap_list tb))"

definition up_valid :: "memblock_type \<Rightarrow> memblock_type \<Rightarrow> u64 \<Rightarrow> bool" where
  "up_valid ta tb idx \<longleftrightarrow> few ta \<and> few tb \<and> 0 \<le> idx_lo idx \<and> 0 \<le> idx_hi idx \<and> idx_hi idx \<le> int (cnt tb) + 1"

lemma next_range_loop_spec:
  assumes "few ta" "few tb" "b \<le> cnt tb + 1"
  shows "produces (up_rest skip ta tb) (up_valid ta tb) (meet_up skip (drop a (mt_regions ta)) (drop b (gap_list tb)))
    (next_range_loop skip ta (Some tb) a b)"
  using assms(3)
proof (induction "cnt ta - a" arbitrary: a b)
  case 0
  then show ?case by (subst next_range_loop.simps) simp
next
  case (Suc n)
  let ?m = "mt_regions ta ! a"
  have a: "a < cnt ta" and d: "drop a (mt_regions ta) = ?m # drop (a + 1) (mt_regions ta)" and n: "n = cnt ta - (a + 1)"
    using Suc(2) by (auto simp: Cons_nth_drop_Suc)
  show ?case
  proof (cases "skip ?m")
    case True
    then show ?thesis using Suc(1) [OF n Suc(3)] a d by (subst next_range_loop.simps) (simp add: meet_up_skip)
  next
    case False
    obtain b1 f where g: "next_gap tb ?m b = (b1, f)" by force
    note i = next_gap_meet [of skip ?m b tb b1 f "drop (a + 1) (mt_regions ta)", OF False Suc(3) g, folded d]
    have b1: "b1 \<le> cnt tb + 1" "f \<Longrightarrow> b1 \<le> cnt tb" using next_gap_bounds [OF g Suc(3)] by auto
    show ?thesis
    proof (cases f)
      case True
      have w: "int (a + 1) < 2 ^ 31" "int (b1 + 1) < 2 ^ 31" using a b1(2) [OF True] assms(1,2) by (auto simp: few_def)
      show ?thesis using i True False a g w assms b1(2) [OF True] d
        by (subst next_range_loop.simps) (simp add: up_rest_def up_valid_def nat_add_distrib)
    next
      case no: False
      show ?thesis using i no False a g Suc(1) [OF n b1(1)] by (subst next_range_loop.simps) simp
    qed
  qed
qed


definition down_rest :: "(memblock_region \<Rightarrow> bool) \<Rightarrow> memblock_type \<Rightarrow> memblock_type \<Rightarrow> u64 \<Rightarrow> mem_range list" where
  "down_rest skip ta tb idx =
    (if idx = ULLONG_MAX then meet_down skip (rev (mt_regions ta)) (rev (gap_list tb))
     else meet_down skip (below (mt_regions ta) (idx_lo idx)) (below (gap_list tb) (idx_hi idx)))"

definition down_valid :: "memblock_type \<Rightarrow> memblock_type \<Rightarrow> u64 \<Rightarrow> bool" where
  "down_valid ta tb idx \<longleftrightarrow> few ta \<and> few tb \<and>
    (idx = ULLONG_MAX \<or> idx_lo idx < int (cnt ta) \<and> 0 \<le> idx_hi idx \<and> idx_hi idx \<le> int (cnt tb))"

lemma idx_pack_not_end: "0 \<le> b \<Longrightarrow> b < 2 ^ 31 \<Longrightarrow> idx_pack a b \<noteq> ULLONG_MAX"
proof
  assume "0 \<le> b" "b < 2 ^ 31" "idx_pack a b = ULLONG_MAX"
  moreover have "idx_hi ULLONG_MAX = - 1" by code_simp
  ultimately show False using idx_pack_hi [of b a] by simp
qed

lemma prev_range_loop_spec:
  assumes "few ta" "few tb" "- 1 \<le> a" "a < int (cnt ta)" "- 1 \<le> b" "b \<le> int (cnt tb)"
  shows "produces (down_rest skip ta tb) (down_valid ta tb) (meet_down skip (below (mt_regions ta) a) (below (gap_list tb) b))
    (prev_range_loop skip ta (Some tb) a b)"
  using assms(3-)
proof (induction "nat (a + 1)" arbitrary: a b)
  case 0
  then show ?case by (subst prev_range_loop.simps) simp
next
  case (Suc n)
  let ?m = "mt_regions ta ! nat a"
  have a: "0 \<le> a" "n = nat (a - 1 + 1)" and d: "below (mt_regions ta) a = ?m # below (mt_regions ta) (a - 1)"
    using Suc(2,4) by (auto simp: below_nth)
  note IH = Suc(1) [OF a(2)]
  show ?case
  proof (cases "skip ?m")
    case True
    then show ?thesis using IH [of b] Suc(4-) a d by (subst prev_range_loop.simps) (simp add: meet_down_skip)
  next
    case False
    obtain b1 f where g: "prev_gap tb ?m b = (b1, f)" by force
    note i = prev_gap_meet [of skip ?m b tb b1 f "below (mt_regions ta) (a - 1)", OF False Suc(6) g, folded d]
    have b1: "- 1 \<le> b1" "b1 \<le> b" "f \<Longrightarrow> 0 \<le> b1" using prev_gap_bounds [OF g Suc(5)] by auto
    show ?thesis
    proof (cases f)
      case True
      have w: "- (2 ^ 31) \<le> a - 1" "a < 2 ^ 31" "b1 < 2 ^ 31" "0 \<le> b1" using a b1(2,3) True Suc(4,6) assms(1,2) by (auto simp: few_def)
      have z: "0 \<le> b1 - 1" if "\<not> gap_start tb (nat b1) \<le> rgn_base ?m" using that w(4) by (cases "b1 = 0") (auto simp: gap_start_def)
      show ?thesis using i True False a g w z assms(1,2) b1(2) d Suc(4,6)
        by (subst prev_range_loop.simps) (simp add: down_rest_def down_valid_def idx_pack_not_end)
    next
      case no: False
      show ?thesis using i no False a g IH [of b1] b1 Suc(4,6) by (subst prev_range_loop.simps) simp
    qed
  qed
qed

abbreviation skips :: "bool \<Rightarrow> bool \<Rightarrow> s32 \<Rightarrow> u32 \<Rightarrow> memblock_region \<Rightarrow> bool" where
  "skips memory movable nid flags \<equiv>
    should_skip_region memory movable (if nid = MAX_NUMNODES then NUMA_NO_NODE else nid) flags"

interpretation up: range_iterator "\<lambda>idx. uu_next_mem_range idx nid flags memory movable ta (Some tb)"
    "up_rest (skips memory movable nid flags) ta tb" "up_valid ta tb" for nid flags memory movable ta tb
proof
  fix idx assume v: "up_valid ta tb idx"
  then have "few ta" "few tb" "nat (idx_hi idx) \<le> cnt tb + 1" by (auto simp: up_valid_def nat_le_iff)
  from next_range_loop_spec [OF this, of "skips memory movable nid flags" "nat (idx_lo idx)"] v
  show "produces (up_rest (skips memory movable nid flags) ta tb) (up_valid ta tb) (up_rest (skips memory movable nid flags) ta tb idx)
      (uu_next_mem_range idx nid flags memory movable ta (Some tb))"
    by (simp add: uu_next_mem_range_def up_rest_def up_valid_def not_less)
qed

interpretation down: range_iterator "\<lambda>idx. uu_next_mem_range_rev idx nid flags memory movable ta (Some tb)"
    "down_rest (skips memory movable nid flags) ta tb" "down_valid ta tb" for nid flags memory movable ta tb
proof
  fix idx assume v: "down_valid ta tb idx"
  define a where "a = (if idx = ULLONG_MAX then int (cnt ta) - 1 else idx_lo idx)"
  define b where "b = (if idx = ULLONG_MAX then int (cnt tb) else idx_hi idx)"
  have r: "down_rest (skips memory movable nid flags) ta tb idx =
      meet_down (skips memory movable nid flags) (below (mt_regions ta) a) (below (gap_list tb) b)"
    by (simp add: down_rest_def a_def b_def below_def nat_add_distrib)
  have s: "uu_next_mem_range_rev idx nid flags memory movable ta (Some tb) =
      prev_range_loop (skips memory movable nid flags) ta (Some tb) a b"
    by (simp add: uu_next_mem_range_rev_def a_def b_def)
  have f: "few ta" "few tb" using v by (auto simp: down_valid_def)
  have ab: "a < int (cnt ta)" "- 1 \<le> b" "b \<le> int (cnt tb)" using v by (auto simp: down_valid_def a_def b_def)
  show "produces (down_rest (skips memory movable nid flags) ta tb) (down_valid ta tb) (down_rest (skips memory movable nid flags) ta tb idx)
      (uu_next_mem_range_rev idx nid flags memory movable ta (Some tb))"
  proof (cases "- 1 \<le> a")
    case True
    then show ?thesis using prev_range_loop_spec [OF f True ab] by (simp only: r s)
  next
    case False
    then show ?thesis unfolding r s by (subst prev_range_loop.simps) simp
  qed
qed

section \<open>The free ranges\<close>

text \<open>The specification: one range for every area that meets a region.\<close>

definition meets :: "memblock_region \<Rightarrow> phys_addr \<times> phys_addr \<Rightarrow> bool" where
  "meets m g \<longleftrightarrow> rgn_base m < snd g \<and> fst g < rgn_end m"

definition meeting :: "memblock_region \<Rightarrow> phys_addr \<times> phys_addr \<Rightarrow> mem_range" where
  "meeting m g = (max (rgn_base m) (fst g), min (rgn_end m) (snd g), rgn_nid m)"

definition meetings :: "(memblock_region \<Rightarrow> bool) \<Rightarrow> memblock_region list \<Rightarrow> (phys_addr \<times> phys_addr) list \<Rightarrow> mem_range list" where
  "meetings skip ms gs = concat (map (\<lambda>m. map (meeting m) (filter (meets m) gs)) (filter (\<lambda>m. \<not> skip m) ms))"

lemma meetings_Cons: "meetings skip (m # ms) gs = (if skip m then [] else map (meeting m) (filter (meets m) gs)) @ meetings skip ms gs"
  by (simp add: meetings_def)

lemma meetings_no_gap [simp]: "meetings skip ms [] = []" "meetings skip [] gs = []"
  by (simp_all add: meetings_def)

lemma meetings_drop_gap: "(\<And>m. m \<in> set ms \<Longrightarrow> \<not> skip m \<Longrightarrow> \<not> meets m g) \<Longrightarrow> meetings skip ms (g # gs) = meetings skip ms gs"
  unfolding meetings_def by (rule arg_cong [of _ _ concat]) auto

definition ascending :: "memblock_region list \<Rightarrow> (phys_addr \<times> phys_addr) list \<Rightarrow> bool" where
  "ascending ms gs \<longleftrightarrow> sorted_wrt (\<lambda>m m'. rgn_end m \<le> rgn_base m') ms \<and> (\<forall>m \<in> set ms. rgn_base m \<le> rgn_end m) \<and>
    sorted_wrt (\<lambda>g g'. snd g \<le> fst g') gs \<and> (\<forall>g \<in> set gs. fst g \<le> snd g)"

lemma meet_up_meetings: "ascending ms gs \<Longrightarrow> meet_up skip ms gs = meetings skip ms gs"
proof (induction skip ms gs rule: meet_up.induct)
  case (3 skip m ms s e gs)
  have asc: "ascending ms ((s, e) # gs)" "ascending (m # ms) gs" using 3(5) by (auto simp: ascending_def)
  have later: "rgn_end m \<le> e \<or> rgn_end m \<le> s \<Longrightarrow> filter (meets m) gs = []"
    using 3(5) by (fastforce simp: ascending_def meets_def filter_empty_conv)
  have past: "\<not> rgn_end m \<le> e \<or> \<not> rgn_base m < e \<Longrightarrow> meetings skip ms ((s, e) # gs) = meetings skip ms gs"
    using 3(5) by (intro meetings_drop_gap) (fastforce simp: ascending_def meets_def)
  show ?case
    using 3(1-4) asc later past by (auto simp: meetings_Cons meets_def meeting_def)
qed auto

lemma meet_down_meetings: "ascending (rev ms) (rev gs) \<Longrightarrow> meet_down skip ms gs = meetings skip ms gs"
proof (induction skip ms gs rule: meet_down.induct)
  case (3 skip m ms s e gs)
  have asc: "ascending (rev ms) (rev ((s, e) # gs))" "ascending (rev (m # ms)) (rev gs)" using 3(5) by (auto simp: ascending_def sorted_wrt_append)
  have later: "s \<le> rgn_base m \<or> e \<le> rgn_base m \<Longrightarrow> filter (meets m) gs = []"
    using 3(5) by (fastforce simp: ascending_def meets_def filter_empty_conv sorted_wrt_append)
  have past: "\<not> s \<le> rgn_base m \<or> \<not> s < rgn_end m \<Longrightarrow> meetings skip ms ((s, e) # gs) = meetings skip ms gs"
    using 3(5) by (intro meetings_drop_gap) (fastforce simp: ascending_def meets_def sorted_wrt_append)
  show ?case
    using 3(1-4) asc later past by (auto simp: meetings_Cons meets_def meeting_def)
qed auto

lemma chain_regions: "chain lo rs \<Longrightarrow> sorted_wrt (\<lambda>m m'. rgn_end m \<le> rgn_base m') rs \<and> (\<forall>m \<in> set rs. lo \<le> rgn_base m \<and> rgn_base m < rgn_end m)"
proof (induction rs arbitrary: lo)
  case (Cons r rs)
  then show ?case using Cons.IH [of "rgn_end r"] by fastforce
qed simp

lemma chain_gaps: "chain lo rs \<Longrightarrow> sorted_wrt (\<lambda>g g'. snd g \<le> fst g') (gaps lo rs) \<and> (\<forall>g \<in> set (gaps lo rs). lo \<le> fst g \<and> fst g \<le> snd g)"
proof (induction rs arbitrary: lo)
  case (Cons r rs)
  then show ?case using Cons.IH [of "rgn_end r"] by fastforce
qed simp

lemma regions_ok_ascending: "regions_ok ms \<Longrightarrow> regions_ok rs \<Longrightarrow> ascending ms (gaps 0 rs)"
proof -
  assume ok: "regions_ok ms" "regions_ok rs"
  have "sorted_wrt (\<lambda>m m'. rgn_end m \<le> rgn_base m') ms \<and> (\<forall>m \<in> set ms. rgn_base m \<le> rgn_end m)"
  proof (cases "no_regions ms")
    case True
    then show ?thesis by (auto elim: no_regionsE)
  next
    case False
    then show ?thesis using ok(1) chain_regions [of 0 ms] by (auto simp: regions_ok_def)
  qed
  moreover have "sorted_wrt (\<lambda>g g'. snd g \<le> fst g') (gaps 0 rs) \<and> (\<forall>g \<in> set (gaps 0 rs). fst g \<le> snd g)"
  proof (cases "no_regions rs")
    case True
    then show ?thesis by (auto elim!: no_regionsE)
  next
    case False
    then show ?thesis using ok(2) chain_gaps [of 0 rs] by (auto simp: regions_ok_def)
  qed
  ultimately show ?thesis by (simp add: ascending_def)
qed

lemma chain_gaps_cover: "chain lo rs \<Longrightarrow> x < PHYS_ADDR_MAX \<Longrightarrow> (\<exists>g \<in> set (gaps lo rs). fst g \<le> x \<and> x < snd g) \<longleftrightarrow> lo \<le> x \<and> attr_at rs x = None"
proof (induction rs arbitrary: lo)
  case (Cons r rs)
  have "x < rgn_base r \<Longrightarrow> attr_at rs x = None" using attr_at_below [of "rgn_end r" rs x] Cons.prems by auto
  then show ?case using Cons.IH [of "rgn_end r"] Cons.prems by auto
qed simp

lemma gaps_cover:
  assumes "regions_ok rs" and "x < PHYS_ADDR_MAX"
  shows "(\<exists>g \<in> set (gaps 0 rs). fst g \<le> x \<and> x < snd g) \<longleftrightarrow> attr_at rs x = None"
proof (cases "no_regions rs")
  case True
  then show ?thesis using assms(2) by (auto elim!: no_regionsE)
next
  case False
  then show ?thesis using assms chain_gaps_cover [of 0 rs x] by (auto simp: regions_ok_def)
qed

text \<open>Whether memory with these attributes is visited.\<close>

definition usable :: "bool \<Rightarrow> s32 \<Rightarrow> u32 \<Rightarrow> u32 \<times> s32 \<Rightarrow> bool" where
  "usable movable nid flags at \<longleftrightarrow> \<not> skips True movable nid flags \<lparr>rgn_base = 0, rgn_size = 0, rgn_flags = fst at, rgn_nid = snd at\<rparr>"

lemma usable_region: "skips True movable nid flags m \<longleftrightarrow> \<not> usable movable nid flags (rgn_flags m, rgn_nid m)"
  by (simp add: usable_def should_skip_region_def memblock_is_hotpluggable_def memblock_is_mirror_def memblock_is_nomap_def)

lemma attr_at_region:
  assumes "chain lo rs" shows "attr_at rs x = Some at \<longleftrightarrow> (\<exists>m \<in> set rs. rgn_base m \<le> x \<and> x < rgn_end m \<and> at = (rgn_flags m, rgn_nid m))"
  using assms
proof (induction rs arbitrary: lo)
  case (Cons r rs)
  have "\<forall>m \<in> set rs. rgn_end r \<le> rgn_base m" using chain_regions [of "rgn_end r" rs] Cons.prems by simp
  then have "rgn_base r \<le> x \<and> x < rgn_end r \<Longrightarrow> m \<in> set rs \<Longrightarrow> \<not> rgn_base m \<le> x" for m by fastforce
  then show ?case using Cons.IH [of "rgn_end r"] Cons.prems by (cases "rgn_base r \<le> x \<and> x < rgn_end r") auto
qed simp

lemma regions_ok_attr:
  assumes "regions_ok rs" shows "attr_at rs x = Some at \<longleftrightarrow> (\<exists>m \<in> set rs. rgn_base m \<le> x \<and> x < rgn_end m \<and> at = (rgn_flags m, rgn_nid m))"
proof (cases "no_regions rs")
  case True
  then show ?thesis by (auto elim!: no_regionsE)
next
  case False
  then show ?thesis using assms attr_at_region [of 0 rs x at] by (auto simp: regions_ok_def)
qed

lemma meetings_set: "(s, e, n) \<in> set (meetings skip ms gs) \<longleftrightarrow>
    (\<exists>m \<in> set ms. \<exists>g \<in> set gs. \<not> skip m \<and> meets m g \<and> s = max (rgn_base m) (fst g) \<and> e = min (rgn_end m) (snd g) \<and> n = rgn_nid m)"
  by (induction ms) (auto 4 4 simp: meetings_Cons meeting_def image_iff intro: exI conjI)

text \<open>The ranges cover exactly the usable addresses that are not reserved.\<close>

lemma meetings_sound:
  assumes "regions_ok ms" "regions_ok rs" and "(s, e, n) \<in> set (meetings (skips True movable nid flags) ms (gaps 0 rs))"
    and "s \<le> x" "x < e"
  shows "attr_at rs x = None \<and> (\<exists>f. attr_at ms x = Some (f, n) \<and> usable movable nid flags (f, n))"
proof -
  obtain m g where m: "m \<in> set ms" "g \<in> set (gaps 0 rs)" "\<not> skips True movable nid flags m"
    "rgn_base m \<le> x" "x < rgn_end m" "fst g \<le> x" "x < snd g" "n = rgn_nid m"
    using assms(3-5) unfolding meetings_set by auto
  have "x < PHYS_ADDR_MAX" using m(5) word_order.extremum by (rule less_le_trans)
  then show ?thesis using m gaps_cover [OF assms(2), of x] regions_ok_attr [OF assms(1), of x "(rgn_flags m, rgn_nid m)"]
    by (auto simp: usable_region)
qed

lemma meetings_complete:
  assumes "regions_ok ms" "regions_ok rs" and "attr_at ms x = Some at" "usable movable nid flags at" "attr_at rs x = None"
  shows "\<exists>s e. (s, e, snd at) \<in> set (meetings (skips True movable nid flags) ms (gaps 0 rs)) \<and> s \<le> x \<and> x < e"
proof -
  obtain m where m: "m \<in> set ms" "rgn_base m \<le> x" "x < rgn_end m" "at = (rgn_flags m, rgn_nid m)"
    using assms(3) regions_ok_attr [OF assms(1)] by blast
  have "x < PHYS_ADDR_MAX" using m(3) word_order.extremum by (rule less_le_trans)
  then obtain g where g: "g \<in> set (gaps 0 rs)" "fst g \<le> x" "x < snd g" using gaps_cover [OF assms(2), of x] assms(5) by blast
  have "meets m g" using m g by (auto simp: meets_def)
  then show ?thesis unfolding meetings_set using m g assms(4) by (fastforce simp: usable_region)
qed


section \<open>Finding a free area\<close>

text \<open>
  The allocator: \<^verbatim>\<open>struct memblock\<close> and the file's variables \<^verbatim>\<open>memblock_can_resize\<close> and
  \<^verbatim>\<open>system_has_some_mirror\<close>. \<open>mb_slab\<close> is \<^verbatim>\<open>slab_is_available()\<close> and \<open>mb_movable_node\<close> is
  \<^verbatim>\<open>movable_node_is_enabled()\<close>.
\<close>

record memblock =
  mb_bottom_up :: bool
  mb_current_limit :: phys_addr
  mb_memory :: memblock_type
  mb_reserved :: memblock_type
  mb_can_resize :: bool
  mb_has_mirror :: bool
  mb_slab :: bool
  mb_movable_node :: bool

abbreviation (input) PAGE_SIZE :: phys_addr where "PAGE_SIZE \<equiv> 4096"
abbreviation (input) MEMBLOCK_ALLOC_ANYWHERE :: phys_addr where "MEMBLOCK_ALLOC_ANYWHERE \<equiv> - 1"
abbreviation (input) MEMBLOCK_ALLOC_ACCESSIBLE :: phys_addr where "MEMBLOCK_ALLOC_ACCESSIBLE \<equiv> 0"
abbreviation (input) MEMBLOCK_ALLOC_KASAN :: phys_addr where "MEMBLOCK_ALLOC_KASAN \<equiv> 1"

definition round_up :: "phys_addr \<Rightarrow> phys_addr \<Rightarrow> phys_addr" where
  "round_up x y = ((x - 1) OR (y - 1)) + 1"

definition round_down :: "phys_addr \<Rightarrow> phys_addr \<Rightarrow> phys_addr" where
  "round_down x y = x AND NOT (y - 1)"

definition clamp :: "phys_addr \<Rightarrow> phys_addr \<Rightarrow> phys_addr \<Rightarrow> phys_addr" where
  "clamp v lo hi = min (max v lo) hi"

definition choose_memblock_flags :: "memblock \<Rightarrow> u32" where
  "choose_memblock_flags mb = (if mb_has_mirror mb then MEMBLOCK_MIRROR else MEMBLOCK_NONE)"

text \<open>The bodies of the two search loops: the candidate in one free range.\<close>

definition fit_bottom_up :: "phys_addr \<Rightarrow> phys_addr \<Rightarrow> phys_addr \<Rightarrow> phys_addr \<Rightarrow> phys_addr \<Rightarrow> phys_addr \<Rightarrow> phys_addr option" where
  "fit_bottom_up start end len align s e =
    (let this_start = clamp s start end; this_end = clamp e start end; cand = round_up this_start align
     in if cand < this_end \<and> this_end - cand \<ge> len then Some cand else None)"

definition fit_top_down :: "phys_addr \<Rightarrow> phys_addr \<Rightarrow> phys_addr \<Rightarrow> phys_addr \<Rightarrow> phys_addr \<Rightarrow> phys_addr \<Rightarrow> phys_addr option" where
  "fit_top_down start end len align s e =
    (let this_start = clamp s start end; this_end = clamp e start end; cand = round_down (this_end - len) align
     in if this_end < len then None else if cand \<ge> this_start then Some cand else None)"

text \<open>\<open>None\<close> stands for an iteration whose indices overflow.\<close>

definition uu_memblock_find_range_bottom_up :: "memblock \<Rightarrow> phys_addr \<Rightarrow> phys_addr \<Rightarrow> phys_addr \<Rightarrow> phys_addr \<Rightarrow> s32 \<Rightarrow> u32 \<Rightarrow> phys_addr option" where
  "uu_memblock_find_range_bottom_up mb start end len align nid flags =
    (if \<not> few (mb_memory mb) \<or> \<not> few (mb_reserved mb) then None
     else map_option (case_option 0 id)
      (for_each_range (\<lambda>idx. uu_next_mem_range idx nid flags True (mb_movable_node mb) (mb_memory mb) (Some (mb_reserved mb)))
        (fit_bottom_up start end len align) 0))"

definition uu_memblock_find_range_top_down :: "memblock \<Rightarrow> phys_addr \<Rightarrow> phys_addr \<Rightarrow> phys_addr \<Rightarrow> phys_addr \<Rightarrow> s32 \<Rightarrow> u32 \<Rightarrow> phys_addr option" where
  "uu_memblock_find_range_top_down mb start end len align nid flags =
    (if \<not> few (mb_memory mb) \<or> \<not> few (mb_reserved mb) then None
     else map_option (case_option 0 id)
      (for_each_range (\<lambda>idx. uu_next_mem_range_rev idx nid flags True (mb_movable_node mb) (mb_memory mb) (Some (mb_reserved mb)))
        (fit_top_down start end len align) ULLONG_MAX))"

definition memblock_find_in_range_node :: "memblock \<Rightarrow> phys_addr \<Rightarrow> phys_addr \<Rightarrow> phys_addr \<Rightarrow> phys_addr \<Rightarrow> s32 \<Rightarrow> u32 \<Rightarrow> phys_addr option" where
  "memblock_find_in_range_node mb len align start end nid flags =
    (let end1 = (if end = MEMBLOCK_ALLOC_ACCESSIBLE \<or> end = MEMBLOCK_ALLOC_KASAN then mb_current_limit mb else end);
         start1 = max start PAGE_SIZE;
         end2 = max start1 end1
     in if mb_bottom_up mb then uu_memblock_find_range_bottom_up mb start1 end2 len align nid flags
        else uu_memblock_find_range_top_down mb start1 end2 len align nid flags)"

text \<open>The retry without \<^verbatim>\<open>MEMBLOCK_MIRROR\<close> runs at most once.\<close>

definition memblock_find_in_range :: "memblock \<Rightarrow> phys_addr \<Rightarrow> phys_addr \<Rightarrow> phys_addr \<Rightarrow> phys_addr \<Rightarrow> phys_addr option" where
  "memblock_find_in_range mb start end len align =
    (let flags = choose_memblock_flags mb in
     case memblock_find_in_range_node mb len align start end NUMA_NO_NODE flags of
       None \<Rightarrow> None
     | Some ret \<Rightarrow>
         if ret = 0 \<and> flags AND MEMBLOCK_MIRROR \<noteq> 0
         then memblock_find_in_range_node mb len align start end NUMA_NO_NODE (flags AND NOT MEMBLOCK_MIRROR)
         else Some ret)"


lemma uint_diff: "(a :: 'a::len word) \<le> b \<Longrightarrow> uint (b - a) = uint b - uint a"
  by (simp add: uint_sub_lem [symmetric] word_le_def)

lemma uint_inc: "(x :: 'a::len word) \<noteq> - 1 \<Longrightarrow> uint (x + 1) = uint x + 1"
proof -
  assume "x \<noteq> - 1"
  then have "uint x \<noteq> uint (- 1 :: 'a word)" by (simp add: word_uint_eq_iff)
  then have "uint x \<noteq> 2 ^ LENGTH('a) - 1" by (simp add: unsigned_minus_1_eq_mask mask_eq_exp_minus_1)
  then have "uint x + 1 < 2 ^ LENGTH('a)" using uint_lt2p [of x] by linarith
  moreover have "0 \<le> uint x + 1" using uint_ge_0 [of x] by linarith
  ultimately show ?thesis by (simp add: uint_word_ariths mod_pos_pos_trivial)
qed

lemma uint_dec: "(x :: 'a::len word) \<noteq> 0 \<Longrightarrow> uint (x - 1) = uint x - 1"
  using uint_diff [of 1 x] inc_le [of 0 x] by (simp add: word_gt_0)

lemma round_up_ge: "round_up x y = 0 \<or> x \<le> round_up x y"
proof (cases "x = 0")
  case False
  let ?z = "(x - 1) OR (y - 1)"
  have "uint (x - 1) \<le> uint ?z" using le_word_or2 [of "x - 1" "y - 1"] by (simp add: word_le_def)
  moreover have "?z \<noteq> - 1 \<Longrightarrow> uint (?z + 1) = uint ?z + 1" by (rule uint_inc)
  ultimately show ?thesis using uint_dec [OF False] by (cases "?z = - 1") (auto simp: round_up_def word_le_def)
qed simp

lemma round_down_le: "round_down x y \<le> x"
  by (simp add: round_down_def word_and_le2)

text \<open>A candidate lies in the free range and in the limits.\<close>

lemma fit_bottom_up_inside:
  assumes "fit_bottom_up start end len align s e = Some c" and "c \<noteq> 0" and "start \<le> end"
  shows "start \<le> c \<and> c \<le> end \<and> len \<le> end - c \<and> (\<forall>x. c \<le> x \<and> x - c < len \<longrightarrow> s \<le> x \<and> x < e)"
proof -
  let ?s = "clamp s start end" and ?e = "clamp e start end"
  have c: "c < ?e" "len \<le> ?e - c" "?s \<le> c"
    using assms(1,2) round_up_ge [of ?s align] by (auto simp: fit_bottom_up_def Let_def split: if_splits)
  have o: "start \<le> ?s" "?e \<le> end" "s \<le> ?s" "?e \<le> e" using c assms(3) by (auto simp: clamp_def min_def max_def split: if_splits)
  have "?e - c \<le> end - c" using c o(2) uint_diff [of c ?e] uint_diff [of c "end"] by (simp add: word_le_def word_less_def)
  moreover have "x < e" if "c \<le> x" "x - c < len" for x
    using that c o(4) uint_diff [of c x] uint_diff [of c ?e] by (simp add: word_le_def word_less_def)
  ultimately show ?thesis using c o by (meson dual_order.trans order_le_less_trans less_imp_le)
qed

lemma fit_top_down_inside:
  assumes "fit_top_down start end len align s e = Some c" and "start \<le> end"
  shows "start \<le> c \<and> c \<le> end \<and> len \<le> end - c \<and> (\<forall>x. c \<le> x \<and> x - c < len \<longrightarrow> s \<le> x \<and> x < e)"
proof -
  let ?s = "clamp s start end" and ?e = "clamp e start end"
  have c: "len \<le> ?e" "c \<le> ?e - len" "?s \<le> c"
    using assms(1) round_down_le [of "?e - len" align] by (auto simp: fit_top_down_def Let_def not_less split: if_splits)
  have "uint c \<le> uint ?e - uint len" using c(1,2) uint_diff [of len ?e] by (simp add: word_le_def)
  then have ce: "c \<le> ?e" using uint_ge_0 [of len] unfolding word_le_def by linarith
  have "len \<le> ?e - c" using uint_diff [OF ce] \<open>uint c \<le> _\<close> unfolding word_le_def by linarith
  note ce = ce this
  have o: "start \<le> ?s" "?e \<le> end" using assms(2) by (auto simp: clamp_def)
  have "?e - c \<le> end - c" using ce o(2) uint_diff [of c ?e] uint_diff [of c "end"] by (simp add: word_le_def)
  moreover have "s \<le> x \<and> x < e" if "c \<le> x" "x - c < len" for x
  proof -
    have "x < ?e" using that ce uint_diff [of c x] uint_diff [of c ?e] by (simp add: word_le_def word_less_def)
    then have "s \<le> ?s" "?e \<le> e" using that c(3) by (auto simp: clamp_def min_def max_def split: if_splits)
    then show ?thesis using that c(3) \<open>x < ?e\<close> by auto
  qed
  ultimately show ?thesis using c ce o by auto
qed


text \<open>Every address of the area is usable memory and not reserved.\<close>

definition area_free :: "memblock \<Rightarrow> s32 \<Rightarrow> u32 \<Rightarrow> phys_addr \<Rightarrow> phys_addr \<Rightarrow> bool" where
  "area_free mb nid flags c len \<longleftrightarrow>
    (\<forall>x. c \<le> x \<and> x - c < len \<longrightarrow> attr_at (mt_regions (mb_reserved mb)) x = None \<and>
       (\<exists>at. attr_at (mt_regions (mb_memory mb)) x = Some at \<and> usable (mb_movable_node mb) nid flags at))"

abbreviation maps_ok :: "memblock \<Rightarrow> bool" where
  "maps_ok mb \<equiv> regions_ok (mt_regions (mb_memory mb)) \<and> regions_ok (mt_regions (mb_reserved mb)) \<and>
    few (mb_memory mb) \<and> few (mb_reserved mb)"

definition mb_ranges :: "memblock \<Rightarrow> s32 \<Rightarrow> u32 \<Rightarrow> mem_range list" where
  "mb_ranges mb nid flags =
    meetings (skips True (mb_movable_node mb) nid flags) (mt_regions (mb_memory mb)) (gap_list (mb_reserved mb))"

lemma mb_ranges_free:
  assumes "maps_ok mb" and "(s, e, n) \<in> set (mb_ranges mb nid flags)"
    and "\<And>x. c \<le> x \<Longrightarrow> x - c < len \<Longrightarrow> s \<le> x \<and> x < e"
  shows "area_free mb nid flags c len"
  using meetings_sound [of "mt_regions (mb_memory mb)" "mt_regions (mb_reserved mb)" s e n "mb_movable_node mb" nid flags] assms
  by (fastforce simp: area_free_def mb_ranges_def)

lemma bottom_up_first:
  assumes "maps_ok mb"
  shows "uu_memblock_find_range_bottom_up mb start end len align nid flags =
    Some (case_option 0 id (first_some (fit_bottom_up start end len align) (mb_ranges mb nid flags)))"
proof -
  have z: "idx_lo 0 = 0" "idx_hi 0 = 0" by code_simp+
  have "up_valid (mb_memory mb) (mb_reserved mb) 0" using assms by (simp add: up_valid_def z)
  then show ?thesis using assms
    by (simp add: uu_memblock_find_range_bottom_up_def up.visits up_rest_def z mb_ranges_def meet_up_meetings regions_ok_ascending)
qed

lemma top_down_first:
  assumes "maps_ok mb"
  shows "uu_memblock_find_range_top_down mb start end len align nid flags =
    Some (case_option 0 id (first_some (fit_top_down start end len align) (rev (mb_ranges mb nid flags))))"
proof -
  have "down_valid (mb_memory mb) (mb_reserved mb) ULLONG_MAX" using assms by (simp add: down_valid_def)
  moreover have "meetings skip (rev ms) (rev gs) = rev (meetings skip ms gs)" for skip ms and gs :: "(phys_addr \<times> phys_addr) list"
    by (simp add: meetings_def rev_concat rev_filter rev_map o_def)
  ultimately show ?thesis using assms
    by (simp add: uu_memblock_find_range_top_down_def down.visits down_rest_def mb_ranges_def meet_down_meetings regions_ok_ascending)
qed

definition search_start :: "phys_addr \<Rightarrow> phys_addr" where
  "search_start start = max start PAGE_SIZE"

definition search_end :: "memblock \<Rightarrow> phys_addr \<Rightarrow> phys_addr \<Rightarrow> phys_addr" where
  "search_end mb start end = max (search_start start)
    (if end = MEMBLOCK_ALLOC_ACCESSIBLE \<or> end = MEMBLOCK_ALLOC_KASAN then mb_current_limit mb else end)"

lemma find_in_range_node_sound:
  assumes "maps_ok mb"
  shows "\<exists>c. memblock_find_in_range_node mb len align start end nid flags = Some c \<and>
    (c \<noteq> 0 \<longrightarrow> area_free mb nid flags c len \<and> search_start start \<le> c \<and> c \<le> search_end mb start end \<and> len \<le> search_end mb start end - c)"
proof -
  let ?s = "search_start start" and ?e = "search_end mb start end"
  have le: "?s \<le> ?e" by (simp add: search_end_def)
  let ?fit = "if mb_bottom_up mb then fit_bottom_up ?s ?e len align else fit_top_down ?s ?e len align"
  let ?rs = "if mb_bottom_up mb then mb_ranges mb nid flags else rev (mb_ranges mb nid flags)"
  have find: "memblock_find_in_range_node mb len align start end nid flags = Some (case_option 0 id (first_some ?fit ?rs))"
    by (simp add: memblock_find_in_range_node_def bottom_up_first [OF assms] top_down_first [OF assms] search_start_def search_end_def Let_def)
  show ?thesis
  proof (cases "first_some ?fit ?rs")
    case None
    then show ?thesis using find by simp
  next
    case (Some c)
    then obtain s e n where r: "(s, e, n) \<in> set (mb_ranges mb nid flags)" "?fit s e = Some c"
      by (auto elim!: first_some_SomeE split: if_splits)
    have "c \<noteq> 0 \<Longrightarrow> ?s \<le> c \<and> c \<le> ?e \<and> len \<le> ?e - c \<and> (\<forall>x. c \<le> x \<and> x - c < len \<longrightarrow> s \<le> x \<and> x < e)"
      using r(2) fit_bottom_up_inside [OF _ _ le, of len align s e c] fit_top_down_inside [OF _ le, of len align s e c] by (auto split: if_splits)
    then show ?thesis using find Some mb_ranges_free [OF assms r(1), of c len] by simp
  qed
qed


lemma find_range_few:
  "uu_memblock_find_range_bottom_up mb start end len align nid flags = Some c \<Longrightarrow> few (mb_memory mb) \<and> few (mb_reserved mb)"
  "uu_memblock_find_range_top_down mb start end len align nid flags = Some c \<Longrightarrow> few (mb_memory mb) \<and> few (mb_reserved mb)"
  by (auto simp: uu_memblock_find_range_bottom_up_def uu_memblock_find_range_top_down_def split: if_splits)

lemma find_in_range_few: "memblock_find_in_range mb start end len align = Some c \<Longrightarrow> few (mb_memory mb) \<and> few (mb_reserved mb)"
  by (auto simp: memblock_find_in_range_def memblock_find_in_range_node_def Let_def dest: find_range_few split: option.splits if_splits)

text \<open>Without a mirror request the usable memory is a superset.\<close>

lemma usable_unmirrored: "usable movable nid flags at \<Longrightarrow> usable movable nid (flags AND NOT MEMBLOCK_MIRROR) at"
proof -
  have "(flags AND NOT MEMBLOCK_MIRROR) AND MEMBLOCK_MIRROR = 0" "(flags AND NOT MEMBLOCK_MIRROR) AND MEMBLOCK_HOTPLUG = flags AND MEMBLOCK_HOTPLUG"
    "(flags AND NOT MEMBLOCK_MIRROR) AND MEMBLOCK_NOMAP = flags AND MEMBLOCK_NOMAP"
    by (simp_all add: and.assoc)
  then show "usable movable nid flags at \<Longrightarrow> usable movable nid (flags AND NOT MEMBLOCK_MIRROR) at"
    by (auto simp: usable_def should_skip_region_def split: if_splits)
qed

lemma area_free_unmirrored: "area_free mb nid flags c len \<Longrightarrow> area_free mb nid (flags AND NOT MEMBLOCK_MIRROR) c len"
  unfolding area_free_def using usable_unmirrored by blast

lemma choose_memblock_flags_unmirrored: "choose_memblock_flags mb AND NOT MEMBLOCK_MIRROR = MEMBLOCK_NONE"
  by (simp add: choose_memblock_flags_def)

lemma find_in_range_sound:
  assumes "maps_ok mb"
  shows "\<exists>c. memblock_find_in_range mb start end len align = Some c \<and>
    (c \<noteq> 0 \<longrightarrow> area_free mb NUMA_NO_NODE MEMBLOCK_NONE c len \<and> search_start start \<le> c \<and> c \<le> search_end mb start end \<and> len \<le> search_end mb start end - c)"
proof -
  let ?in = "\<lambda>c. search_start start \<le> c \<and> c \<le> search_end mb start end \<and> len \<le> search_end mb start end - c"
  let ?find = "memblock_find_in_range_node mb len align start end NUMA_NO_NODE"
  note find = find_in_range_node_sound [OF assms, of len align start "end" NUMA_NO_NODE]
  from find [of "choose_memblock_flags mb"] obtain c where c: "?find (choose_memblock_flags mb) = Some c"
    "c \<noteq> 0 \<Longrightarrow> area_free mb NUMA_NO_NODE (choose_memblock_flags mb) c len \<and> ?in c" by auto
  from find [of MEMBLOCK_NONE] obtain d where d: "?find MEMBLOCK_NONE = Some d"
    "d \<noteq> 0 \<Longrightarrow> area_free mb NUMA_NO_NODE MEMBLOCK_NONE d len \<and> ?in d" by auto
  have "memblock_find_in_range mb start end len align = Some (if c = 0 \<and> choose_memblock_flags mb AND MEMBLOCK_MIRROR \<noteq> 0 then d else c)"
    unfolding memblock_find_in_range_def Let_def choose_memblock_flags_unmirrored c(1) d(1) by simp
  moreover have "c \<noteq> 0 \<Longrightarrow> area_free mb NUMA_NO_NODE MEMBLOCK_NONE c len"
    using area_free_unmirrored [of mb NUMA_NO_NODE "choose_memblock_flags mb" c len] c(2) unfolding choose_memblock_flags_unmirrored by blast
  ultimately show ?thesis using c(2) d(2) by (auto split: if_splits)
qed

end
