(* ===== verification/Memblock_Ops.thy ===== *)
theory Memblock_Ops
  imports Memblock_Iter
begin

text \<open>
  The operations of \<^verbatim>\<open>mm/memblock.c\<close> that change the allocator: adding, isolating, removing and updating
  a range, and the doubling of a full array, which uses them in turn. Two contracts say what a doubling
  may do; the operations are proved against them, and the code's doubling satisfies them.
\<close>

unbundle bit_operations_syntax

section \<open>Operations that may grow an array\<close>

text \<open>Which of the two arrays an operation works on.\<close>

datatype mb_sel = MEMORY | RESERVED

fun ty_of :: "mb_sel \<Rightarrow> memblock \<Rightarrow> memblock_type" where
  "ty_of MEMORY mb = mb_memory mb"
| "ty_of RESERVED mb = mb_reserved mb"

fun with_ty :: "mb_sel \<Rightarrow> memblock_type \<Rightarrow> memblock \<Rightarrow> memblock" where
  "with_ty MEMORY ty mb = mb\<lparr>mb_memory := ty\<rparr>"
| "with_ty RESERVED ty mb = mb\<lparr>mb_reserved := ty\<rparr>"

abbreviation (input) ENOMEM :: s32 where "ENOMEM \<equiv> 12"

text \<open>
  The operations call \<^verbatim>\<open>memblock_double_array\<close>, which calls them again to free the old array and to
  reserve the new one. They take it as an argument, \<open>dbl\<close>; the recursion is closed below. A result
  \<open>None\<close> is a \<^verbatim>\<open>BUG_ON\<close>, or a recursion that is not bounded.
\<close>

type_synonym dbl = "mb_sel \<Rightarrow> phys_addr \<Rightarrow> phys_addr \<Rightarrow> memblock \<Rightarrow> (bool \<times> memblock) option"

partial_function (option) grow_loop :: "dbl \<Rightarrow> mb_sel \<Rightarrow> phys_addr \<Rightarrow> phys_addr \<Rightarrow> nat \<Rightarrow> memblock \<Rightarrow> (bool \<times> memblock) option" where
  "grow_loop dbl w base len nr_new mb =
    (if cnt (ty_of w mb) + nr_new > mt_max (ty_of w mb) then
       (case dbl w base len mb of
          None \<Rightarrow> None
        | Some (ok, mb1) \<Rightarrow> if ok then grow_loop dbl w base len nr_new mb1 else Some (False, mb1))
     else Some (True, mb))"

definition memblock_add_range :: "dbl \<Rightarrow> mb_sel \<Rightarrow> phys_addr \<Rightarrow> phys_addr \<Rightarrow> s32 \<Rightarrow> u32 \<Rightarrow> memblock \<Rightarrow> (s32 \<times> memblock) option" where
  "memblock_add_range dbl w base len nid flags mb =
    (let len1 = memblock_cap_size base len; end = base + len1; ty = ty_of w mb in
     if len1 = 0 then Some (0, mb)
     else if rgn_size (mt_regions ty ! 0) = 0 then
       Some (0, with_ty w (ty\<lparr>mt_regions := (mt_regions ty)[0 := \<lparr>rgn_base = base, rgn_size = len1, rgn_flags = flags, rgn_nid = nid\<rparr>],
         mt_total_size := len1\<rparr>) mb)
     else (case add_range_pass False ty base end nid flags of
         None \<Rightarrow> None
       | Some (_, nr_new) \<Rightarrow>
           if nr_new = 0 then Some (0, mb)
           else (case grow_loop dbl w base len1 nr_new mb of
               None \<Rightarrow> None
             | Some (False, mb1) \<Rightarrow> Some (- ENOMEM, mb1)
             | Some (True, mb1) \<Rightarrow> (case add_range_pass True (ty_of w mb1) base end nid flags of
                 None \<Rightarrow> None
               | Some (ty2, nr_new2) \<Rightarrow>
                   if nr_new2 = 0 then Some (0, with_ty w ty2 mb1)
                   else map_option (\<lambda>ty3. (0, with_ty w ty3 mb1)) (memblock_merge_regions ty2)))))"

text \<open>The return code, \<^verbatim>\<open>start_rgn\<close> and \<^verbatim>\<open>end_rgn\<close>.\<close>

definition memblock_isolate_range :: "dbl \<Rightarrow> mb_sel \<Rightarrow> phys_addr \<Rightarrow> phys_addr \<Rightarrow> memblock \<Rightarrow> (s32 \<times> nat \<times> nat \<times> memblock) option" where
  "memblock_isolate_range dbl w base len mb =
    (let len1 = memblock_cap_size base len; end = base + len1 in
     if len1 = 0 then Some (0, 0, 0, mb)
     else (case grow_loop dbl w base len1 2 mb of
         None \<Rightarrow> None
       | Some (False, mb1) \<Rightarrow> Some (- ENOMEM, 0, 0, mb1)
       | Some (True, mb1) \<Rightarrow>
           map_option (\<lambda>(ty, start_rgn, end_rgn). (0, start_rgn, end_rgn, with_ty w ty mb1))
             (isolate_loop (ty_of w mb1) 0 base end 0 0)))"

definition memblock_remove_range :: "dbl \<Rightarrow> mb_sel \<Rightarrow> phys_addr \<Rightarrow> phys_addr \<Rightarrow> memblock \<Rightarrow> (s32 \<times> memblock) option" where
  "memblock_remove_range dbl w base len mb =
    (case memblock_isolate_range dbl w base len mb of
       None \<Rightarrow> None
     | Some (ret, start_rgn, end_rgn, mb1) \<Rightarrow>
         if ret \<noteq> 0 then Some (ret, mb1)
         else Some (0, with_ty w (remove_loop (ty_of w mb1) start_rgn (end_rgn - start_rgn)) mb1))"

definition memblock_free :: "dbl \<Rightarrow> phys_addr \<Rightarrow> phys_addr \<Rightarrow> memblock \<Rightarrow> (s32 \<times> memblock) option" where
  "memblock_free dbl base len mb = memblock_remove_range dbl RESERVED base len mb"

definition memblock_reserve :: "dbl \<Rightarrow> phys_addr \<Rightarrow> phys_addr \<Rightarrow> memblock \<Rightarrow> (s32 \<times> memblock) option" where
  "memblock_reserve dbl base len mb = memblock_add_range dbl RESERVED base len MAX_NUMNODES 0 mb"

definition update_range :: "dbl \<Rightarrow> (memblock_region \<Rightarrow> memblock_region) \<Rightarrow> mb_sel \<Rightarrow> phys_addr \<Rightarrow> phys_addr \<Rightarrow> memblock \<Rightarrow> (s32 \<times> memblock) option" where
  "update_range dbl f w base len mb =
    (case memblock_isolate_range dbl w base len mb of
       None \<Rightarrow> None
     | Some (ret, start_rgn, end_rgn, mb1) \<Rightarrow>
         if ret \<noteq> 0 then Some (ret, mb1)
         else map_option (\<lambda>ty. (0, with_ty w ty mb1)) (memblock_merge_regions (update_loop f (ty_of w mb1) start_rgn end_rgn)))"

definition memblock_setclr_flag :: "dbl \<Rightarrow> phys_addr \<Rightarrow> phys_addr \<Rightarrow> bool \<Rightarrow> u32 \<Rightarrow> memblock \<Rightarrow> (s32 \<times> memblock) option" where
  "memblock_setclr_flag dbl base len do_set flag mb =
    update_range dbl (\<lambda>r. r\<lparr>rgn_flags := (if do_set then rgn_flags r OR flag else rgn_flags r AND NOT flag)\<rparr>) MEMORY base len mb"

definition memblock_set_node :: "dbl \<Rightarrow> phys_addr \<Rightarrow> phys_addr \<Rightarrow> mb_sel \<Rightarrow> s32 \<Rightarrow> memblock \<Rightarrow> (s32 \<times> memblock) option" where
  "memblock_set_node dbl base len w nid mb = update_range dbl (\<lambda>r. r\<lparr>rgn_nid := nid\<rparr>) w base len mb"

section \<open>Doubling an array\<close>

definition PAGE_ALIGN :: "phys_addr \<Rightarrow> phys_addr" where
  "PAGE_ALIGN x = (x + (PAGE_SIZE - 1)) AND NOT (PAGE_SIZE - 1)"

abbreviation (input) sizeof_region :: phys_addr where "sizeof_region \<equiv> 24"

definition array_size :: "memblock_type \<Rightarrow> phys_addr" where
  "array_size ty = of_nat (mt_max ty) * sizeof_region"

text \<open>
  \<open>kmalloc\<close> is the physical address of the block the slab allocator returns for a size, 0 if there is
  none. The new entries are zeroed and not part of the regions in use.
\<close>

definition double_find :: "(phys_addr \<Rightarrow> phys_addr) \<Rightarrow> mb_sel \<Rightarrow> phys_addr \<Rightarrow> phys_addr \<Rightarrow> memblock \<Rightarrow> phys_addr option" where
  "double_find kmalloc w new_area_start new_area_size mb =
    (let new_size = push_bit 1 (array_size (ty_of w mb));
         new_alloc_size = PAGE_ALIGN new_size;
         area_start = (if w \<noteq> RESERVED then 0 else new_area_start);
         area_size = (if w \<noteq> RESERVED then 0 else new_area_size)
     in if mb_slab mb then Some (kmalloc new_size)
        else (case memblock_find_in_range mb (area_start + area_size) (mb_current_limit mb) new_alloc_size PAGE_SIZE of
            None \<Rightarrow> None
          | Some addr \<Rightarrow>
              if addr = 0 \<and> area_size \<noteq> 0
              then memblock_find_in_range mb 0 (min area_start (mb_current_limit mb)) new_alloc_size PAGE_SIZE
              else Some addr))"

definition memblock_double_array :: "(phys_addr \<Rightarrow> phys_addr) \<Rightarrow> dbl \<Rightarrow> dbl" where
  "memblock_double_array kmalloc dbl w new_area_start new_area_size mb =
    (if \<not> mb_can_resize mb then Some (False, mb)
     else case double_find kmalloc w new_area_start new_area_size mb of
       None \<Rightarrow> None
     | Some addr \<Rightarrow>
       if addr = 0 then Some (False, mb)
       else
         let ty = ty_of w mb;
             old_alloc_size = PAGE_ALIGN (array_size ty);
             new_alloc_size = PAGE_ALIGN (push_bit 1 (array_size ty));
             mb1 = with_ty w (ty\<lparr>mt_array := Some addr, mt_max := 2 * mt_max ty\<rparr>) mb
         in case (if mt_in_slab ty then Some (0, mb1)
                  else case mt_array ty of
                    None \<Rightarrow> Some (0, mb1)
                  | Some old \<Rightarrow> memblock_free dbl old old_alloc_size mb1) of
              None \<Rightarrow> None
            | Some (_, mb2) \<Rightarrow>
                case (if mb_slab mb then Some (0, mb2) else memblock_reserve dbl addr new_alloc_size mb2) of
                  None \<Rightarrow> None
                | Some (ret, mb3) \<Rightarrow>
                    if ret \<noteq> 0 then None
                    else Some (True, with_ty w ((ty_of w mb3)\<lparr>mt_in_slab := mb_slab mb\<rparr>) mb3))"

text \<open>The recursion is cut after \<open>n\<close> levels.\<close>

primrec double_array :: "(phys_addr \<Rightarrow> phys_addr) \<Rightarrow> nat \<Rightarrow> dbl" where
  "double_array kmalloc 0 = (\<lambda>w new_area_start new_area_size mb. None)"
| "double_array kmalloc (Suc n) = memblock_double_array kmalloc (double_array kmalloc n)"

section \<open>What the operations keep\<close>

text \<open>The pages of an array that was taken from the allocator itself.\<close>

definition own_pages :: "memblock_type \<Rightarrow> phys_addr \<Rightarrow> bool" where
  "own_pages ty x \<longleftrightarrow> (case mt_array ty of None \<Rightarrow> False | Some a \<Rightarrow> a \<le> x \<and> x - a < PAGE_ALIGN (array_size ty))"

text \<open>The allocator before the slab allocator takes over.\<close>

definition mb_ok :: "memblock \<Rightarrow> bool" where
  "mb_ok mb \<longleftrightarrow> ty_ok (mb_memory mb) \<and> ty_ok (mb_reserved mb) \<and> 4 \<le> mt_max (mb_memory mb) \<and> 4 \<le> mt_max (mb_reserved mb) \<and>
    \<not> mt_in_slab (mb_memory mb) \<and> \<not> mt_in_slab (mb_reserved mb) \<and> \<not> mb_slab mb"

lemma own_pages_cong: "mt_array ty' = mt_array ty \<Longrightarrow> mt_max ty' = mt_max ty \<Longrightarrow> own_pages ty' = own_pages ty"
  by (intro ext) (simp add: own_pages_def array_size_def split: option.splits)

abbreviation memory_at :: "memblock \<Rightarrow> phys_addr \<Rightarrow> (u32 \<times> s32) option" where
  "memory_at mb \<equiv> attr_at (mt_regions (mb_memory mb))"

abbreviation reserved_at :: "memblock \<Rightarrow> phys_addr \<Rightarrow> (u32 \<times> s32) option" where
  "reserved_at mb \<equiv> attr_at (mt_regions (mb_reserved mb))"

definition same_config :: "memblock \<Rightarrow> memblock \<Rightarrow> bool" where
  "same_config mb mb' \<longleftrightarrow> mb_bottom_up mb' = mb_bottom_up mb \<and> mb_current_limit mb' = mb_current_limit mb \<and>
    mb_can_resize mb' = mb_can_resize mb \<and> mb_has_mirror mb' = mb_has_mirror mb \<and> mb_slab mb' = mb_slab mb \<and>
    mb_movable_node mb' = mb_movable_node mb"

lemma same_config_simps [simp]:
  "same_config mb mb" "same_config mb (with_ty w ty mb') = same_config mb mb'"
  by (cases w; simp add: same_config_def)+

lemma same_config_trans: "same_config mb mb1 \<Longrightarrow> same_config mb1 mb2 \<Longrightarrow> same_config mb mb2"
  by (simp add: same_config_def)

text \<open>
  A step that works on the reserved array: the memory array does not change, nothing loses its
  reservation but the addresses in \<open>P\<close> and the pages of the array itself, and an array only moves to
  pages that were not reserved.
\<close>

definition res_step :: "(phys_addr \<Rightarrow> bool) \<Rightarrow> memblock \<Rightarrow> memblock \<Rightarrow> bool" where
  "res_step P mb mb' \<longleftrightarrow> mb_ok mb' \<and> same_config mb mb' \<and> mb_memory mb' = mb_memory mb \<and>
    (\<forall>x. \<not> P x \<longrightarrow> \<not> own_pages (mb_reserved mb) x \<longrightarrow> reserved_at mb x \<noteq> None \<longrightarrow> reserved_at mb' x = reserved_at mb x) \<and>
    (\<forall>x. own_pages (mb_reserved mb') x \<longrightarrow> P x \<or> own_pages (mb_reserved mb) x \<or> reserved_at mb x = None)"

lemma res_stepI:
  assumes "mb_ok mb'" "same_config mb mb'" "mb_memory mb' = mb_memory mb"
    and "\<And>x. \<not> P x \<Longrightarrow> \<not> own_pages (mb_reserved mb) x \<Longrightarrow> reserved_at mb x \<noteq> None \<Longrightarrow> reserved_at mb' x = reserved_at mb x"
    and "\<And>x. own_pages (mb_reserved mb') x \<Longrightarrow> P x \<or> own_pages (mb_reserved mb) x \<or> reserved_at mb x = None"
  shows "res_step P mb mb'"
  unfolding res_step_def using assms by blast

lemma res_stepD:
  assumes "res_step P mb mb'"
  shows "mb_ok mb'" "same_config mb mb'" "mb_memory mb' = mb_memory mb"
    and "\<not> P x \<Longrightarrow> \<not> own_pages (mb_reserved mb) x \<Longrightarrow> reserved_at mb x \<noteq> None \<Longrightarrow> reserved_at mb' x = reserved_at mb x"
    and "own_pages (mb_reserved mb') x \<Longrightarrow> P x \<or> own_pages (mb_reserved mb) x \<or> reserved_at mb x = None"
  using assms by (simp_all add: res_step_def)

lemma res_step_refl: "mb_ok mb \<Longrightarrow> res_step P mb mb"
  by (rule res_stepI) simp_all

lemma res_step_mono:
  assumes "res_step P mb mb'" and "\<And>x. P x \<Longrightarrow> Q x"
  shows "res_step Q mb mb'"
proof (rule res_stepI)
  fix x
  show "own_pages (mb_reserved mb') x \<Longrightarrow> Q x \<or> own_pages (mb_reserved mb) x \<or> reserved_at mb x = None"
    using res_stepD(5) [OF assms(1), of x] assms(2) [of x] by metis
  show "\<not> Q x \<Longrightarrow> \<not> own_pages (mb_reserved mb) x \<Longrightarrow> reserved_at mb x \<noteq> None \<Longrightarrow> reserved_at mb' x = reserved_at mb x"
    using res_stepD(4) [OF assms(1), of x] assms(2) [of x] by metis
qed (use res_stepD(1-3) [OF assms(1)] in simp_all)

lemma res_step_trans:
  assumes "res_step P mb mb1" "res_step P mb1 mb2"
  shows "res_step P mb mb2"
proof (rule res_stepI)
  show "mb_ok mb2" "mb_memory mb2 = mb_memory mb" using res_stepD(1,3) assms by auto
  show "same_config mb mb2" using res_stepD(2) [OF assms(1)] res_stepD(2) [OF assms(2)] by (rule same_config_trans)
next
  fix x assume x: "\<not> P x" "\<not> own_pages (mb_reserved mb) x" "reserved_at mb x \<noteq> None"
  have "\<not> own_pages (mb_reserved mb1) x" using res_stepD(5) [OF assms(1), of x] x by auto
  then show "reserved_at mb2 x = reserved_at mb x" using res_stepD(4) [OF assms(2) x(1)] res_stepD(4) [OF assms(1) x] x(3) by metis
next
  fix x assume "own_pages (mb_reserved mb2) x"
  then show "P x \<or> own_pages (mb_reserved mb) x \<or> reserved_at mb x = None"
    using res_stepD(5) [OF assms(2), of x] res_stepD(5) [OF assms(1), of x] res_stepD(4) [OF assms(1), of x]
    by metis
qed

lemmas res_step_ok = res_stepD(1)

text \<open>The range a call works on, with the size cut so that it does not wrap around.\<close>

definition in_range :: "phys_addr \<Rightarrow> phys_addr \<Rightarrow> phys_addr \<Rightarrow> bool" where
  "in_range base len x \<longleftrightarrow> base \<le> x \<and> x < base + memblock_cap_size base len"

lemma cap_size_uint: "uint (base + memblock_cap_size base len) = uint base + uint (memblock_cap_size base len)"
proof -
  have "uint (memblock_cap_size base len) \<le> uint (- 1 - base)" by (simp add: memblock_cap_size_def word_le_def [symmetric])
  moreover have "uint (- 1 - base) = uint (- 1 :: u64) - uint base" by (rule uint_diff) simp
  moreover have "uint (- 1 :: u64) = 2 ^ 64 - 1" by (simp add: unsigned_minus_1_eq_mask mask_eq_exp_minus_1)
  ultimately have "uint base + uint (memblock_cap_size base len) < 2 ^ LENGTH(64)" by simp
  then show ?thesis by (rule iffD1 [OF uint_add_lem])
qed

lemma cap_size_end: "memblock_cap_size base len \<noteq> 0 \<Longrightarrow> base < base + memblock_cap_size base len"
proof -
  assume "memblock_cap_size base len \<noteq> 0"
  then have "uint (memblock_cap_size base len) \<noteq> 0" by (simp add: word_uint_eq_iff)
  then have "0 < uint (memblock_cap_size base len)" using uint_ge_0 [of "memblock_cap_size base len"] by linarith
  then show ?thesis unfolding word_less_def cap_size_uint by simp
qed

text \<open>Inserting into a type with room.\<close>

lemma insert_pass_full:
  assumes "mt_regions ty = pre @ rs" and "idx = length pre" and "mt_max ty < length pre + length (fill base end nid flags rs)" and "cnt ty \<le> mt_max ty"
  shows "add_range_tail True end nid flags (add_range_loop True ty idx base end nid flags nr) = None"
  using assms
proof (induction rs arbitrary: ty pre idx base nr)
  case Nil
  then show ?case by (subst add_range_loop.simps) (simp add: add_range_tail_def memblock_insert_region_def split: if_splits)
next
  case (Cons r rs)
  have r: "mt_regions ty ! idx = r" "idx < cnt ty" using Cons.prems by simp_all
  consider (stop) "end \<le> rgn_base r" | (skip) "\<not> end \<le> rgn_base r" "rgn_end r \<le> base"
    | (gap) "\<not> end \<le> rgn_base r" "\<not> rgn_end r \<le> base" "base < rgn_base r"
    | (over) "\<not> end \<le> rgn_base r" "\<not> rgn_end r \<le> base" "\<not> base < rgn_base r" by blast
  then show ?case
  proof cases
    case stop
    then show ?thesis using Cons.prems r
      by (subst add_range_loop.simps) (simp add: add_range_tail_def memblock_insert_region_def split: if_splits)
  next
    case skip
    then show ?thesis using Cons.prems r Cons.IH [of ty "pre @ [r]" "Suc idx" base nr]
      by (subst add_range_loop.simps) (simp add: Let_def)
  next
    case gap
    let ?n = "new_region base (rgn_base r) nid flags"
    show ?thesis
    proof (cases "memblock_insert_region ty idx base (rgn_base r - base) nid flags")
      case None
      then show ?thesis using gap r by (subst add_range_loop.simps) (simp add: Let_def add_range_tail_def)
    next
      case (Some ty1)
      then have "mt_regions ty1 = (pre @ [?n, r]) @ rs" "mt_max ty1 = mt_max ty" "cnt ty1 \<le> mt_max ty1"
        using Cons.prems by (auto simp: memblock_insert_region_def split: if_splits)
      then show ?thesis using Some gap r Cons.prems Cons.IH [of ty1 "pre @ [?n, r]" "idx + 2" "min (rgn_end r) end" "nr + 1"]
        by (subst add_range_loop.simps) (simp add: Let_def)
    qed
  next
    case over
    then show ?thesis using Cons.prems r Cons.IH [of ty "pre @ [r]" "Suc idx" "min (rgn_end r) end" nr]
      by (subst add_range_loop.simps) (simp add: Let_def)
  qed
qed

text \<open>Both passes on a whole type, and the map after the insertion.\<close>

lemma add_count: "add_range_pass False ty base end nid flags = Some (ty, length (fill base end nid flags (mt_regions ty)) - cnt ty)"
  using count_pass [of ty "[]" "mt_regions ty" 0 "end" nid flags base 0] by (simp add: add_range_pass_tail)

lemma add_insert:
  assumes "cnt ty \<le> mt_max ty"
  shows "add_range_pass True ty base end nid flags =
    (let rs = fill base end nid flags (mt_regions ty) in
     if length rs \<le> mt_max ty then
       Some (ty\<lparr>mt_regions := rs, mt_total_size := mt_total_size ty + (sizes rs - sizes (mt_regions ty))\<rparr>, length rs - cnt ty)
     else None)"
  using insert_pass [of ty "[]" "mt_regions ty" 0 base "end" nid flags 0] insert_pass_full [of ty "[]" "mt_regions ty" 0 base "end" nid flags 0] assms
  by (simp add: add_range_pass_tail Let_def)

definition added :: "phys_addr \<Rightarrow> phys_addr \<Rightarrow> s32 \<Rightarrow> u32 \<Rightarrow> (phys_addr \<Rightarrow> (u32 \<times> s32) option) \<Rightarrow> phys_addr \<Rightarrow> (u32 \<times> s32) option" where
  "added base len nid flags m x =
    (case m x of Some at \<Rightarrow> Some at | None \<Rightarrow> if in_range base len x then Some (flags, nid) else None)"

lemma add_merge_ok:
  assumes "ty_ok ty" and "\<not> no_regions (mt_regions ty)"
    and "add_range_pass True ty base (base + memblock_cap_size base len) nid flags = Some (ty2, nr)"
    and "memblock_cap_size base len \<noteq> 0" and "memblock_merge_regions ty2 = Some ty3"
  shows "ty_ok ty3 \<and> (\<forall>x. attr_at (mt_regions ty3) x = added base len nid flags (attr_at (mt_regions ty)) x) \<and>
    mt_max ty3 = mt_max ty \<and> mt_array ty3 = mt_array ty \<and> mt_in_slab ty3 = mt_in_slab ty \<and> successively apart (mt_regions ty3)"
proof -
  let ?rs = "fill base (base + memblock_cap_size base len) nid flags (mt_regions ty)"
  have c: "chain 0 (mt_regions ty)" "mt_regions ty \<noteq> []" using assms(1,2) by (auto simp: ty_ok_def regions_ok_def)
  have ty2: "mt_regions ty2 = ?rs" "mt_total_size ty2 = sizes ?rs" "length ?rs \<le> mt_max ty"
      "mt_max ty2 = mt_max ty" "mt_array ty2 = mt_array ty" "mt_in_slab ty2 = mt_in_slab ty"
    using assms(1,3) add_insert [of ty base "base + memblock_cap_size base len" nid flags] by (auto simp: ty_ok_def Let_def split: if_splits)
  have f: "regions_ok ?rs" "\<And>x. attr_at ?rs x = added base len nid flags (attr_at (mt_regions ty)) x"
    using fill_ok [OF c] cap_size_end [OF assms(4)] by (auto simp: added_def in_range_def)
  obtain rs where "ty3 = ty2\<lparr>mt_regions := rs\<rparr>" "regions_ok rs" "\<forall>x. attr_at rs x = attr_at ?rs x" "sizes rs = sizes ?rs"
      "length rs \<le> length ?rs" "successively apart rs"
    using merge_ok [of ty2] f(1) assms(5) ty2(1) by auto
  then show ?thesis using ty2 f by (simp add: ty_ok_def)
qed

text \<open>A range with no gap needs no new region.\<close>

lemma fill_same: "length (fill base end nid flags rs) = length rs \<Longrightarrow> fill base end nid flags rs = rs"
proof (induction base "end" nid flags rs rule: fill.induct)
  case (2 base "end" nid flags r rs)
  then show ?case using fill_longer [of rs "min (rgn_end r) end" "end" nid flags] by (auto split: if_splits)
qed (auto split: if_splits)

lemma fill_shorter: "length (fill base end nid flags rs) \<le> 2 * length rs + 1"
proof (induction base "end" nid flags rs rule: fill.induct)
  case (2 base "end" nid flags r rs)
  then show ?case by (auto split: if_splits)
qed simp

lemma ty_ok_empty: "ty_ok ty \<Longrightarrow> rgn_size (mt_regions ty ! 0) = 0 \<longleftrightarrow> no_regions (mt_regions ty)"
proof -
  assume ok: "ty_ok ty"
  have "rgn_size (mt_regions ty ! 0) \<noteq> 0" if c: "chain 0 (mt_regions ty)" "mt_regions ty \<noteq> []"
    using c by (cases "mt_regions ty") (auto simp: rgn_end_def)
  then show ?thesis using ok by (auto simp: ty_ok_def regions_ok_def elim: no_regionsE)
qed

lemma add_empty_ok:
  assumes "ty_ok ty" "no_regions (mt_regions ty)" "memblock_cap_size base len \<noteq> 0"
    and ty'_def: "ty' = ty\<lparr>mt_regions := (mt_regions ty)[0 := \<lparr>rgn_base = base, rgn_size = memblock_cap_size base len, rgn_flags = flags, rgn_nid = nid\<rparr>],
    mt_total_size := memblock_cap_size base len\<rparr>"
  shows "ty_ok ty' \<and> (\<forall>x. attr_at (mt_regions ty') x = added base len nid flags (attr_at (mt_regions ty)) x)"
proof -
  from assms(2) obtain r where r: "mt_regions ty = [r]" "rgn_end r = 0" by (rule no_regionsE)
  then show ?thesis using assms(1) cap_size_end [OF assms(3)] no_regions_attr [OF assms(2)]
    by (auto simp: ty'_def ty_ok_def regions_ok_def rgn_end_def added_def in_range_def)
qed

lemma added_same: "(\<And>x. in_range base len x \<Longrightarrow> m x \<noteq> None) \<Longrightarrow> added base len nid flags m = m"
  by (rule ext) (force simp: added_def split: option.splits)

lemma in_range_empty: "memblock_cap_size base len = 0 \<Longrightarrow> \<not> in_range base len x"
  by (auto simp: in_range_def)

lemma add_no_gap:
  assumes "ty_ok ty" "\<not> no_regions (mt_regions ty)" "memblock_cap_size base len \<noteq> 0"
    and "length (fill base (base + memblock_cap_size base len) nid flags (mt_regions ty)) \<le> cnt ty" and "in_range base len x"
  shows "attr_at (mt_regions ty) x \<noteq> None"
proof -
  have c: "chain 0 (mt_regions ty)" "mt_regions ty \<noteq> []" using assms(1,2) by (auto simp: ty_ok_def regions_ok_def)
  let ?f = "fill base (base + memblock_cap_size base len) nid flags (mt_regions ty)"
  have "?f = mt_regions ty" using assms(4) fill_longer [of "mt_regions ty" base "base + memblock_cap_size base len" nid flags]
    by (intro fill_same) simp
  then show ?thesis
    using fill_ok(2) [OF c, of base "base + memblock_cap_size base len" nid flags x] assms(5) by (auto simp: in_range_def split: option.splits)
qed

lemma add_second_pass:
  assumes "ty_ok ty" "\<not> no_regions (mt_regions ty)" "memblock_cap_size base len \<noteq> 0"
    and "add_range_pass True ty base (base + memblock_cap_size base len) nid flags = Some (ty2, nr2)"
    and "if nr2 = 0 then ty3 = ty2 else memblock_merge_regions ty2 = Some ty3"
  shows "ty_ok ty3 \<and> (\<forall>x. attr_at (mt_regions ty3) x = added base len nid flags (attr_at (mt_regions ty)) x) \<and>
    mt_max ty3 = mt_max ty \<and> mt_array ty3 = mt_array ty \<and> mt_in_slab ty3 = mt_in_slab ty"
proof (cases "nr2 = 0")
  case False
  then show ?thesis using add_merge_ok [OF assms(1,2,4,3)] assms(5) by auto
next
  case True
  let ?f = "fill base (base + memblock_cap_size base len) nid flags (mt_regions ty)"
  have len: "length ?f \<le> cnt ty" and ty2: "ty2 = ty\<lparr>mt_regions := ?f, mt_total_size := mt_total_size ty + (sizes ?f - sizes (mt_regions ty))\<rparr>"
    using assms(1,4) True by (auto simp: ty_ok_def add_insert Let_def split: if_splits)
  have f: "?f = mt_regions ty" using len fill_longer [of "mt_regions ty"] by (intro fill_same) (simp add: le_antisym)
  have "ty3 = ty" using ty2 assms(5) True unfolding f by simp
  then show ?thesis using assms(1) added_same [OF add_no_gap [OF assms(1-3) len]] by simp
qed

text \<open>A step that gives one type a new map, in the array it has.\<close>

definition sets_map :: "mb_sel \<Rightarrow> (phys_addr \<Rightarrow> (u32 \<times> s32) option) \<Rightarrow> memblock \<Rightarrow> memblock \<Rightarrow> bool" where
  "sets_map w m mb mb' \<longleftrightarrow> (\<exists>ty. mb' = with_ty w ty mb \<and> ty_ok ty \<and> (\<forall>x. attr_at (mt_regions ty) x = m x) \<and>
    mt_max ty = mt_max (ty_of w mb) \<and> mt_array ty = mt_array (ty_of w mb) \<and> mt_in_slab ty = mt_in_slab (ty_of w mb))"

abbreviation map_of_ty :: "mb_sel \<Rightarrow> memblock \<Rightarrow> phys_addr \<Rightarrow> (u32 \<times> s32) option" where
  "map_of_ty w mb \<equiv> attr_at (mt_regions (ty_of w mb))"

abbreviation adds :: "mb_sel \<Rightarrow> phys_addr \<Rightarrow> phys_addr \<Rightarrow> s32 \<Rightarrow> u32 \<Rightarrow> memblock \<Rightarrow> memblock \<Rightarrow> bool" where
  "adds w base len nid flags mb mb' \<equiv> sets_map w (added base len nid flags (map_of_ty w mb)) mb mb'"

lemma with_ty_same [simp]: "with_ty w (ty_of w mb) mb = mb"
  by (cases w) simp_all

lemma adds_same:
  assumes "ty_ok (ty_of w mb)" "\<And>x. in_range base len x \<Longrightarrow> attr_at (mt_regions (ty_of w mb)) x \<noteq> None"
  shows "adds w base len nid flags mb mb"
  unfolding sets_map_def by (rule exI [of _ "ty_of w mb"]) (use assms(1) added_same [OF assms(2)] in simp)

text \<open>
  What an addition does, from the state in which the array has enough room: the initial one, or the one
  the array was grown in.
\<close>

lemma add_range_result:
  assumes "memblock_add_range dbl w base len nid flags mb = Some (ret, mb')" and "ty_ok (ty_of w mb)"
  obtains (direct) "ret = 0" "adds w base len nid flags mb mb'"
    | (grown) mb1 nr where "grow_loop dbl w base (memblock_cap_size base len) nr mb = Some (True, mb1)" "ret = 0"
        "ty_ok (ty_of w mb1) \<Longrightarrow> \<not> no_regions (mt_regions (ty_of w mb1)) \<Longrightarrow> adds w base len nid flags mb1 mb'"
        "\<not> no_regions (mt_regions (ty_of w mb))" "nr \<le> cnt (ty_of w mb) + 1"
    | (failed) nr where "grow_loop dbl w base (memblock_cap_size base len) nr mb = Some (False, mb')" "ret = - ENOMEM"
        "nr \<le> cnt (ty_of w mb) + 1"
proof -
  let ?l = "memblock_cap_size base len"
  show ?thesis
  proof (cases "?l = 0")
    case True
    then show ?thesis using assms adds_same [OF assms(2), of base len nid flags] in_range_empty [OF True]
      by (intro direct) (auto simp: memblock_add_range_def)
  next
    case l: False
    show ?thesis
    proof (cases "no_regions (mt_regions (ty_of w mb))")
      case True
      then show ?thesis using assms l ty_ok_empty [OF assms(2)] add_empty_ok [OF assms(2) True l refl, of flags nid]
        by (intro direct) (auto simp: memblock_add_range_def sets_map_def Let_def)
    next
      case ne: False
      let ?nr = "length (fill base (base + ?l) nid flags (mt_regions (ty_of w mb))) - cnt (ty_of w mb)"
      have le: "?nr \<le> cnt (ty_of w mb) + 1" using fill_shorter [of base "base + ?l" nid flags "mt_regions (ty_of w mb)"] by simp
      show ?thesis
      proof (cases "?nr = 0")
        case True
        then show ?thesis using assms l ne ty_ok_empty [OF assms(2)] adds_same [OF assms(2) add_no_gap [OF assms(2) ne l]]
          by (intro direct) (auto simp: memblock_add_range_def add_count Let_def)
      next
        case nr: False
        then obtain ok mb1 where g: "grow_loop dbl w base ?l ?nr mb = Some (ok, mb1)"
          using assms l ne ty_ok_empty [OF assms(2)] by (auto simp: memblock_add_range_def add_count Let_def split: option.splits)
        show ?thesis
        proof (cases ok)
          case False
          then show ?thesis using g nr le assms l ne ty_ok_empty [OF assms(2)]
            by (intro failed [of ?nr]) (auto simp: memblock_add_range_def add_count Let_def)
        next
          case True
          then obtain ty2 nr2 ty3 where p: "add_range_pass True (ty_of w mb1) base (base + ?l) nid flags = Some (ty2, nr2)"
              "if nr2 = 0 then ty3 = ty2 else memblock_merge_regions ty2 = Some ty3" "ret = 0" "mb' = with_ty w ty3 mb1"
            using g nr assms l ne ty_ok_empty [OF assms(2)]
            by (auto simp: memblock_add_range_def add_count Let_def split: option.splits if_splits)
          have "adds w base len nid flags mb1 mb'" if "ty_ok (ty_of w mb1)" "\<not> no_regions (mt_regions (ty_of w mb1))"
            unfolding sets_map_def p(4) using add_second_pass [OF that l p(1,2)] by blast
          then show ?thesis using g True p(3) ne le by (intro grown [of ?nr mb1]) auto
        qed
      qed
    qed
  qed
qed

declare grow_loop.simps [code]

lemma grow_enough: "cnt (ty_of w mb) + nr \<le> mt_max (ty_of w mb) \<Longrightarrow> grow_loop dbl w base len nr mb = Some (True, mb)"
  by (subst grow_loop.simps) simp

text \<open>Induction over the rounds of a loop that returns.\<close>

lemma grow_induct [consumes 1, case_names enough failed again]:
  assumes "grow_loop dbl w base len nr mb = Some r"
    and "\<And>mb. cnt (ty_of w mb) + nr \<le> mt_max (ty_of w mb) \<Longrightarrow> P mb (True, mb)"
    and "\<And>mb mb1. mt_max (ty_of w mb) < cnt (ty_of w mb) + nr \<Longrightarrow> dbl w base len mb = Some (False, mb1) \<Longrightarrow> P mb (False, mb1)"
    and "\<And>mb mb1 r. mt_max (ty_of w mb) < cnt (ty_of w mb) + nr \<Longrightarrow> dbl w base len mb = Some (True, mb1) \<Longrightarrow> P mb1 r \<Longrightarrow> P mb r"
  shows "P mb r"
  using assms
proof (induction rule: grow_loop.raw_induct [rotated 1, consumes 1])
  case (1 f dbl w base len nr mb r)
  show ?case
  proof (cases "cnt (ty_of w mb) + nr > mt_max (ty_of w mb)")
    case False
    then show ?thesis using 1(2,3) by auto
  next
    case True
    then obtain ok mb1 where d: "dbl w base len mb = Some (ok, mb1)" using 1(2) by (auto split: option.splits)
    show ?thesis
    proof (cases ok)
      case ok: True
      then have "f dbl w base len nr mb1 = Some r" using 1(2) True d by simp
      from 1(1) [OF this 1(3-5)] have "P mb1 r" .
      then show ?thesis using 1(5) [of mb mb1 r] True d ok by simp
    next
      case False
      then show ?thesis using 1(2,4) True d by auto
    qed
  qed
qed

lemma grow_room: "grow_loop dbl w base len nr mb = Some r \<Longrightarrow> fst r \<Longrightarrow> cnt (ty_of w (snd r)) + nr \<le> mt_max (ty_of w (snd r))"
  by (induction rule: grow_induct) auto

definition removed :: "phys_addr \<Rightarrow> phys_addr \<Rightarrow> (phys_addr \<Rightarrow> (u32 \<times> s32) option) \<Rightarrow> phys_addr \<Rightarrow> (u32 \<times> s32) option" where
  "removed base len m x = (if in_range base len x then None else m x)"

definition modified :: "phys_addr \<Rightarrow> phys_addr \<Rightarrow> (u32 \<times> s32 \<Rightarrow> u32 \<times> s32) \<Rightarrow> (phys_addr \<Rightarrow> (u32 \<times> s32) option) \<Rightarrow> phys_addr \<Rightarrow> (u32 \<times> s32) option" where
  "modified base len g m x = (if in_range base len x then map_option g (m x) else m x)"

text \<open>The two ways an isolated range is used, on a type with room.\<close>

lemma remove_isolated:
  assumes "ty_ok ty" and "memblock_cap_size base len \<noteq> 0" and "cnt ty + 2 \<le> mt_max ty"
  obtains ty1 st en where "isolate_loop ty 0 base (base + memblock_cap_size base len) 0 0 = Some (ty1, st, en)"
    "ty_ok (remove_loop ty1 st (en - st))" "\<And>x. attr_at (mt_regions (remove_loop ty1 st (en - st))) x = removed base len (attr_at (mt_regions ty)) x"
    "mt_max (remove_loop ty1 st (en - st)) = mt_max ty" "mt_array (remove_loop ty1 st (en - st)) = mt_array ty"
    "mt_in_slab (remove_loop ty1 st (en - st)) = mt_in_slab ty" "cnt (remove_loop ty1 st (en - st)) \<le> cnt ty + 2"
proof -
  let ?e = "base + memblock_cap_size base len"
  have ok: "regions_ok (mt_regions ty)" and lt: "base < ?e" using assms cap_size_end by (auto simp: ty_ok_def)
  obtain b i a where p: "iso base ?e (mt_regions ty) = (b, i, a)" by (metis prod_cases3)
  note at = iso_attr [OF ok lt p] and len = iso_length [OF p]
  let ?ty1 = "ty\<lparr>mt_regions := b @ i @ a\<rparr>"
  have iso: "isolate_loop ty 0 base ?e 0 0 = Some (?ty1, if i \<noteq> [] then length b else 0, if i = [] then 0 else length b + length i)"
    by (rule isolate_ok [OF ok lt p assms(3)])
  have rm: "attr_at (b @ a) x = removed base len (attr_at (mt_regions ty)) x" for x
    using at(4) by (simp add: removed_def in_range_def)
  show ?thesis
  proof (cases "i = []")
    case True
    then show ?thesis using at assms rm len by (intro that [OF iso]) (auto simp: ty_ok_def)
  next
    case False
    have rl: "remove_loop ?ty1 (length b) (length i) =
        ?ty1\<lparr>mt_total_size := mt_total_size ty - sizes i, mt_regions := (if b @ a = [] then [empty_region] else b @ a)\<rparr>"
      using remove_loop_parts [of ?ty1 b i a] False by simp
    have "regions_ok (if b @ a = [] then [empty_region] else b @ a)"
      using at(6) no_regions_empty by (auto simp: regions_ok_def)
    moreover have "mt_total_size ty - sizes i = sizes (if b @ a = [] then [empty_region] else b @ a)"
      using at(2) assms(1) by (auto simp: ty_ok_def empty_region_def algebra_simps)
    moreover have "attr_at (if b @ a = [] then [empty_region] else b @ a) x = removed base len (attr_at (mt_regions ty)) x" for x
      using rm [of x] no_regions_attr [OF no_regions_empty, of x] by (cases "b @ a = []") auto
    ultimately show ?thesis using False len assms(3) by (intro that [OF iso]) (simp_all add: rl ty_ok_def)
  qed
qed

lemma update_isolated:
  assumes "ty_ok ty" and "memblock_cap_size base len \<noteq> 0" and "cnt ty + 2 \<le> mt_max ty"
    and f: "\<And>r. rgn_base (f r) = rgn_base r \<and> rgn_size (f r) = rgn_size r \<and> (rgn_flags (f r), rgn_nid (f r)) = g (rgn_flags r, rgn_nid r)"
  obtains ty1 st en ty2 where "isolate_loop ty 0 base (base + memblock_cap_size base len) 0 0 = Some (ty1, st, en)"
    "memblock_merge_regions (update_loop f ty1 st en) = Some ty2"
    "ty_ok ty2" "\<And>x. attr_at (mt_regions ty2) x = modified base len g (attr_at (mt_regions ty)) x"
    "mt_max ty2 = mt_max ty" "mt_array ty2 = mt_array ty" "mt_in_slab ty2 = mt_in_slab ty"
proof -
  let ?e = "base + memblock_cap_size base len"
  have ok: "regions_ok (mt_regions ty)" and lt: "base < ?e" using assms cap_size_end by (auto simp: ty_ok_def)
  obtain b i a where p: "iso base ?e (mt_regions ty) = (b, i, a)" by (metis prod_cases3)
  note at = iso_attr [OF ok lt p] and len = iso_length [OF p]
  let ?ty1 = "ty\<lparr>mt_regions := b @ i @ a\<rparr>" and ?st = "if i \<noteq> [] then length b else 0" and ?en = "if i = [] then 0 else length b + length i"
  have iso: "isolate_loop ty 0 base ?e 0 0 = Some (?ty1, ?st, ?en)" by (rule isolate_ok [OF ok lt p assms(3)])
  have fe: "rgn_base (f r) = rgn_base r \<and> rgn_end (f r) = rgn_end r" for r using f [of r] by (simp add: rgn_end_def)
  have up: "update_loop f ?ty1 ?st ?en = ?ty1\<lparr>mt_regions := b @ map f i @ a\<rparr>"
    using update_loop_parts [of f b i a] by (cases "i = []") (simp_all add: update_loop_def)
  have "no_regions (b @ i @ a) \<Longrightarrow> no_regions (b @ map f i @ a)" using f by (simp add: no_regions_def o_def)
  moreover have "chain 0 (b @ i @ a) \<Longrightarrow> chain 0 (b @ map f i @ a)" using chain_map [of f] fe by simp
  ultimately have ok2: "regions_ok (b @ map f i @ a)" using at(1) by (auto simp: regions_ok_def)
  have sz: "sizes (b @ map f i @ a) = mt_total_size ty" using at(2) assms(1) f by (simp add: ty_ok_def sizes_def o_def algebra_simps)
  have am: "attr_at (b @ map f i @ a) x = modified base len g (attr_at (mt_regions ty)) x" for x
  proof -
    have "attr_at (map f i) x = map_option g (attr_at i x)" using f fe by (intro attr_at_map) auto
    then show ?thesis using at(3,4) [of x] by (auto simp: attr_at_append modified_def in_range_def split: option.splits if_splits)
  qed
  from merge_ok [of "?ty1\<lparr>mt_regions := b @ map f i @ a\<rparr>"] ok2 obtain rs where
    "memblock_merge_regions (?ty1\<lparr>mt_regions := b @ map f i @ a\<rparr>) = Some (?ty1\<lparr>mt_regions := rs\<rparr>)" "regions_ok rs"
    "\<And>x. attr_at rs x = attr_at (b @ map f i @ a) x" "sizes rs = sizes (b @ map f i @ a)" "length rs \<le> length (b @ map f i @ a)" by auto
  then show ?thesis using assms(3) len up am sz by (intro that [OF iso, of "?ty1\<lparr>mt_regions := rs\<rparr>"]) (simp_all add: ty_ok_def)
qed

lemma remove_range_result:
  assumes "memblock_remove_range dbl w base len mb = Some (ret, mb')" and "ty_ok (ty_of w mb)"
  obtains (direct) "ret = 0" "mb' = mb" "memblock_cap_size base len = 0"
    | (grown) mb1 where "grow_loop dbl w base (memblock_cap_size base len) 2 mb = Some (True, mb1)" "ret = 0"
        "ty_ok (ty_of w mb1) \<Longrightarrow> sets_map w (removed base len (map_of_ty w mb1)) mb1 mb'"
    | (failed) "grow_loop dbl w base (memblock_cap_size base len) 2 mb = Some (False, mb')" "ret = - ENOMEM"
proof (cases "memblock_cap_size base len = 0")
  case True
  have "remove_loop (ty_of w mb) 0 0 = ty_of w mb" by simp
  then show ?thesis using assms True by (intro direct) (auto simp: memblock_remove_range_def memblock_isolate_range_def)
next
  case l: False
  then obtain ok mb1 where g: "grow_loop dbl w base (memblock_cap_size base len) 2 mb = Some (ok, mb1)"
    using assms(1) by (auto simp: memblock_remove_range_def memblock_isolate_range_def Let_def split: option.splits)
  show ?thesis
  proof (cases ok)
    case False
    then show ?thesis using assms(1) l g by (intro failed) (auto simp: memblock_remove_range_def memblock_isolate_range_def Let_def)
  next
    case True
    have room: "cnt (ty_of w mb1) + 2 \<le> mt_max (ty_of w mb1)" using grow_room [OF g] True by simp
    have ret: "ret = 0" using assms(1) l g True
      by (auto simp: memblock_remove_range_def memblock_isolate_range_def Let_def split: option.splits)
    have "sets_map w (removed base len (map_of_ty w mb1)) mb1 mb'" if ok1: "ty_ok (ty_of w mb1)"
    proof -
      obtain ty1 st en where i: "isolate_loop (ty_of w mb1) 0 base (base + memblock_cap_size base len) 0 0 = Some (ty1, st, en)"
        and r: "ty_ok (remove_loop ty1 st (en - st))" "\<And>x. attr_at (mt_regions (remove_loop ty1 st (en - st))) x = removed base len (map_of_ty w mb1) x"
          "mt_max (remove_loop ty1 st (en - st)) = mt_max (ty_of w mb1)" "mt_array (remove_loop ty1 st (en - st)) = mt_array (ty_of w mb1)"
          "mt_in_slab (remove_loop ty1 st (en - st)) = mt_in_slab (ty_of w mb1)"
        by (rule remove_isolated [OF ok1 l room]) (rule that)
      have "mb' = with_ty w (remove_loop ty1 st (en - st)) mb1" using assms(1) l g True i
        by (cases w) (auto simp: memblock_remove_range_def memblock_isolate_range_def Let_def)
      then show ?thesis unfolding sets_map_def using r by blast
    qed
    then show ?thesis using g True ret by (intro grown) auto
  qed
qed

lemma update_range_result:
  assumes "update_range dbl f w base len mb = Some (ret, mb')" and "ty_ok (ty_of w mb)"
    and f: "\<And>r. rgn_base (f r) = rgn_base r \<and> rgn_size (f r) = rgn_size r \<and> (rgn_flags (f r), rgn_nid (f r)) = g (rgn_flags r, rgn_nid r)"
  obtains (direct) "ret = 0" "sets_map w (modified base len g (map_of_ty w mb)) mb mb'"
    | (grown) mb1 where "grow_loop dbl w base (memblock_cap_size base len) 2 mb = Some (True, mb1)" "ret = 0"
        "ty_ok (ty_of w mb1) \<Longrightarrow> sets_map w (modified base len g (map_of_ty w mb1)) mb1 mb'"
    | (failed) "grow_loop dbl w base (memblock_cap_size base len) 2 mb = Some (False, mb')" "ret = - ENOMEM"
proof (cases "memblock_cap_size base len = 0")
  case True
  have id: "modified base len g m = m" for m using in_range_empty [OF True] by (intro ext) (simp add: modified_def)
  obtain rs where "memblock_merge_regions (ty_of w mb) = Some ((ty_of w mb)\<lparr>mt_regions := rs\<rparr>)" "regions_ok rs"
      "\<forall>x. attr_at rs x = map_of_ty w mb x" "sizes rs = sizes (mt_regions (ty_of w mb))" "length rs \<le> cnt (ty_of w mb)"
    using merge_ok [of "ty_of w mb"] assms(2) by (auto simp: ty_ok_def)
  moreover have "update_loop f ty 0 0 = ty" for ty by (simp add: update_loop_def)
  ultimately show ?thesis using assms(1,2) True unfolding id [symmetric]
    by (intro direct) (auto simp: update_range_def memblock_isolate_range_def sets_map_def id ty_ok_def)
next
  case l: False
  then obtain ok mb1 where g: "grow_loop dbl w base (memblock_cap_size base len) 2 mb = Some (ok, mb1)"
    using assms(1) by (auto simp: update_range_def memblock_isolate_range_def Let_def split: option.splits)
  show ?thesis
  proof (cases ok)
    case False
    then show ?thesis using assms(1) l g by (intro failed) (auto simp: update_range_def memblock_isolate_range_def Let_def)
  next
    case True
    have room: "cnt (ty_of w mb1) + 2 \<le> mt_max (ty_of w mb1)" using grow_room [OF g] True by simp
    have ret: "ret = 0" using assms(1) l g True
      by (auto simp: update_range_def memblock_isolate_range_def Let_def split: option.splits)
    have "sets_map w (modified base len g (map_of_ty w mb1)) mb1 mb'" if ok1: "ty_ok (ty_of w mb1)"
    proof -
      obtain ty1 st en ty2 where i: "isolate_loop (ty_of w mb1) 0 base (base + memblock_cap_size base len) 0 0 = Some (ty1, st, en)"
          "memblock_merge_regions (update_loop f ty1 st en) = Some ty2"
        and r: "ty_ok ty2" "\<And>x. attr_at (mt_regions ty2) x = modified base len g (map_of_ty w mb1) x"
          "mt_max ty2 = mt_max (ty_of w mb1)" "mt_array ty2 = mt_array (ty_of w mb1)" "mt_in_slab ty2 = mt_in_slab (ty_of w mb1)"
        using update_isolated [OF ok1 l room f] by blast
      have "mb' = with_ty w ty2 mb1" using assms(1) l g True i
        by (cases w) (auto simp: update_range_def memblock_isolate_range_def Let_def)
      then show ?thesis unfolding sets_map_def using r by blast
    qed
    then show ?thesis using g True ret by (intro grown) auto
  qed
qed

lemma mb_ok_ty: "mb_ok mb \<Longrightarrow> ty_ok (ty_of w mb)"
  by (cases w) (simp_all add: mb_ok_def)

lemma sets_map_ok: "mb_ok mb \<Longrightarrow> sets_map w m mb mb' \<Longrightarrow> mb_ok mb'"
  by (cases w) (auto simp: mb_ok_def sets_map_def)

lemma sets_map_res_step:
  assumes "mb_ok mb" "sets_map RESERVED m mb mb'" and "\<And>x. \<not> P x \<Longrightarrow> reserved_at mb x \<noteq> None \<Longrightarrow> m x = reserved_at mb x"
  shows "res_step P mb mb'"
proof -
  obtain ty where ty: "mb' = mb\<lparr>mb_reserved := ty\<rparr>" "\<And>x. attr_at (mt_regions ty) x = m x" "own_pages ty = own_pages (mb_reserved mb)"
    using assms(2) unfolding sets_map_def by (auto dest: own_pages_cong)
  show ?thesis
  proof (rule res_stepI)
    show "mb_ok mb'" by (rule sets_map_ok [OF assms(1,2)])
    show "\<not> P x \<Longrightarrow> reserved_at mb x \<noteq> None \<Longrightarrow> reserved_at mb' x = reserved_at mb x" for x using assms(3) [of x] ty(1,2) by simp
  qed (simp_all add: ty same_config_def)
qed

lemma added_keeps: "m x \<noteq> None \<Longrightarrow> added base len nid flags m x = m x"
  by (auto simp: added_def)

lemma added_covers: "in_range base len x \<Longrightarrow> added base len nid flags m x \<noteq> None"
  by (simp add: added_def split: option.splits)

lemma sets_map_at: "sets_map w m mb mb' \<Longrightarrow> map_of_ty w mb' x = m x"
  by (cases w) (auto simp: sets_map_def)

text \<open>
  The contract of doubling the reserved array. It is only doubled when a region does not fit, which
  bounds its size by the number of regions.
\<close>

definition may_double :: "nat \<Rightarrow> memblock_type \<Rightarrow> bool" where
  "may_double nr ty \<longleftrightarrow> mt_max ty < cnt ty + nr \<and> nr \<le> max (cnt ty + 1) (2 ^ 31)"

locale reserved_doubling =
  fixes dbl :: dbl
  assumes doubles: "mb_ok mb \<Longrightarrow> may_double nr (mb_reserved mb) \<Longrightarrow> dbl RESERVED s l mb = Some (ok, mb') \<Longrightarrow>
    res_step P mb mb' \<and> (ok \<longrightarrow> few (mb_reserved mb) \<and> \<not> no_regions (mt_regions (mb_reserved mb')))"
begin

lemma grow:
  assumes "grow_loop dbl RESERVED base len nr mb = Some r" and "mb_ok mb" and "nr \<le> max (cnt (mb_reserved mb) + 1) (2 ^ 31)"
  shows "res_step P mb (snd r) \<and> (fst r \<longrightarrow> \<not> no_regions (mt_regions (mb_reserved mb)) \<longrightarrow> \<not> no_regions (mt_regions (mb_reserved (snd r))))"
  using assms
proof (induction rule: grow_induct)
  case (enough mb)
  then show ?case by (simp add: res_step_refl)
next
  case (failed mb mb1)
  then have "may_double nr (mb_reserved mb)" by (simp add: may_double_def)
  from doubles [OF failed(3) this failed(2)] show ?case by simp
next
  case (again mb mb1 r)
  then have "may_double nr (mb_reserved mb)" by (simp add: may_double_def)
  from doubles [OF again(4) this again(2), of P]
  have d: "res_step P mb mb1" "few (mb_reserved mb)" "\<not> no_regions (mt_regions (mb_reserved mb1))" by simp_all
  have "nr \<le> max (cnt (mb_reserved mb1) + 1) (2 ^ 31)" using d(2) again(5) by (simp add: few_def max_def split: if_splits)
  from again(3) [OF res_step_ok [OF d(1)] this] d res_step_trans [OF d(1)] show ?case by blast
qed

lemma reserve:
  assumes "memblock_reserve dbl base len mb = Some (ret, mb')" and "mb_ok mb"
  shows "res_step P mb mb' \<and> (ret = 0 \<or> ret = - ENOMEM) \<and> (ret = 0 \<longrightarrow> (\<forall>x. in_range base len x \<longrightarrow> reserved_at mb' x \<noteq> None))"
  using assms(1) [unfolded memblock_reserve_def] mb_ok_ty [OF assms(2), of RESERVED]
proof (cases rule: add_range_result)
  case direct
  then show ?thesis using sets_map_res_step [OF assms(2) direct(2), of P] sets_map_at [OF direct(2)] added_keeps added_covers by simp
next
  case (grown mb1 nr)
  have g: "res_step P mb mb1" "\<not> no_regions (mt_regions (mb_reserved mb1))" using grow [OF grown(1) assms(2)] grown(4,5) by auto
  have a: "adds RESERVED base len MAX_NUMNODES 0 mb1 mb'" using grown(3) g mb_ok_ty [OF res_step_ok [OF g(1)], of RESERVED] by simp
  have "res_step P mb1 mb'" using sets_map_res_step [OF res_step_ok [OF g(1)] a] added_keeps by simp
  then show ?thesis using res_step_trans [OF g(1)] grown(2) sets_map_at [OF a] added_covers by simp
next
  case (failed nr)
  then show ?thesis using grow [OF failed(1) assms(2)] by simp
qed

lemma free:
  assumes "memblock_free dbl base len mb = Some (ret, mb')" and "mb_ok mb"
  shows "res_step (in_range base len) mb mb' \<and> (ret = 0 \<or> ret = - ENOMEM) \<and> (ret = 0 \<longrightarrow> (\<forall>x. in_range base len x \<longrightarrow> reserved_at mb' x = None))"
  using assms(1) [unfolded memblock_free_def] mb_ok_ty [OF assms(2), of RESERVED]
proof (cases rule: remove_range_result)
  case direct
  then show ?thesis using res_step_refl [OF assms(2)] in_range_empty by simp
next
  case (grown mb1)
  have g: "res_step (in_range base len) mb mb1" using grow [OF grown(1) assms(2)] by auto
  have r: "sets_map RESERVED (removed base len (map_of_ty RESERVED mb1)) mb1 mb'" using grown(3) mb_ok_ty [OF res_step_ok [OF g], of RESERVED] by simp
  have "res_step (in_range base len) mb1 mb'" using sets_map_res_step [OF res_step_ok [OF g] r] by (simp add: removed_def)
  then show ?thesis using res_step_trans [OF g] grown(2) sets_map_at [OF r] by (simp add: removed_def)
next
  case failed
  then show ?thesis using grow [OF failed(1) assms(2)] by simp
qed

end


lemma in_range_diff: "in_range base len x \<Longrightarrow> base \<le> x \<and> x - base < len"
proof -
  assume x: "in_range base len x"
  have "uint (memblock_cap_size base len) \<le> uint len" by (simp add: memblock_cap_size_def word_le_def [symmetric])
  moreover have "uint x < uint base + uint (memblock_cap_size base len)" using x cap_size_uint [of base len] by (simp add: in_range_def word_less_def)
  ultimately show ?thesis using x uint_diff [of base x] by (simp add: in_range_def word_less_def)
qed

lemma PAGE_ALIGN_nonzero: "x \<noteq> 0 \<Longrightarrow> uint x < 2 ^ 63 \<Longrightarrow> PAGE_ALIGN x \<noteq> 0"
proof
  assume x: "x \<noteq> 0" "uint x < 2 ^ 63" and z: "PAGE_ALIGN x = 0"
  have "uint x \<noteq> 0" using x(1) by (simp add: word_uint_eq_iff)
  then have "1 \<le> uint x" using uint_ge_0 [of x] by linarith
  moreover have "uint (x + 4095) = uint x + 4095" using x(2) by (subst uint_add_lem [THEN iffD1]) simp_all
  ultimately have "4096 \<le> uint (x + 4095)" by simp
  moreover have "x + 4095 = ((x + 4095) AND 4095) OR ((x + 4095) AND NOT 4095)" by (rule bit_word_eqI) (auto simp: bit_simps)
  then have "x + 4095 = (x + 4095) AND 4095" using z by (simp add: PAGE_ALIGN_def)
  then have "x + 4095 \<le> 4095" by (metis word_and_le1)
  ultimately show False by (simp add: word_le_def)
qed

lemma double_find_free:
  assumes "double_find kmalloc w s l mb = Some addr" and "addr \<noteq> 0" and "mb_ok mb"
  defines "len \<equiv> PAGE_ALIGN (push_bit 1 (array_size (ty_of w mb)))"
  shows "area_free mb NUMA_NO_NODE MEMBLOCK_NONE addr len" "few (mb_memory mb)" "few (mb_reserved mb)" "len \<le> PHYS_ADDR_MAX - addr"
proof -
  obtain st en where f: "memblock_find_in_range mb st en len PAGE_SIZE = Some addr"
    using assms(1,3) by (auto simp: double_find_def Let_def len_def mb_ok_def split: option.splits if_splits)
  show few: "few (mb_memory mb)" "few (mb_reserved mb)" using find_in_range_few [OF f] by auto
  then have "maps_ok mb" using assms(3) by (auto simp: mb_ok_def ty_ok_def)
  from find_in_range_sound [OF this, of st en len PAGE_SIZE] f assms(2)
  have a: "area_free mb NUMA_NO_NODE MEMBLOCK_NONE addr len" "addr \<le> search_end mb st en" "len \<le> search_end mb st en - addr" by auto
  show "area_free mb NUMA_NO_NODE MEMBLOCK_NONE addr len" by (rule a)
  have "search_end mb st en - addr \<le> PHYS_ADDR_MAX - addr"
    using uint_diff [OF a(2)] uint_diff [OF word_order.extremum, of addr] word_order.extremum [of "search_end mb st en"] by (simp add: word_le_def)
  with a(3) show "len \<le> PHYS_ADDR_MAX - addr" by simp
qed


lemma array_size_double: "array_size (ty\<lparr>mt_array := a, mt_max := 2 * mt_max ty\<rparr>) = push_bit 1 (array_size ty)"
  by (simp add: array_size_def push_bit_eq_mult)

lemma array_size_nonzero:
  assumes "4 \<le> mt_max ty" "mt_max ty < 2 ^ 33"
  shows "PAGE_ALIGN (push_bit 1 (array_size ty)) \<noteq> 0"
proof -
  have "push_bit 1 (array_size ty) = word_of_nat (mt_max ty * 48)" by (simp add: array_size_def push_bit_eq_mult)
  moreover have "uint (word_of_nat (mt_max ty * 48) :: u64) = int (mt_max ty * 48)"
    using assms(2) by (simp add: unsigned_of_nat take_bit_nat_eq_self del: of_nat_mult)
  ultimately show ?thesis using assms by (intro PAGE_ALIGN_nonzero) (auto simp: word_uint_eq_iff)
qed

context reserved_doubling
begin

text \<open>Doubling an array, from the state that has it moved: free the old one and reserve the new one.\<close>

lemma double_tail:
  assumes "mb_ok mb1" and "\<And>old x. mt_array ty = Some old \<Longrightarrow> in_range old (PAGE_ALIGN (array_size ty)) x \<Longrightarrow> P x"
    and "(case mt_array ty of None \<Rightarrow> Some (0, mb1) | Some old \<Rightarrow> memblock_free dbl old (PAGE_ALIGN (array_size ty)) mb1) = Some (r, mb2)"
    and "memblock_reserve dbl addr len mb2 = Some (0, mb3)"
  shows "res_step P mb1 mb3 \<and> (\<forall>x. in_range addr len x \<longrightarrow> reserved_at mb3 x \<noteq> None)"
proof -
  have "res_step P mb1 mb2"
  proof (cases "mt_array ty")
    case None
    then show ?thesis using assms(1,3) res_step_refl by simp
  next
    case (Some old)
    then have "res_step (in_range old (PAGE_ALIGN (array_size ty))) mb1 mb2" using assms(3) free [OF _ assms(1)] by auto
    then show ?thesis by (rule res_step_mono) (rule assms(2) [OF Some])
  qed
  then show ?thesis using reserve [OF assms(4) res_step_ok] res_step_trans by blast
qed

end


definition moved :: "mb_sel \<Rightarrow> phys_addr \<Rightarrow> memblock \<Rightarrow> memblock" where
  "moved w addr mb = with_ty w ((ty_of w mb)\<lparr>mt_array := Some addr, mt_max := 2 * mt_max (ty_of w mb)\<rparr>) mb"

abbreviation new_len :: "mb_sel \<Rightarrow> memblock \<Rightarrow> phys_addr" where
  "new_len w mb \<equiv> PAGE_ALIGN (push_bit 1 (array_size (ty_of w mb)))"

abbreviation free_old :: "dbl \<Rightarrow> memblock_type \<Rightarrow> memblock \<Rightarrow> (s32 \<times> memblock) option" where
  "free_old dbl ty mb1 \<equiv> (case mt_array ty of None \<Rightarrow> Some (0, mb1) | Some old \<Rightarrow> memblock_free dbl old (PAGE_ALIGN (array_size ty)) mb1)"

lemma double_array_eq:
  assumes "mb_ok mb" "mb_can_resize mb" "double_find kmalloc w s l mb = Some addr" "addr \<noteq> 0"
  shows "memblock_double_array kmalloc dbl w s l mb =
    (case free_old dbl (ty_of w mb) (moved w addr mb) of
       None \<Rightarrow> None
     | Some (_, mb2) \<Rightarrow> (case memblock_reserve dbl addr (new_len w mb) mb2 of
         None \<Rightarrow> None
       | Some (ret, mb3) \<Rightarrow> if ret \<noteq> 0 then None else Some (True, with_ty w ((ty_of w mb3)\<lparr>mt_in_slab := False\<rparr>) mb3)))"
proof -
  have slab: "mb_slab mb = False" "mt_in_slab (ty_of w mb) = False" using assms(1) by (cases w; simp add: mb_ok_def)+
  show ?thesis unfolding memblock_double_array_def Let_def moved_def slab if_False using assms(2-4) by simp
qed

lemma double_array_result:
  assumes "memblock_double_array kmalloc dbl w s l mb = Some (ok, mb')" and "mb_ok mb"
  obtains (no) "\<not> ok" "mb' = mb"
    | (yes) addr r mb2 mb3 where "ok" "double_find kmalloc w s l mb = Some addr" "addr \<noteq> 0"
        "free_old dbl (ty_of w mb) (moved w addr mb) = Some (r, mb2)"
        "memblock_reserve dbl addr (new_len w mb) mb2 = Some (0, mb3)"
        "mb' = with_ty w ((ty_of w mb3)\<lparr>mt_in_slab := False\<rparr>) mb3"
proof -
  have slab: "\<not> mb_slab mb" "\<not> mt_in_slab (ty_of w mb)" using assms(2) by (cases w; simp add: mb_ok_def)+
  show ?thesis
  proof (cases "ok")
    case False
    then show ?thesis using assms(1) slab
      by (intro no) (auto simp: memblock_double_array_def Let_def split: if_splits option.splits)
  next
    case True
    then obtain addr where a: "double_find kmalloc w s l mb = Some addr" "addr \<noteq> 0" "mb_can_resize mb"
      using assms(1) by (auto simp: memblock_double_array_def split: if_splits option.splits)
    note d = assms(1) [unfolded double_array_eq [OF assms(2) a(3,1,2)]]
    then obtain r mb2 where f: "free_old dbl (ty_of w mb) (moved w addr mb) = Some (r, mb2)"
      by (cases "free_old dbl (ty_of w mb) (moved w addr mb)") auto
    then obtain mb3 where "memblock_reserve dbl addr (new_len w mb) mb2 = Some (0, mb3)"
        "mb' = with_ty w ((ty_of w mb3)\<lparr>mt_in_slab := False\<rparr>) mb3"
      using d by (auto split: option.splits if_splits)
    then show ?thesis using True a f by (intro yes [of addr r mb2 mb3]) auto
  qed
qed

lemma moved_ok: "mb_ok mb \<Longrightarrow> mb_ok (moved w addr mb)"
  by (cases w) (auto simp: mb_ok_def moved_def ty_ok_def)

lemma moved_simps [simp]:
  "mt_regions (ty_of v (moved w addr mb)) = mt_regions (ty_of v mb)"
  "mt_total_size (ty_of v (moved w addr mb)) = mt_total_size (ty_of v mb)"
  "same_config mb (moved w addr mb)"
  "own_pages (ty_of w (moved w addr mb)) x \<longleftrightarrow> addr \<le> x \<and> x - addr < new_len w mb"
  "v \<noteq> w \<Longrightarrow> ty_of v (moved w addr mb) = ty_of v mb"
  by (cases w; cases v; simp add: moved_def own_pages_def array_size_double same_config_def)+

lemma old_pages: "mt_array ty = Some old \<Longrightarrow> in_range old (PAGE_ALIGN (array_size ty)) x \<Longrightarrow> own_pages ty x"
  using in_range_diff by (auto simp: own_pages_def)

lemma in_slab_same: "\<not> mt_in_slab (ty_of w mb) \<Longrightarrow> with_ty w ((ty_of w mb)\<lparr>mt_in_slab := False\<rparr>) mb = mb"
  by (cases w) auto

context reserved_doubling
begin

lemma double_reserved:
  assumes "memblock_double_array kmalloc dbl RESERVED s l mb = Some (ok, mb')" and "mb_ok mb" and "may_double nr (mb_reserved mb)"
  shows "res_step P mb mb' \<and> (ok \<longrightarrow> few (mb_reserved mb) \<and> \<not> no_regions (mt_regions (mb_reserved mb')))"
  using assms(1,2)
proof (cases rule: double_array_result)
  case no
  then show ?thesis using res_step_refl [OF assms(2)] by simp
next
  case (yes addr r mb2 mb3)
  let ?len = "new_len RESERVED mb" and ?mb1 = "moved RESERVED addr mb"
  note find = double_find_free [OF yes(2,3) assms(2)]
  have new: "reserved_at mb x = None" if "own_pages (mb_reserved ?mb1) x" for x
    using find(1) that moved_simps(4) [of RESERVED addr mb x] by (simp add: area_free_def)
  have t: "res_step (own_pages (mb_reserved mb)) ?mb1 mb3" "\<And>x. in_range addr ?len x \<Longrightarrow> reserved_at mb3 x \<noteq> None"
    using double_tail [OF moved_ok [OF assms(2)] old_pages yes(4,5)] by simp_all
  have mb': "mb' = mb3" using yes(6) in_slab_same [of RESERVED mb3] res_step_ok [OF t(1)] by (simp add: mb_ok_def)
  have same: "mt_regions (mb_reserved ?mb1) = mt_regions (mb_reserved mb)" "mb_memory ?mb1 = mb_memory mb"
    using moved_simps(1) [of RESERVED RESERVED addr mb] moved_simps(5) [of MEMORY RESERVED addr mb] by simp_all
  have "res_step P mb mb3"
  proof (rule res_stepI)
    show "mb_ok mb3" "mb_memory mb3 = mb_memory mb" using res_stepD(1,3) [OF t(1)] same by simp_all
    show "same_config mb mb3" using res_stepD(2) [OF t(1)] moved_simps(3) same_config_trans by blast
    show "own_pages (mb_reserved mb3) x \<Longrightarrow> P x \<or> own_pages (mb_reserved mb) x \<or> reserved_at mb x = None" for x
      using res_stepD(5) [OF t(1), of x] new [of x] same by auto
    show "\<not> own_pages (mb_reserved mb) x \<Longrightarrow> reserved_at mb x \<noteq> None \<Longrightarrow> reserved_at mb3 x = reserved_at mb x" for x
      using res_stepD(4) [OF t(1), of x] new [of x] same by (cases "own_pages (mb_reserved ?mb1) x") auto
  qed
  moreover have "\<not> no_regions (mt_regions (mb_reserved mb3))"
  proof -
    have "mt_max (mb_reserved mb) < 2 ^ 33" using find(3) assms(3) by (simp add: few_def may_double_def max_def split: if_splits)
    then have "?len \<noteq> 0" using array_size_nonzero [of "mb_reserved mb"] assms(2) by (simp add: mb_ok_def)
    then have "memblock_cap_size addr ?len \<noteq> 0" using find(4) by (simp add: memblock_cap_size_def min_def)
    then have "in_range addr ?len addr" using cap_size_end by (simp add: in_range_def)
    then show ?thesis using t(2) no_regions_attr by blast
  qed
  ultimately show ?thesis using mb' find(3) by simp
qed

end

lemma reserved_doubling_array: "reserved_doubling (double_array kmalloc n)"
proof (induction n)
  case 0
  show ?case by unfold_locales simp
next
  case (Suc n)
  show ?case
    by unfold_locales (simp only: double_array.simps, rule reserved_doubling.double_reserved [OF Suc], assumption+)
qed

interpretation res: reserved_doubling "double_array kmalloc n" for kmalloc n
  by (rule reserved_doubling_array)

text \<open>
  A step that works on the memory array. It may move both arrays: nothing but their own old pages loses
  its reservation, and they only move to pages that were not reserved.
\<close>

definition own_any :: "memblock \<Rightarrow> phys_addr \<Rightarrow> bool" where
  "own_any mb x \<longleftrightarrow> own_pages (mb_memory mb) x \<or> own_pages (mb_reserved mb) x"

definition mem_kept :: "memblock \<Rightarrow> memblock \<Rightarrow> bool" where
  "mem_kept mb mb' \<longleftrightarrow> mb_ok mb' \<and> same_config mb mb' \<and>
    (\<forall>x. \<not> own_any mb x \<longrightarrow> reserved_at mb x \<noteq> None \<longrightarrow> reserved_at mb' x = reserved_at mb x) \<and>
    (\<forall>x. own_any mb' x \<longrightarrow> own_any mb x \<or> reserved_at mb x = None)"

lemma mem_keptI:
  assumes "mb_ok mb'" "same_config mb mb'"
    and "\<And>x. \<not> own_any mb x \<Longrightarrow> reserved_at mb x \<noteq> None \<Longrightarrow> reserved_at mb' x = reserved_at mb x"
    and "\<And>x. own_any mb' x \<Longrightarrow> own_any mb x \<or> reserved_at mb x = None"
  shows "mem_kept mb mb'"
  unfolding mem_kept_def using assms by blast

lemma mem_keptD:
  assumes "mem_kept mb mb'"
  shows "mb_ok mb'" "same_config mb mb'"
    and "\<not> own_any mb x \<Longrightarrow> reserved_at mb x \<noteq> None \<Longrightarrow> reserved_at mb' x = reserved_at mb x"
    and "own_any mb' x \<Longrightarrow> own_any mb x \<or> reserved_at mb x = None"
  using assms by (simp_all add: mem_kept_def)

lemma mem_kept_refl: "mb_ok mb \<Longrightarrow> mem_kept mb mb"
  by (rule mem_keptI) simp_all

lemma mem_kept_trans:
  assumes "mem_kept mb mb1" "mem_kept mb1 mb2"
  shows "mem_kept mb mb2"
proof (rule mem_keptI)
  show "mb_ok mb2" by (rule mem_keptD(1) [OF assms(2)])
  show "same_config mb mb2" using mem_keptD(2) [OF assms(1)] mem_keptD(2) [OF assms(2)] by (rule same_config_trans)
next
  fix x assume x: "\<not> own_any mb x" "reserved_at mb x \<noteq> None"
  have "\<not> own_any mb1 x" using mem_keptD(4) [OF assms(1), of x] x by auto
  then show "reserved_at mb2 x = reserved_at mb x" using mem_keptD(3) [OF assms(2)] mem_keptD(3) [OF assms(1) x] x(2) by metis
next
  fix x assume "own_any mb2 x"
  then show "own_any mb x \<or> reserved_at mb x = None"
    using mem_keptD(4) [OF assms(2), of x] mem_keptD(4) [OF assms(1), of x] mem_keptD(3) [OF assms(1), of x] by metis
qed

lemma sets_map_mem_kept:
  assumes "mb_ok mb" "sets_map MEMORY m mb mb'"
  shows "mem_kept mb mb'"
proof -
  obtain ty where ty: "mb' = mb\<lparr>mb_memory := ty\<rparr>" "own_pages ty = own_pages (mb_memory mb)"
    using assms(2) unfolding sets_map_def by (auto dest: own_pages_cong)
  show ?thesis by (rule mem_keptI [OF sets_map_ok [OF assms]]) (simp_all add: ty same_config_def own_any_def)
qed

locale memory_doubling = reserved_doubling +
  assumes memory_doubles: "mb_ok mb \<Longrightarrow> dbl MEMORY s l mb = Some (ok, mb') \<Longrightarrow>
    mem_kept mb mb' \<and> mt_regions (mb_memory mb') = mt_regions (mb_memory mb)"
begin

lemma memory_grow:
  assumes "grow_loop dbl MEMORY base len nr mb = Some r" and "mb_ok mb"
  shows "mem_kept mb (snd r) \<and> mt_regions (mb_memory (snd r)) = mt_regions (mb_memory mb)"
  using assms
proof (induction rule: grow_induct)
  case (enough mb)
  then show ?case by (simp add: mem_kept_refl)
next
  case (failed mb mb1)
  then show ?case using memory_doubles [OF failed(3,2)] by simp
next
  case (again mb mb1 r)
  then show ?case using memory_doubles [OF again(4,2)] mem_keptD(1) mem_kept_trans by metis
qed

text \<open>What the operations on memory do to its map.\<close>

lemma memory_change:
  assumes "mb_ok mb" and "mem_kept mb mb1" "mt_regions (mb_memory mb1) = mt_regions (mb_memory mb)"
    and "sets_map MEMORY (h (memory_at mb1)) mb1 mb'"
  shows "mem_kept mb mb' \<and> memory_at mb' = h (memory_at mb)"
  using mem_kept_trans [OF assms(2) sets_map_mem_kept [OF mem_keptD(1) [OF assms(2)] assms(4)]] sets_map_at [OF assms(4)] assms(3)
  by (auto simp: fun_eq_iff)

lemma memory_add:
  assumes "memblock_add_range dbl MEMORY base len nid flags mb = Some (ret, mb')" and "mb_ok mb"
  shows "mem_kept mb mb' \<and> (ret = 0 \<and> memory_at mb' = added base len nid flags (memory_at mb) \<or> ret = - ENOMEM \<and> memory_at mb' = memory_at mb)"
  using assms(1) mb_ok_ty [OF assms(2), of MEMORY]
proof (cases rule: add_range_result)
  case direct
  then show ?thesis using memory_change [OF assms(2) mem_kept_refl [OF assms(2)] refl] by simp
next
  case (grown mb1 nr)
  have g: "mem_kept mb mb1" "mt_regions (mb_memory mb1) = mt_regions (mb_memory mb)" using memory_grow [OF grown(1) assms(2)] by auto
  show ?thesis using memory_change [OF assms(2) g] grown(2,3,4) g mb_ok_ty [OF mem_keptD(1) [OF g(1)], of MEMORY] by simp
next
  case (failed nr)
  then show ?thesis using memory_grow [OF failed(1) assms(2)] by simp
qed

lemma memory_remove:
  assumes "memblock_remove_range dbl MEMORY base len mb = Some (ret, mb')" and "mb_ok mb"
  shows "mem_kept mb mb' \<and> (ret = 0 \<and> memory_at mb' = removed base len (memory_at mb) \<or> ret = - ENOMEM \<and> memory_at mb' = memory_at mb)"
  using assms(1) mb_ok_ty [OF assms(2), of MEMORY]
proof (cases rule: remove_range_result)
  case direct
  then show ?thesis using mem_kept_refl [OF assms(2)] in_range_empty by (simp add: removed_def fun_eq_iff)
next
  case (grown mb1)
  have g: "mem_kept mb mb1" "mt_regions (mb_memory mb1) = mt_regions (mb_memory mb)" using memory_grow [OF grown(1) assms(2)] by auto
  show ?thesis using memory_change [OF assms(2) g] grown(2,3) mb_ok_ty [OF mem_keptD(1) [OF g(1)], of MEMORY] by simp
next
  case failed
  then show ?thesis using memory_grow [OF failed(1) assms(2)] by simp
qed

lemma memory_update:
  assumes "update_range dbl f MEMORY base len mb = Some (ret, mb')" and "mb_ok mb"
    and f: "\<And>r. rgn_base (f r) = rgn_base r \<and> rgn_size (f r) = rgn_size r \<and> (rgn_flags (f r), rgn_nid (f r)) = g (rgn_flags r, rgn_nid r)"
  shows "mem_kept mb mb' \<and> (ret = 0 \<and> memory_at mb' = modified base len g (memory_at mb) \<or> ret = - ENOMEM \<and> memory_at mb' = memory_at mb)"
  using assms(1) mb_ok_ty [OF assms(2), of MEMORY] f
proof (cases rule: update_range_result)
  case direct
  then show ?thesis using memory_change [OF assms(2) mem_kept_refl [OF assms(2)] refl] by simp
next
  case (grown mb1)
  have g: "mem_kept mb mb1" "mt_regions (mb_memory mb1) = mt_regions (mb_memory mb)" using memory_grow [OF grown(1) assms(2)] by auto
  show ?thesis using memory_change [OF assms(2) g] grown(2,3) mb_ok_ty [OF mem_keptD(1) [OF g(1)], of MEMORY] by simp
next
  case failed
  then show ?thesis using memory_grow [OF failed(1) assms(2)] by simp
qed

end

context reserved_doubling
begin

lemma double_memory:
  assumes "memblock_double_array kmalloc dbl MEMORY s l mb = Some (ok, mb')" and "mb_ok mb"
  shows "mem_kept mb mb' \<and> mt_regions (mb_memory mb') = mt_regions (mb_memory mb)"
  using assms
proof (cases rule: double_array_result)
  case no
  then show ?thesis using mem_kept_refl [OF assms(2)] by simp
next
  case (yes addr r mb2 mb3)
  let ?mb1 = "moved MEMORY addr mb"
  have new: "reserved_at mb x = None" if "own_pages (mb_memory ?mb1) x" for x
    using double_find_free(1) [OF yes(2,3) assms(2)] that moved_simps(4) [of MEMORY addr mb x] by (simp add: area_free_def)
  have t: "res_step (own_pages (mb_memory mb)) ?mb1 mb3"
    using double_tail [OF moved_ok [OF assms(2)] old_pages yes(4,5)] by simp
  have mb': "mb' = mb3" using yes(6) in_slab_same [of MEMORY mb3] res_step_ok [OF t] by (simp add: mb_ok_def)
  have same: "mb_reserved ?mb1 = mb_reserved mb" "mt_regions (mb_memory mb3) = mt_regions (mb_memory mb)"
    "own_pages (mb_memory mb3) = own_pages (mb_memory ?mb1)"
    using moved_simps(1) [of MEMORY MEMORY addr mb] moved_simps(5) [of RESERVED MEMORY addr mb] res_stepD(3) [OF t] by simp_all
  have "mem_kept mb mb3"
  proof (rule mem_keptI)
    show "mb_ok mb3" by (rule res_step_ok [OF t])
    show "same_config mb mb3" using res_stepD(2) [OF t] moved_simps(3) same_config_trans by blast
    show "own_any mb3 x \<Longrightarrow> own_any mb x \<or> reserved_at mb x = None" for x
      using res_stepD(5) [OF t, of x] new [of x] same by (auto simp: own_any_def)
    show "\<not> own_any mb x \<Longrightarrow> reserved_at mb x \<noteq> None \<Longrightarrow> reserved_at mb3 x = reserved_at mb x" for x
      using res_stepD(4) [OF t, of x] same by (simp add: own_any_def)
  qed
  then show ?thesis using mb' same by simp
qed

end

lemma memory_doubling_array: "memory_doubling (double_array kmalloc n)"
proof (cases n)
  case 0
  show ?thesis unfolding 0 by unfold_locales simp_all
next
  case (Suc m)
  show ?thesis unfolding Suc
    by unfold_locales (simp only: double_array.simps, rule reserved_doubling.double_memory [OF reserved_doubling_array], assumption+)
qed

interpretation mem: memory_doubling "double_array kmalloc n" for kmalloc n
  by (rule memory_doubling_array)

section \<open>Operations on an array with room\<close>

lemma add_range_room:
  assumes "ty_ok (ty_of w mb)"
    and "length (fill base (base + memblock_cap_size base len) nid flags (mt_regions (ty_of w mb))) \<le> mt_max (ty_of w mb)"
  obtains mb' where "memblock_add_range dbl w base len nid flags mb = Some (0, mb')" "adds w base len nid flags mb mb'"
    "cnt (ty_of w mb') \<le> length (fill base (base + memblock_cap_size base len) nid flags (mt_regions (ty_of w mb)))"
    "successively apart (mt_regions (ty_of w mb)) \<Longrightarrow> successively apart (mt_regions (ty_of w mb'))"
proof -
  let ?l = "memblock_cap_size base len" and ?ty = "ty_of w mb"
  let ?f = "fill base (base + ?l) nid flags (mt_regions ?ty)"
  have le: "cnt ?ty \<le> length ?f" by (rule fill_longer)
  show ?thesis
  proof (cases "?l = 0")
    case True
    then show ?thesis using le adds_same [OF assms(1), of base len nid flags] in_range_empty [OF True]
      by (intro that [of mb]) (auto simp: memblock_add_range_def)
  next
    case l: False
    show ?thesis
    proof (cases "no_regions (mt_regions ?ty)")
      case True
      let ?new = "?ty\<lparr>mt_regions := (mt_regions ?ty)[0 := \<lparr>rgn_base = base, rgn_size = ?l, rgn_flags = flags, rgn_nid = nid\<rparr>], mt_total_size := ?l\<rparr>"
      have one: "length (mt_regions ?new) = 1" using True by (auto elim: no_regionsE)
      have sel: "ty_of w (with_ty w ?new mb) = ?new" by (cases w) simp_all
      show ?thesis
      proof (rule that [of "with_ty w ?new mb"])
        show "memblock_add_range dbl w base len nid flags mb = Some (0, with_ty w ?new mb)"
          using ty_ok_empty [OF assms(1)] True l by (simp add: memblock_add_range_def Let_def)
        show "adds w base len nid flags mb (with_ty w ?new mb)"
          unfolding sets_map_def using add_empty_ok [OF assms(1) True l refl, of flags nid] by auto
        show "cnt (ty_of w (with_ty w ?new mb)) \<le> length ?f" using one le unfolding sel by simp
        show "successively apart (mt_regions (ty_of w (with_ty w ?new mb)))" using one unfolding sel by (auto simp: length_Suc_conv)
      qed
    next
      case ne: False
      have c: "cnt ?ty \<le> mt_max ?ty" using assms(1) by (simp add: ty_ok_def)
      have e: "rgn_size (mt_regions ?ty ! 0) \<noteq> 0" using ty_ok_empty [OF assms(1)] ne by simp
      show ?thesis
      proof (cases "length ?f - cnt ?ty = 0")
        case True
        then have "length ?f \<le> cnt ?ty" by simp
        then have "adds w base len nid flags mb mb" by (intro adds_same [OF assms(1)] add_no_gap [OF assms(1) ne l])
        then show ?thesis using l e le True by (intro that [of mb]) (auto simp: memblock_add_range_def add_count Let_def)
      next
        case nr: False
        let ?ty2 = "?ty\<lparr>mt_regions := ?f, mt_total_size := mt_total_size ?ty + (sizes ?f - sizes (mt_regions ?ty))\<rparr>"
        have p: "add_range_pass True ?ty base (base + ?l) nid flags = Some (?ty2, length ?f - cnt ?ty)"
          using add_insert [OF c] assms(2) by (simp add: Let_def)
        have "regions_ok ?f" using fill_ok(1) assms(1) ne by (auto simp: ty_ok_def regions_ok_def)
        then obtain rs where m: "memblock_merge_regions ?ty2 = Some (?ty2\<lparr>mt_regions := rs\<rparr>)" "length rs \<le> length ?f" "successively apart rs"
          using merge_ok [of ?ty2] by auto
        have g: "grow_loop dbl w base ?l (length ?f - cnt ?ty) mb = Some (True, mb)" using assms(2) le by (intro grow_enough) simp
        have sel: "ty_of w (with_ty w ty mb) = ty" for ty by (cases w) simp_all
        show ?thesis
        proof (rule that [of "with_ty w (?ty2\<lparr>mt_regions := rs\<rparr>) mb"])
          show "memblock_add_range dbl w base len nid flags mb = Some (0, with_ty w (?ty2\<lparr>mt_regions := rs\<rparr>) mb)"
            using l e nr g p m(1) by (simp add: memblock_add_range_def add_count Let_def)
          show "adds w base len nid flags mb (with_ty w (?ty2\<lparr>mt_regions := rs\<rparr>) mb)"
            unfolding sets_map_def using add_second_pass [OF assms(1) ne l p, of "?ty2\<lparr>mt_regions := rs\<rparr>"] nr m(1)
            by (intro exI [of _ "?ty2\<lparr>mt_regions := rs\<rparr>"]) simp
        qed (use m sel in simp_all)
      qed
    qed
  qed
qed

lemma remove_range_room:
  assumes "ty_ok (ty_of w mb)" and "cnt (ty_of w mb) + 2 \<le> mt_max (ty_of w mb)"
  shows "\<exists>mb'. memblock_remove_range dbl w base len mb = Some (0, mb') \<and> sets_map w (removed base len (map_of_ty w mb)) mb mb' \<and>
    cnt (ty_of w mb') \<le> cnt (ty_of w mb) + 2"
proof (cases "memblock_cap_size base len = 0")
  case True
  have "removed base len (map_of_ty w mb) = map_of_ty w mb" using in_range_empty [OF True] by (intro ext) (simp add: removed_def)
  then have "sets_map w (removed base len (map_of_ty w mb)) mb mb"
    unfolding sets_map_def using assms(1) by (intro exI [of _ "ty_of w mb"]) simp
  then show ?thesis using True by (auto simp: memblock_remove_range_def memblock_isolate_range_def)
next
  case l: False
  note g = grow_enough [OF assms(2), of dbl base "memblock_cap_size base len"]
  obtain ty1 st en where i: "isolate_loop (ty_of w mb) 0 base (base + memblock_cap_size base len) 0 0 = Some (ty1, st, en)"
      "cnt (remove_loop ty1 st (en - st)) \<le> cnt (ty_of w mb) + 2"
    by (rule remove_isolated [OF assms(1) l assms(2)]) (rule that)
  have "memblock_remove_range dbl w base len mb = Some (0, with_ty w (remove_loop ty1 st (en - st)) mb)" (is "_ = Some (0, ?mb')")
    using l g i(1) by (cases w) (auto simp: memblock_remove_range_def memblock_isolate_range_def Let_def)
  note r = this
  from r assms(1) have "sets_map w (removed base len (map_of_ty w mb)) mb ?mb'"
  proof (cases rule: remove_range_result)
    case (grown mb1)
    then show ?thesis using g assms(1) by simp
  qed (use l g in simp_all)
  moreover have "cnt (ty_of w ?mb') \<le> cnt (ty_of w mb) + 2" using i(2) by (cases w) simp_all
  ultimately show ?thesis using r by blast
qed

end
