(* ===== verification/Memblock_Alloc.thy ===== *)
theory Memblock_Alloc
  imports Memblock_Ops
begin

text \<open>
  The interface of \<^verbatim>\<open>mm/memblock.c\<close>: adding and reserving memory, marking it, allocation and its
  fallbacks.
\<close>

unbundle bit_operations_syntax

section \<open>The operations callers use\<close>

definition memblock_add_node :: "dbl \<Rightarrow> phys_addr \<Rightarrow> phys_addr \<Rightarrow> s32 \<Rightarrow> memblock \<Rightarrow> (s32 \<times> memblock) option" where
  "memblock_add_node dbl base len nid mb = memblock_add_range dbl MEMORY base len nid 0 mb"

definition memblock_add :: "dbl \<Rightarrow> phys_addr \<Rightarrow> phys_addr \<Rightarrow> memblock \<Rightarrow> (s32 \<times> memblock) option" where
  "memblock_add dbl base len mb = memblock_add_range dbl MEMORY base len MAX_NUMNODES 0 mb"

definition memblock_remove :: "dbl \<Rightarrow> phys_addr \<Rightarrow> phys_addr \<Rightarrow> memblock \<Rightarrow> (s32 \<times> memblock) option" where
  "memblock_remove dbl base len mb = memblock_remove_range dbl MEMORY base len mb"

definition memblock_mark_hotplug :: "dbl \<Rightarrow> phys_addr \<Rightarrow> phys_addr \<Rightarrow> memblock \<Rightarrow> (s32 \<times> memblock) option" where
  "memblock_mark_hotplug dbl base len mb = memblock_setclr_flag dbl base len True MEMBLOCK_HOTPLUG mb"

definition memblock_clear_hotplug :: "dbl \<Rightarrow> phys_addr \<Rightarrow> phys_addr \<Rightarrow> memblock \<Rightarrow> (s32 \<times> memblock) option" where
  "memblock_clear_hotplug dbl base len mb = memblock_setclr_flag dbl base len False MEMBLOCK_HOTPLUG mb"

definition memblock_mark_mirror :: "dbl \<Rightarrow> phys_addr \<Rightarrow> phys_addr \<Rightarrow> memblock \<Rightarrow> (s32 \<times> memblock) option" where
  "memblock_mark_mirror dbl base len mb = memblock_setclr_flag dbl base len True MEMBLOCK_MIRROR (mb\<lparr>mb_has_mirror := True\<rparr>)"

definition memblock_mark_nomap :: "dbl \<Rightarrow> phys_addr \<Rightarrow> phys_addr \<Rightarrow> memblock \<Rightarrow> (s32 \<times> memblock) option" where
  "memblock_mark_nomap dbl base len mb = memblock_setclr_flag dbl base len True MEMBLOCK_NOMAP mb"

definition memblock_clear_nomap :: "dbl \<Rightarrow> phys_addr \<Rightarrow> phys_addr \<Rightarrow> memblock \<Rightarrow> (s32 \<times> memblock) option" where
  "memblock_clear_nomap dbl base len mb = memblock_setclr_flag dbl base len False MEMBLOCK_NOMAP mb"

definition memblock_set_current_limit :: "phys_addr \<Rightarrow> memblock \<Rightarrow> memblock" where
  "memblock_set_current_limit limit mb = mb\<lparr>mb_current_limit := limit\<rparr>"

definition memblock_allow_resize :: "memblock \<Rightarrow> memblock" where
  "memblock_allow_resize mb = mb\<lparr>mb_can_resize := True\<rparr>"

definition memblock_set_bottom_up :: "bool \<Rightarrow> memblock \<Rightarrow> memblock" where
  "memblock_set_bottom_up enable mb = mb\<lparr>mb_bottom_up := enable\<rparr>"

section \<open>Allocation\<close>

text \<open>A search on one node, and the reservation of what it finds. Address 0 is a failure.\<close>

definition alloc_on_node :: "dbl \<Rightarrow> phys_addr \<Rightarrow> phys_addr \<Rightarrow> phys_addr \<Rightarrow> phys_addr \<Rightarrow> s32 \<Rightarrow> u32 \<Rightarrow> memblock \<Rightarrow> (phys_addr \<times> memblock) option" where
  "alloc_on_node dbl len align start end nid flags mb =
    (case memblock_find_in_range_node mb len align start end nid flags of
       None \<Rightarrow> None
     | Some found \<Rightarrow>
         if found = 0 then Some (0, mb)
         else map_option (\<lambda>(ret, mb1). (if ret = 0 then found else 0, mb1)) (memblock_reserve dbl found len mb))"

definition alloc_attempt :: "dbl \<Rightarrow> phys_addr \<Rightarrow> phys_addr \<Rightarrow> phys_addr \<Rightarrow> phys_addr \<Rightarrow> s32 \<Rightarrow> bool \<Rightarrow> u32 \<Rightarrow> memblock \<Rightarrow> (phys_addr \<times> memblock) option" where
  "alloc_attempt dbl len align start end nid exact_nid flags mb =
    (case alloc_on_node dbl len align start end nid flags mb of
       None \<Rightarrow> None
     | Some (found, mb1) \<Rightarrow>
         if found = 0 \<and> nid \<noteq> NUMA_NO_NODE \<and> \<not> exact_nid then alloc_on_node dbl len align start end NUMA_NO_NODE flags mb1
         else Some (found, mb1))"

abbreviation (input) SMP_CACHE_BYTES :: phys_addr where "SMP_CACHE_BYTES \<equiv> 64"

definition memblock_alloc_range_nid :: "dbl \<Rightarrow> phys_addr \<Rightarrow> phys_addr \<Rightarrow> phys_addr \<Rightarrow> phys_addr \<Rightarrow> s32 \<Rightarrow> bool \<Rightarrow> memblock \<Rightarrow> (phys_addr \<times> memblock) option" where
  "memblock_alloc_range_nid dbl len align start end nid exact_nid mb =
    (let flags = choose_memblock_flags mb;
         nid1 = (if nid = MAX_NUMNODES then NUMA_NO_NODE else nid);
         align1 = (if align = 0 then SMP_CACHE_BYTES else align)
     in case alloc_attempt dbl len align1 start end nid1 exact_nid flags mb of
          None \<Rightarrow> None
        | Some (found, mb1) \<Rightarrow>
            if found = 0 \<and> flags AND MEMBLOCK_MIRROR \<noteq> 0
            then alloc_attempt dbl len align1 start end nid1 exact_nid (flags AND NOT MEMBLOCK_MIRROR) mb1
            else Some (found, mb1))"

definition memblock_phys_alloc_range :: "dbl \<Rightarrow> phys_addr \<Rightarrow> phys_addr \<Rightarrow> phys_addr \<Rightarrow> phys_addr \<Rightarrow> memblock \<Rightarrow> (phys_addr \<times> memblock) option" where
  "memblock_phys_alloc_range dbl len align start end mb = memblock_alloc_range_nid dbl len align start end NUMA_NO_NODE False mb"

definition memblock_phys_alloc_try_nid :: "dbl \<Rightarrow> phys_addr \<Rightarrow> phys_addr \<Rightarrow> s32 \<Rightarrow> memblock \<Rightarrow> (phys_addr \<times> memblock) option" where
  "memblock_phys_alloc_try_nid dbl len align nid mb =
    memblock_alloc_range_nid dbl len align 0 MEMBLOCK_ALLOC_ACCESSIBLE nid False mb"

text \<open>
  The address is the physical one; the code returns it through \<^verbatim>\<open>phys_to_virt\<close>. \<open>kzalloc\<close> is the block
  \<^verbatim>\<open>kzalloc_node\<close> returns once the slab allocator is available.
\<close>

definition memblock_alloc_internal :: "dbl \<Rightarrow> (phys_addr \<Rightarrow> s32 \<Rightarrow> phys_addr) \<Rightarrow> phys_addr \<Rightarrow> phys_addr \<Rightarrow> phys_addr \<Rightarrow> phys_addr \<Rightarrow> s32 \<Rightarrow> bool \<Rightarrow> memblock \<Rightarrow> (phys_addr \<times> memblock) option" where
  "memblock_alloc_internal dbl kzalloc len align min_addr max_addr nid exact_nid mb =
    (if mb_slab mb then Some (kzalloc len nid, mb)
     else
       let max1 = (if max_addr > mb_current_limit mb then mb_current_limit mb else max_addr)
       in case memblock_alloc_range_nid dbl len align min_addr max1 nid exact_nid mb of
            None \<Rightarrow> None
          | Some (alloc, mb1) \<Rightarrow>
              if alloc = 0 \<and> min_addr \<noteq> 0 then memblock_alloc_range_nid dbl len align 0 max1 nid exact_nid mb1
              else Some (alloc, mb1))"

lemma in_range_whole:
  assumes "len \<le> PHYS_ADDR_MAX - base"
  shows "in_range base len x \<longleftrightarrow> base \<le> x \<and> x - base < len"
proof -
  have c: "memblock_cap_size base len = len" using assms by (simp add: memblock_cap_size_def min_def)
  have "base \<le> x \<Longrightarrow> x - base < len \<longleftrightarrow> x < base + len"
    using uint_diff [of base x] cap_size_uint [of base len] unfolding c by (auto simp: word_less_def)
  then show ?thesis by (auto simp: in_range_def c)
qed

lemma limit_to_max: "c \<le> e \<Longrightarrow> len \<le> e - c \<Longrightarrow> len \<le> PHYS_ADDR_MAX - (c :: phys_addr)"
proof -
  assume a: "c \<le> e" "len \<le> e - c"
  have "e - c \<le> PHYS_ADDR_MAX - c"
    using uint_diff [OF a(1)] uint_diff [OF word_order.extremum, of c] word_order.extremum [of e] by (simp add: word_le_def)
  then show ?thesis using a(2) by simp
qed

lemma find_node_few: "memblock_find_in_range_node mb len align start end nid flags = Some c \<Longrightarrow> few (mb_memory mb) \<and> few (mb_reserved mb)"
  by (auto simp: memblock_find_in_range_node_def Let_def dest: find_range_few split: if_splits)

lemma usable_weaken:
  assumes "usable movable nid flags at" "flags = MEMBLOCK_MIRROR \<or> flags = MEMBLOCK_NONE"
  shows "usable movable NUMA_NO_NODE MEMBLOCK_NONE at" "usable movable nid MEMBLOCK_NONE at"
  using assms by (auto simp: usable_def should_skip_region_def split: if_splits)

text \<open>What was free in a later state was free before, or a page of the old array.\<close>

definition area_new :: "memblock \<Rightarrow> s32 \<Rightarrow> phys_addr \<Rightarrow> phys_addr \<Rightarrow> bool" where
  "area_new mb nid c len \<longleftrightarrow>
    (\<forall>x. c \<le> x \<and> x - c < len \<longrightarrow> (reserved_at mb x = None \<or> own_pages (mb_reserved mb) x) \<and>
       (\<exists>at. memory_at mb x = Some at \<and> usable (mb_movable_node mb) nid MEMBLOCK_NONE at))"

definition area_taken :: "memblock \<Rightarrow> phys_addr \<Rightarrow> phys_addr \<Rightarrow> bool" where
  "area_taken mb c len \<longleftrightarrow> (\<forall>x. c \<le> x \<and> x - c < len \<longrightarrow> reserved_at mb x \<noteq> None)"

definition area_within :: "memblock \<Rightarrow> phys_addr \<Rightarrow> phys_addr \<Rightarrow> phys_addr \<Rightarrow> phys_addr \<Rightarrow> bool" where
  "area_within mb start end c len \<longleftrightarrow>
    search_start start \<le> c \<and> c \<le> search_end mb start end \<and> len \<le> search_end mb start end - c"

lemma area_free_new:
  assumes "res_step (\<lambda>_. False) mb mb1" "area_free mb1 nid flags c len" "flags = MEMBLOCK_MIRROR \<or> flags = MEMBLOCK_NONE"
  shows "area_new mb nid c len" "area_new mb NUMA_NO_NODE c len"
proof -
  have m: "mb_memory mb1 = mb_memory mb" "mb_movable_node mb1 = mb_movable_node mb"
    using res_stepD(2,3) [OF assms(1)] by (auto simp: same_config_def)
  have "reserved_at mb x = None \<or> own_pages (mb_reserved mb) x" if "reserved_at mb1 x = None" for x
    using res_stepD(4) [OF assms(1), of x] that by metis
  then show "area_new mb nid c len" "area_new mb NUMA_NO_NODE c len"
    using assms(2) usable_weaken [OF _ assms(3)] unfolding area_free_def area_new_def m by blast+
qed

lemma area_new_step:
  assumes "res_step (\<lambda>_. False) mb mb1" "area_new mb1 nid c len"
  shows "area_new mb nid c len"
proof -
  have m: "mb_memory mb1 = mb_memory mb" "mb_movable_node mb1 = mb_movable_node mb"
    using res_stepD(2,3) [OF assms(1)] by (auto simp: same_config_def)
  have "reserved_at mb x = None \<or> own_pages (mb_reserved mb) x" if "reserved_at mb1 x = None \<or> own_pages (mb_reserved mb1) x" for x
    using res_stepD(4) [OF assms(1), of x] res_stepD(5) [OF assms(1), of x] that by metis
  then show ?thesis using assms(2) unfolding area_new_def m by blast
qed

context reserved_doubling
begin

lemma alloc_node:
  assumes "alloc_on_node dbl len align start end nid flags mb = Some (c, mb')" and "mb_ok mb"
  shows "res_step P mb mb' \<and> (c \<noteq> 0 \<longrightarrow> area_free mb nid flags c len \<and> area_within mb start end c len \<and> area_taken mb' c len)"
proof -
  obtain found where f: "memblock_find_in_range_node mb len align start end nid flags = Some found"
    using assms(1) by (auto simp: alloc_on_node_def split: option.splits)
  have "maps_ok mb" using find_node_few [OF f] assms(2) by (auto simp: mb_ok_def ty_ok_def)
  from find_in_range_node_sound [OF this, of len align start "end" nid flags] f
  have s: "found \<noteq> 0 \<Longrightarrow> area_free mb nid flags found len \<and> area_within mb start end found len" by (auto simp: area_within_def)
  show ?thesis
  proof (cases "found = 0")
    case True
    then show ?thesis using assms f res_step_refl by (simp add: alloc_on_node_def)
  next
    case False
    then obtain ret where r: "memblock_reserve dbl found len mb = Some (ret, mb')" "c = (if ret = 0 then found else 0)"
      using assms(1) f by (auto simp: alloc_on_node_def)
    have "len \<le> PHYS_ADDR_MAX - found" using s [OF False] limit_to_max by (auto simp: area_within_def)
    then show ?thesis using reserve [OF r(1) assms(2), of P] s [OF False] r(2)
      by (auto simp: area_taken_def in_range_whole)
  qed
qed

lemma alloc_try:
  assumes "alloc_attempt dbl len align start end nid exact_nid flags mb = Some (c, mb')" and "mb_ok mb"
    and flags: "flags = MEMBLOCK_MIRROR \<or> flags = MEMBLOCK_NONE"
  shows "res_step (\<lambda>_. False) mb mb' \<and>
    (c \<noteq> 0 \<longrightarrow> area_new mb (if exact_nid then nid else NUMA_NO_NODE) c len \<and> area_within mb start end c len \<and> area_taken mb' c len)"
proof -
  obtain found mb1 where a: "alloc_on_node dbl len align start end nid flags mb = Some (found, mb1)"
    using assms(1) by (auto simp: alloc_attempt_def split: option.splits)
  note n = alloc_node [OF a assms(2), of "\<lambda>_. False"]
  show ?thesis
  proof (cases "found = 0 \<and> nid \<noteq> NUMA_NO_NODE \<and> \<not> exact_nid")
    case False
    then have "c = found" "mb' = mb1" using assms(1) a by (auto simp: alloc_attempt_def)
    then show ?thesis using n area_free_new [OF res_step_refl [OF assms(2)] _ flags] by auto
  next
    case True
    then have a2: "alloc_on_node dbl len align start end NUMA_NO_NODE flags mb1 = Some (c, mb')" using assms(1) a by (simp add: alloc_attempt_def)
    have m1: "res_step (\<lambda>_. False) mb mb1" using n by simp
    have "search_end mb1 start end = search_end mb start end" using res_stepD(2) [OF m1] by (simp add: search_end_def same_config_def)
    then show ?thesis using alloc_node [OF a2 res_step_ok [OF m1], of "\<lambda>_. False"] res_step_trans [OF m1] area_free_new(1) [OF m1 _ flags, of NUMA_NO_NODE] True
      by (auto simp: area_within_def)
  qed
qed

lemma alloc_range:
  assumes "memblock_alloc_range_nid dbl len align start end nid exact_nid mb = Some (c, mb')" and "mb_ok mb"
  shows "res_step (\<lambda>_. False) mb mb' \<and>
    (c \<noteq> 0 \<longrightarrow> area_new mb (if exact_nid \<and> nid \<noteq> MAX_NUMNODES then nid else NUMA_NO_NODE) c len \<and> area_within mb start end c len \<and> area_taken mb' c len)"
proof -
  let ?nid = "if nid = MAX_NUMNODES then NUMA_NO_NODE else nid" and ?align = "if align = 0 then SMP_CACHE_BYTES else align"
  let ?attempt = "alloc_attempt dbl len ?align start end ?nid exact_nid"
  have flags: "choose_memblock_flags mb = MEMBLOCK_MIRROR \<or> choose_memblock_flags mb = MEMBLOCK_NONE" by (simp add: choose_memblock_flags_def)
  have nid: "(if exact_nid then ?nid else NUMA_NO_NODE) = (if exact_nid \<and> nid \<noteq> MAX_NUMNODES then nid else NUMA_NO_NODE)" by simp
  obtain found mb1 where a: "?attempt (choose_memblock_flags mb) mb = Some (found, mb1)"
    using assms(1) unfolding memblock_alloc_range_nid_def Let_def by (cases "?attempt (choose_memblock_flags mb) mb") auto
  note n = alloc_try [OF a assms(2) flags, unfolded nid]
  show ?thesis
  proof (cases "found = 0 \<and> choose_memblock_flags mb AND MEMBLOCK_MIRROR \<noteq> 0")
    case False
    then have "c = found" "mb' = mb1" using assms(1) a unfolding memblock_alloc_range_nid_def Let_def by (auto split: if_splits)
    then show ?thesis using n by simp
  next
    case True
    then have a2: "?attempt MEMBLOCK_NONE mb1 = Some (c, mb')"
      using assms(1) a unfolding memblock_alloc_range_nid_def Let_def choose_memblock_flags_unmirrored by (auto split: if_splits)
    have m1: "res_step (\<lambda>_. False) mb mb1" using n by simp
    have "search_end mb1 start end = search_end mb start end" using res_stepD(2) [OF m1] by (simp add: search_end_def same_config_def)
    then show ?thesis using alloc_try [OF a2 res_step_ok [OF m1], unfolded nid] res_step_trans [OF m1] area_new_step [OF m1]
      by (auto simp: area_within_def)
  qed
qed

end

section \<open>Allocation always returns\<close>

text \<open>A free range needs exactly one new region.\<close>

lemma fill_free_length:
  assumes "chain lo rs" "base < end" and "\<And>x. base \<le> x \<Longrightarrow> x < end \<Longrightarrow> attr_at rs x = None"
  shows "length (fill base end nid flags rs) = length rs + 1"
  using assms
proof (induction rs arbitrary: lo)
  case (Cons r rs)
  have free: "attr_at rs x = None" if "base \<le> x" "x < end" for x
    using Cons.prems(3) [OF that] by (auto split: if_splits)
  have "end \<le> rgn_base r \<or> rgn_end r \<le> base"
  proof (rule ccontr)
    assume "\<not> ?thesis"
    then have "base \<le> max base (rgn_base r)" "max base (rgn_base r) < end" "rgn_base r \<le> max base (rgn_base r)" "max base (rgn_base r) < rgn_end r"
      using Cons.prems(1,2) by auto
    then show False using Cons.prems(3) [of "max base (rgn_base r)"] by simp
  qed
  then show ?case using Cons.IH [of "rgn_end r"] Cons.prems(1,2) free by auto
qed simp

lemma fill_free_le:
  assumes "ty_ok ty" "base < end" and "\<And>x. base \<le> x \<Longrightarrow> x < end \<Longrightarrow> attr_at (mt_regions ty) x = None"
  shows "length (fill base end nid flags (mt_regions ty)) \<le> cnt ty + 1"
proof (cases "no_regions (mt_regions ty)")
  case True
  then show ?thesis using assms(2) by (auto elim!: no_regionsE)
next
  case False
  then show ?thesis using fill_free_length [of 0 "mt_regions ty" base "end" nid flags] assms by (auto simp: ty_ok_def regions_ok_def)
qed

text \<open>Reserving a free range in an array with room.\<close>

abbreviation res_free :: "memblock \<Rightarrow> phys_addr \<Rightarrow> phys_addr \<Rightarrow> bool" where
  "res_free mb base len \<equiv> \<forall>x. in_range base len x \<longrightarrow> reserved_at mb x = None"

lemma reserve_room:
  assumes "mb_ok mb" "res_free mb base len" "cnt (mb_reserved mb) < mt_max (mb_reserved mb)"
  obtains mb' where "memblock_reserve dbl base len mb = Some (0, mb')" "adds RESERVED base len MAX_NUMNODES 0 mb mb'"
    "cnt (mb_reserved mb') \<le> cnt (mb_reserved mb) + 1"
proof (cases "memblock_cap_size base len = 0")
  case True
  then show ?thesis using adds_same [OF mb_ok_ty [OF assms(1), of RESERVED], of base len MAX_NUMNODES 0] in_range_empty [OF True]
    by (intro that [of mb]) (auto simp: memblock_reserve_def memblock_add_range_def)
next
  case False
  let ?f = "fill base (base + memblock_cap_size base len) MAX_NUMNODES 0 (mt_regions (mb_reserved mb))"
  have ok: "ty_ok (ty_of RESERVED mb)" by (rule mb_ok_ty [OF assms(1)])
  have len: "length ?f \<le> cnt (mb_reserved mb) + 1"
    using fill_free_le [OF ok [simplified] cap_size_end [OF False]] assms(2) by (simp add: in_range_def)
  obtain mb' where "memblock_add_range dbl RESERVED base len MAX_NUMNODES 0 mb = Some (0, mb')"
      "adds RESERVED base len MAX_NUMNODES 0 mb mb'" "cnt (ty_of RESERVED mb') \<le> length ?f"
    using add_range_room [OF ok, of base len MAX_NUMNODES 0 dbl] len assms(3) by auto
  then show ?thesis using len by (intro that [of mb']) (simp_all add: memblock_reserve_def)
qed

text \<open>Where the new array of the reserved regions goes: not into the range that is being reserved.\<close>

lemma double_find_avoids:
  assumes "mb_ok mb" "few (mb_memory mb)" "few (mb_reserved mb)" "PAGE_SIZE \<le> s" "l \<le> PHYS_ADDR_MAX - s"
  obtains addr where "double_find kmalloc RESERVED s l mb = Some addr"
    "\<And>x. addr \<noteq> 0 \<Longrightarrow> in_range addr (new_len RESERVED mb) x \<Longrightarrow> \<not> in_range s l x"
proof -
  have maps: "maps_ok mb" using assms(1-3) by (auto simp: mb_ok_def ty_ok_def)
  let ?len = "new_len RESERVED mb" and ?find = "\<lambda>st en. memblock_find_in_range mb st en (new_len RESERVED mb) PAGE_SIZE"
  obtain c where c: "?find (s + l) (mb_current_limit mb) = Some c" "c \<noteq> 0 \<Longrightarrow> s + l \<le> c"
    using find_in_range_sound [OF maps, of "s + l" "mb_current_limit mb" ?len PAGE_SIZE] by (auto simp: search_start_def)
  obtain d where d: "?find 0 (min s (mb_current_limit mb)) = Some d"
      "d \<noteq> 0 \<Longrightarrow> PAGE_SIZE \<le> d \<and> d \<le> search_end mb 0 (min s (mb_current_limit mb)) \<and> ?len \<le> search_end mb 0 (min s (mb_current_limit mb)) - d"
    using find_in_range_sound [OF maps, of 0 "min s (mb_current_limit mb)" ?len PAGE_SIZE] by (auto simp: search_start_def)
  have low: "search_end mb 0 (min s (mb_current_limit mb)) \<le> s"
  proof -
    have "1 < s" using less_le_trans [OF _ assms(4), of 1] by simp
    then have h: "mb_current_limit mb \<le> s" if "min s (mb_current_limit mb) = 0 \<or> min s (mb_current_limit mb) = 1"
      using that by (auto simp: min_def split: if_splits)
    have "(if min s (mb_current_limit mb) = 0 \<or> min s (mb_current_limit mb) = 1 then mb_current_limit mb else min s (mb_current_limit mb)) \<le> s" (is "(if ?P then _ else _) \<le> s")
    proof (cases ?P)
      case True
      show ?thesis using h [OF True] by (simp only: if_P [OF True])
    next
      case False
      show ?thesis by (simp only: if_not_P [OF False] min.cobounded1)
    qed
    moreover have "max 0 PAGE_SIZE \<le> s" using assms(4) by simp
    ultimately show ?thesis unfolding search_end_def search_start_def by (rule max.boundedI [rotated])
  qed
  have cap: "memblock_cap_size s l = l" using assms(5) by (simp add: memblock_cap_size_def min_def)
  have "\<not> in_range s l x" if "c \<noteq> 0" "in_range c ?len x" for x
    using in_range_diff [OF that(2)] c(2) [OF that(1)] by (auto simp: in_range_def cap)
  moreover have "\<not> in_range s l x" if z: "d \<noteq> 0" and x: "in_range d ?len x" for x
  proof -
    let ?e = "search_end mb 0 (min s (mb_current_limit mb))"
    have "x - d < ?e - d" "d \<le> x" using in_range_diff [OF x] d(2) [OF z] by auto
    then have "x < ?e" using d(2) [OF z] uint_diff [of d x] uint_diff [of d ?e] by (simp add: word_less_def)
    then show ?thesis using low by (auto simp: in_range_def)
  qed
  moreover have "double_find kmalloc RESERVED s l mb = Some (if c = 0 \<and> l \<noteq> 0 then d else c)"
    using c(1) d(1) assms(1) by (simp add: double_find_def Let_def mb_ok_def)
  ultimately show ?thesis by (intro that) (auto split: if_splits)
qed

text \<open>Freeing the old array when the new one has room.\<close>

lemma free_old_room:
  assumes "mb_ok mb1" "cnt (mb_reserved mb1) + 2 \<le> mt_max (mb_reserved mb1)"
  obtains r mb2 where "free_old dbl ty mb1 = Some (r, mb2)" "mb_ok mb2" "cnt (mb_reserved mb2) \<le> cnt (mb_reserved mb1) + 2"
    "mt_max (mb_reserved mb2) = mt_max (mb_reserved mb1)" "\<And>x. reserved_at mb1 x = None \<Longrightarrow> reserved_at mb2 x = None"
proof (cases "mt_array ty")
  case None
  then show ?thesis using assms by (intro that [of 0 mb1]) auto
next
  case (Some old)
  obtain mb2 where m: "memblock_remove_range dbl RESERVED old (PAGE_ALIGN (array_size ty)) mb1 = Some (0, mb2)"
      "sets_map RESERVED (removed old (PAGE_ALIGN (array_size ty)) (reserved_at mb1)) mb1 mb2" "cnt (mb_reserved mb2) \<le> cnt (mb_reserved mb1) + 2"
    using remove_range_room [of RESERVED mb1 dbl old "PAGE_ALIGN (array_size ty)"] mb_ok_ty [OF assms(1), of RESERVED] assms(2) by auto
  have "mt_max (mb_reserved mb2) = mt_max (mb_reserved mb1)" using m(2) by (auto simp: sets_map_def)
  then show ?thesis using Some m(1,3) sets_map_ok [OF assms(1) m(2)] sets_map_at [OF m(2)]
    by (intro that [of 0 mb2]) (auto simp: memblock_free_def removed_def)
qed

text \<open>A full reserved array is doubled, or stays as it is.\<close>

lemma double_reserved_returns:
  assumes "mb_ok mb" "few (mb_memory mb)" "few (mb_reserved mb)" "PAGE_SIZE \<le> s" "l \<le> PHYS_ADDR_MAX - s" "res_free mb s l"
  shows "\<exists>ok mb'. memblock_double_array kmalloc dbl RESERVED s l mb = Some (ok, mb') \<and> (\<not> ok \<longrightarrow> mb' = mb) \<and>
    (ok \<longrightarrow> mb_ok mb' \<and> cnt (mb_reserved mb') + 1 \<le> mt_max (mb_reserved mb') \<and> res_free mb' s l)"
proof (cases "mb_can_resize mb")
  case False
  then show ?thesis by (auto simp: memblock_double_array_def)
next
  case resize: True
  obtain addr where a: "double_find kmalloc RESERVED s l mb = Some addr"
      "\<And>x. addr \<noteq> 0 \<Longrightarrow> in_range addr (new_len RESERVED mb) x \<Longrightarrow> \<not> in_range s l x"
    by (rule double_find_avoids [OF assms(1-5)]) (rule that)
  show ?thesis
  proof (cases "addr = 0")
    case True
    then show ?thesis using a resize by (auto simp: memblock_double_array_def)
  next
    case False
    let ?mb1 = "moved RESERVED addr mb"
    have m1: "mb_ok ?mb1" "mt_regions (mb_reserved ?mb1) = mt_regions (mb_reserved mb)" "mt_max (mb_reserved ?mb1) = 2 * mt_max (mb_reserved mb)"
      by (rule moved_ok [OF assms(1)]) (simp_all add: moved_def)
    have c: "cnt (mb_reserved mb) \<le> mt_max (mb_reserved mb)" "4 \<le> mt_max (mb_reserved mb)" using assms(1) by (auto simp: mb_ok_def ty_ok_def)
    obtain r mb2 where m2: "free_old dbl (ty_of RESERVED mb) ?mb1 = Some (r, mb2)" "mb_ok mb2" "cnt (mb_reserved mb2) \<le> cnt (mb_reserved mb) + 2"
        "mt_max (mb_reserved mb2) = 2 * mt_max (mb_reserved mb)" "\<And>x. reserved_at mb x = None \<Longrightarrow> reserved_at mb2 x = None"
      by (rule free_old_room [OF m1(1), of dbl "ty_of RESERVED mb"]) (use m1(2,3) c in \<open>auto intro: that\<close>)
    have "res_free mb2 addr (new_len RESERVED mb)"
      using double_find_free(1) [OF a(1) False assms(1)] m2(5) in_range_diff by (auto simp: area_free_def)
    moreover have "cnt (mb_reserved mb2) < mt_max (mb_reserved mb2)" using m2(3,4) c by simp
    ultimately obtain mb3 where m3: "memblock_reserve dbl addr (new_len RESERVED mb) mb2 = Some (0, mb3)"
        "adds RESERVED addr (new_len RESERVED mb) MAX_NUMNODES 0 mb2 mb3" "cnt (mb_reserved mb3) \<le> cnt (mb_reserved mb2) + 1"
      using reserve_room [OF m2(2)] by metis
    have ok3: "mb_ok mb3" by (rule sets_map_ok [OF m2(2) m3(2)])
    have mx: "mt_max (mb_reserved mb3) = mt_max (mb_reserved mb2)" using m3(2) by (auto simp: sets_map_def)
    have fr: "reserved_at mb3 x = None" if "in_range s l x" for x
      using sets_map_at [OF m3(2), of x] m2(5) [of x] assms(6) a(2) [OF False, of x] that by (auto simp: added_def)
    have "memblock_double_array kmalloc dbl RESERVED s l mb = Some (True, mb3)"
      unfolding double_array_eq [OF assms(1) resize a(1) False] m2(1) option.case prod.case m3(1)
      using in_slab_same [of RESERVED mb3] ok3 by (simp add: mb_ok_def)
    then show ?thesis using ok3 fr m3(3) m2(3,4) c mx by auto
  qed
qed

lemma reserve_returns:
  assumes "mb_ok mb" "few (mb_memory mb)" "few (mb_reserved mb)" "PAGE_SIZE \<le> base" "len \<le> PHYS_ADDR_MAX - base" "res_free mb base len"
  shows "\<exists>ret mb'. memblock_reserve (double_array kmalloc (Suc n)) base len mb = Some (ret, mb') \<and> (ret = 0 \<or> ret = - ENOMEM \<and> mb' = mb)"
proof (cases "cnt (mb_reserved mb) < mt_max (mb_reserved mb)")
  case True
  then show ?thesis using reserve_room [OF assms(1,6), of "double_array kmalloc (Suc n)"] by metis
next
  case full: False
  let ?dbl = "double_array kmalloc (Suc n)" and ?ty = "mb_reserved mb"
  have cap: "memblock_cap_size base len = len" using assms(5) by (simp add: memblock_cap_size_def min_def)
  have c: "cnt ?ty = mt_max ?ty" "4 \<le> cnt ?ty" "ty_ok ?ty" using full assms(1) by (auto simp: mb_ok_def ty_ok_def)
  have ne: "\<not> no_regions (mt_regions ?ty)" using c(2) by (auto elim!: no_regionsE)
  show ?thesis
  proof (cases "len = 0")
    case True
    then show ?thesis using cap by (simp add: memblock_reserve_def memblock_add_range_def)
  next
    case l: False
    have lt: "base < base + len" using cap_size_end [of base len] l by (simp add: cap)
    have free: "attr_at (mt_regions ?ty) x = None" if "base \<le> x" "x < base + len" for x using assms(6) that by (simp add: in_range_def cap)
    have nr: "length (fill base (base + len) MAX_NUMNODES 0 (mt_regions ?ty)) - cnt ?ty = 1"
      using fill_free_length [of 0 "mt_regions ?ty" base "base + len" MAX_NUMNODES 0] lt free c(3) ne by (auto simp: ty_ok_def regions_ok_def)
    have e: "rgn_size (mt_regions ?ty ! 0) \<noteq> 0" using ty_ok_empty [OF c(3)] ne by simp
    obtain ok mb1 where d: "?dbl RESERVED base len mb = Some (ok, mb1)" "\<not> ok \<longrightarrow> mb1 = mb"
        "ok \<longrightarrow> mb_ok mb1 \<and> cnt (mb_reserved mb1) + 1 \<le> mt_max (mb_reserved mb1) \<and> res_free mb1 base len"
      using double_reserved_returns [OF assms, of kmalloc "double_array kmalloc n"] by auto
    have g: "grow_loop ?dbl RESERVED base len 1 mb = Some (ok, mb1)"
      using c(1) d grow_enough [of RESERVED mb1 1 ?dbl base len] by (cases ok; subst grow_loop.simps) (simp_all del: double_array.simps)
    show ?thesis
    proof (cases ok)
      case False
      then show ?thesis using l e nr g d(2) cap
        by (simp add: memblock_reserve_def memblock_add_range_def add_count Let_def del: double_array.simps)
    next
      case True
      let ?f = "fill base (base + len) MAX_NUMNODES 0 (mt_regions (mb_reserved mb1))"
      let ?ty2 = "(mb_reserved mb1)\<lparr>mt_regions := ?f, mt_total_size := mt_total_size (mb_reserved mb1) + (sizes ?f - sizes (mt_regions (mb_reserved mb1)))\<rparr>"
      have ok1: "ty_ok (mb_reserved mb1)" using d(3) True by (simp add: mb_ok_def)
      have "may_double 1 ?ty" using c(1) by (simp add: may_double_def)
      then have "\<not> no_regions (mt_regions (mb_reserved mb1))" using res.doubles [OF assms(1) _ d(1)] True by blast
      then have "regions_ok ?f" using ok1 fill_ok(1) by (auto simp: ty_ok_def regions_ok_def)
      moreover have "length ?f \<le> mt_max (mb_reserved mb1)"
        using fill_free_le [OF ok1 lt, of MAX_NUMNODES 0] d(3) True by (auto simp: in_range_def cap)
      ultimately have p: "add_range_pass True (ty_of RESERVED mb1) base (base + len) MAX_NUMNODES 0 = Some (?ty2, length ?f - cnt (mb_reserved mb1))"
          and m: "\<exists>ty3. memblock_merge_regions ?ty2 = Some ty3"
        using add_insert [of "mb_reserved mb1" base "base + len" MAX_NUMNODES 0] ok1 merge_ok [of ?ty2] by (auto simp: ty_ok_def Let_def)
      have "memblock_reserve ?dbl base len mb =
          (if length ?f - cnt (mb_reserved mb1) = 0 then Some (0, with_ty RESERVED ?ty2 mb1)
           else map_option (\<lambda>ty3. (0, with_ty RESERVED ty3 mb1)) (memblock_merge_regions ?ty2))"
        using l e nr g True p cap by (simp add: memblock_reserve_def memblock_add_range_def add_count Let_def del: double_array.simps)
      then show ?thesis using m by auto
    qed
  qed
qed

text \<open>An allocation returns, and one that fails leaves the allocator as it was.\<close>

definition returns :: "memblock \<Rightarrow> (phys_addr \<times> memblock) option \<Rightarrow> bool" where
  "returns mb res \<longleftrightarrow> (case res of None \<Rightarrow> False | Some (c, mb') \<Rightarrow> c = 0 \<longrightarrow> mb' = mb)"

lemma alloc_node_returns:
  assumes "mb_ok mb" "few (mb_memory mb)" "few (mb_reserved mb)"
  shows "returns mb (alloc_on_node (double_array kmalloc (Suc n)) len align start end nid flags mb)"
proof -
  have "maps_ok mb" using assms by (auto simp: mb_ok_def ty_ok_def)
  from find_in_range_node_sound [OF this, of len align start "end" nid flags] obtain c where
    c: "memblock_find_in_range_node mb len align start end nid flags = Some c"
      "c \<noteq> 0 \<Longrightarrow> area_free mb nid flags c len \<and> search_start start \<le> c \<and> c \<le> search_end mb start end \<and> len \<le> search_end mb start end - c" by blast
  show ?thesis
  proof (cases "c = 0")
    case True
    then show ?thesis using c(1) by (simp add: alloc_on_node_def returns_def)
  next
    case False
    have "PAGE_SIZE \<le> c" using c(2) [OF False] by (simp add: search_start_def)
    moreover have "len \<le> PHYS_ADDR_MAX - c" using c(2) [OF False] limit_to_max by blast
    moreover have "res_free mb c len" using c(2) [OF False] in_range_diff by (auto simp: area_free_def)
    ultimately obtain ret mb' where "memblock_reserve (double_array kmalloc (Suc n)) c len mb = Some (ret, mb')" "ret = 0 \<or> ret = - ENOMEM \<and> mb' = mb"
      using reserve_returns [OF assms] by blast
    then show ?thesis using c(1) False by (auto simp: alloc_on_node_def returns_def)
  qed
qed

lemma returnsE:
  assumes "returns mb res"
  obtains c mb' where "res = Some (c, mb')" "c = 0 \<longrightarrow> mb' = mb"
  using assms by (auto simp: returns_def split: option.splits)

lemma alloc_attempt_returns:
  assumes "mb_ok mb" "few (mb_memory mb)" "few (mb_reserved mb)"
  shows "returns mb (alloc_attempt (double_array kmalloc (Suc n)) len align start end nid exact_nid flags mb)"
proof -
  note r = alloc_node_returns [OF assms, of kmalloc n len align start "end" _ flags]
  from r [of nid] obtain c mb' where "alloc_on_node (double_array kmalloc (Suc n)) len align start end nid flags mb = Some (c, mb')" "c = 0 \<longrightarrow> mb' = mb"
    by (rule returnsE)
  then show ?thesis using r [of NUMA_NO_NODE] by (auto simp: alloc_attempt_def returns_def simp del: double_array.simps)
qed

lemma alloc_range_returns:
  assumes "mb_ok mb" "few (mb_memory mb)" "few (mb_reserved mb)"
  shows "returns mb (memblock_alloc_range_nid (double_array kmalloc (Suc n)) len align start end nid exact_nid mb)"
proof -
  let ?nid = "if nid = MAX_NUMNODES then NUMA_NO_NODE else nid" and ?align = "if align = 0 then SMP_CACHE_BYTES else align"
  let ?a = "alloc_attempt (double_array kmalloc (Suc n)) len ?align start end ?nid exact_nid"
  note r = alloc_attempt_returns [OF assms, of kmalloc n len ?align start "end" ?nid exact_nid]
  from r [of "choose_memblock_flags mb"] obtain c mb' where c: "?a (choose_memblock_flags mb) mb = Some (c, mb')" "c = 0 \<longrightarrow> mb' = mb"
    by (rule returnsE)
  have "memblock_alloc_range_nid (double_array kmalloc (Suc n)) len align start end nid exact_nid mb =
      (if c = 0 \<and> choose_memblock_flags mb AND MEMBLOCK_MIRROR \<noteq> 0 then ?a (choose_memblock_flags mb AND NOT MEMBLOCK_MIRROR) mb' else Some (c, mb'))"
    unfolding memblock_alloc_range_nid_def Let_def c(1) by simp
  then show ?thesis using r [of "choose_memblock_flags mb AND NOT MEMBLOCK_MIRROR"] c(2)
    by (auto simp: returns_def simp del: double_array.simps)
qed

end
