(* ===== verification/Memblock_Query.thy ===== *)
theory Memblock_Query
  imports Memblock_Alloc
begin

text \<open>
  The rest of \<^verbatim>\<open>mm/memblock.c\<close>: lookups by binary search, the memory limits, trimming to an alignment,
  the sizes, and the iterator over page frames. The search is shown to be the linear one, the size of a
  type to be the number of addresses it covers, and a limit to leave exactly that much memory.
\<close>

unbundle bit_operations_syntax

section \<open>Looking up an address\<close>

text \<open>
  The binary search, on \<^verbatim>\<open>unsigned int\<close> indices. \<open>None\<close> is a search that does not end; the result
  \<open>Some None\<close> is the code's \<open>-1\<close>.
\<close>

partial_function (option) search_loop :: "memblock_type \<Rightarrow> phys_addr \<Rightarrow> u32 \<Rightarrow> u32 \<Rightarrow> nat option option" where
  "search_loop ty addr left right =
    (let mid = (right + left) div 2; r = mt_regions ty ! unat mid in
     if addr < rgn_base r then
       (if left < mid then search_loop ty addr left mid else Some None)
     else if addr \<ge> rgn_end r then
       (if mid + 1 < right then search_loop ty addr (mid + 1) right else Some None)
     else Some (Some (unat mid)))"

definition memblock_search :: "memblock_type \<Rightarrow> phys_addr \<Rightarrow> nat option option" where
  "memblock_search ty addr = search_loop ty addr 0 (word_of_nat (cnt ty))"

definition memblock_is_reserved :: "memblock \<Rightarrow> phys_addr \<Rightarrow> bool option" where
  "memblock_is_reserved mb addr = map_option (\<lambda>i. i \<noteq> None) (memblock_search (mb_reserved mb) addr)"

definition memblock_is_memory :: "memblock \<Rightarrow> phys_addr \<Rightarrow> bool option" where
  "memblock_is_memory mb addr = map_option (\<lambda>i. i \<noteq> None) (memblock_search (mb_memory mb) addr)"

definition memblock_is_map_memory :: "memblock \<Rightarrow> phys_addr \<Rightarrow> bool option" where
  "memblock_is_map_memory mb addr =
    map_option (\<lambda>i. case i of None \<Rightarrow> False | Some k \<Rightarrow> \<not> memblock_is_nomap (mt_regions (mb_memory mb) ! k))
      (memblock_search (mb_memory mb) addr)"

abbreviation (input) PAGE_SHIFT :: nat where "PAGE_SHIFT \<equiv> 12"

text \<open>The node and the page frames of the region, \<open>Some None\<close> for the code's \<open>-1\<close>.\<close>

definition memblock_search_pfn_nid :: "memblock \<Rightarrow> u64 \<Rightarrow> (s32 \<times> u64 \<times> u64) option option" where
  "memblock_search_pfn_nid mb pfn =
    map_option (map_option (\<lambda>k. let r = mt_regions (mb_memory mb) ! k
        in (rgn_nid r, drop_bit PAGE_SHIFT (rgn_base r), drop_bit PAGE_SHIFT (rgn_end r))))
      (memblock_search (mb_memory mb) (push_bit PAGE_SHIFT pfn))"

definition memblock_is_region_memory :: "memblock \<Rightarrow> phys_addr \<Rightarrow> phys_addr \<Rightarrow> bool option" where
  "memblock_is_region_memory mb base len =
    map_option (\<lambda>i. case i of None \<Rightarrow> False | Some k \<Rightarrow> rgn_end (mt_regions (mb_memory mb) ! k) \<ge> base + memblock_cap_size base len)
      (memblock_search (mb_memory mb) base)"

definition memblock_is_region_reserved :: "memblock \<Rightarrow> phys_addr \<Rightarrow> phys_addr \<Rightarrow> bool" where
  "memblock_is_region_reserved mb base len = memblock_overlaps_region (mb_reserved mb) base len"

text \<open>The search finds the region of an address, if there is one.\<close>

lemma regions_ok_nth_mono:
  assumes "regions_ok rs" "i < j" "j < length rs"
  shows "rgn_end (rs ! i) \<le> rgn_base (rs ! j)"
proof (cases "no_regions rs")
  case True
  then show ?thesis using assms by (auto elim!: no_regionsE)
next
  case False
  then have "sorted_wrt (\<lambda>m m'. rgn_end m \<le> rgn_base m') rs" using assms(1) chain_regions [of 0 rs] by (auto simp: regions_ok_def)
  from sorted_wrt_nth_less [OF this assms(2,3)] show ?thesis .
qed

lemma regions_ok_nth_le: "regions_ok rs \<Longrightarrow> i < length rs \<Longrightarrow> rgn_base (rs ! i) \<le> rgn_end (rs ! i)"
  by (metis ascending_def nth_mem regions_ok_ascending)

definition hits :: "memblock_region list \<Rightarrow> phys_addr \<Rightarrow> nat \<Rightarrow> bool" where
  "hits rs x k \<longleftrightarrow> k < length rs \<and> rgn_base (rs ! k) \<le> x \<and> x < rgn_end (rs ! k)"

lemma hits_unique: "regions_ok rs \<Longrightarrow> hits rs x i \<Longrightarrow> hits rs x j \<Longrightarrow> i = j"
proof (rule ccontr)
  assume ok: "regions_ok rs" and h: "hits rs x i" "hits rs x j" and "i \<noteq> j"
  then consider "i < j" | "j < i" by linarith
  then show False
    using regions_ok_nth_mono [OF ok, of i j] regions_ok_nth_mono [OF ok, of j i] h by cases (auto simp: hits_def)
qed

lemma search_loop_correct:
  assumes "regions_ok (mt_regions ty)" "few ty" "unat left < unat right" "unat right \<le> cnt ty"
    and "\<And>k. hits (mt_regions ty) x k \<Longrightarrow> unat left \<le> k \<and> k < unat right"
  shows "\<exists>res. search_loop ty x left right = Some res \<and>
    (case res of None \<Rightarrow> \<forall>k. \<not> hits (mt_regions ty) x k | Some k \<Rightarrow> hits (mt_regions ty) x k)"
  using assms(3-)
proof (induction "unat right - unat left" arbitrary: left right rule: less_induct)
  case less
  let ?mid = "(right + left) div 2" and ?rs = "mt_regions ty"
  have "unat right + unat left < 2 ^ 32" using less.prems(1,2) assms(2) by (simp add: few_def)
  then have mid: "unat ?mid = (unat right + unat left) div 2" by (simp add: unat_div unat_add_lem [THEN iffD1])
  let ?r = "?rs ! unat ?mid"
  have m: "unat left \<le> unat ?mid" "unat ?mid < unat right" "unat ?mid < cnt ty" using mid less.prems by auto
  have s: "unat (?mid + 1) = unat ?mid + 1"
    using m(3) assms(2) by (subst unat_add_lem [THEN iffD1]) (simp_all add: few_def)
  have low: "k < unat ?mid" if "hits ?rs x k" "x < rgn_base ?r" for k
    using regions_ok_nth_mono [OF assms(1), of "unat ?mid" k] regions_ok_nth_le [OF assms(1) m(3)] that
    by (force simp: hits_def not_less le_less)
  have high: "unat ?mid < k" if "hits ?rs x k" "rgn_end ?r \<le> x" for k
    using regions_ok_nth_mono [OF assms(1), of k "unat ?mid"] regions_ok_nth_le [OF assms(1) m(3)] m(3) that
    by (force simp: hits_def not_less le_less)
  consider (low) "x < rgn_base ?r" | (high) "\<not> x < rgn_base ?r" "rgn_end ?r \<le> x" | (found) "\<not> x < rgn_base ?r" "\<not> rgn_end ?r \<le> x" by blast
  then show ?case
  proof cases
    case c: low
    show ?thesis
    proof (cases "left < ?mid")
      case True
      then show ?thesis using less.hyps [of ?mid left] less.prems m low [OF _ c] c
        by (subst search_loop.simps) (simp add: word_less_nat_alt Let_def)
    next
      case False
      then show ?thesis using c low less.prems(3) m by (subst search_loop.simps) (fastforce simp: word_less_nat_alt Let_def)
    qed
  next
    case c: high
    show ?thesis
    proof (cases "?mid + 1 < right")
      case True
      then show ?thesis using less.hyps [of right "?mid + 1"] less.prems m s high [OF _ c(2)] c
        by (subst search_loop.simps) (simp add: word_less_nat_alt Let_def Suc_le_eq)
    next
      case False
      then show ?thesis using c high less.prems(3) m s by (subst search_loop.simps) (fastforce simp: word_less_nat_alt Let_def)
    qed
  next
    case found
    then show ?thesis using m by (subst search_loop.simps) (auto simp: hits_def Let_def)
  qed
qed

text \<open>The reference: the first region that holds the address.\<close>

fun linear_search :: "memblock_region list \<Rightarrow> phys_addr \<Rightarrow> nat option" where
  "linear_search [] x = None"
| "linear_search (r # rs) x = (if rgn_base r \<le> x \<and> x < rgn_end r then Some 0 else map_option Suc (linear_search rs x))"

lemma linear_search_hits: "(case linear_search rs x of None \<Rightarrow> \<forall>k. \<not> hits rs x k | Some k \<Rightarrow> hits rs x k)"
proof (induction rs)
  case (Cons r rs)
  have "hits (r # rs) x k \<longleftrightarrow> (case k of 0 \<Rightarrow> rgn_base r \<le> x \<and> x < rgn_end r | Suc j \<Rightarrow> hits rs x j)" for k
    by (auto simp: hits_def split: nat.splits)
  then show ?case using Cons by (auto split: option.splits nat.splits)
qed (simp add: hits_def)

lemma memblock_search_linear:
  assumes "regions_ok (mt_regions ty)" "few ty"
  shows "memblock_search ty x = Some (linear_search (mt_regions ty) x)"
proof -
  have u: "unat (word_of_nat (cnt ty) :: u32) = cnt ty" using assms(2) by (simp add: unsigned_of_nat take_bit_nat_eq_self few_def)
  moreover have "0 < cnt ty" using assms(1) by (auto simp: regions_ok_def)
  ultimately obtain res where "memblock_search ty x = Some res"
      "case res of None \<Rightarrow> \<forall>k. \<not> hits (mt_regions ty) x k | Some k \<Rightarrow> hits (mt_regions ty) x k"
    using search_loop_correct [OF assms, of 0 "word_of_nat (cnt ty)" x] by (auto simp: memblock_search_def hits_def)
  then show ?thesis using linear_search_hits [of "mt_regions ty" x] hits_unique [OF assms(1), of x]
    by (auto split: option.splits)
qed

lemma linear_search_attr: "attr_at rs x = map_option (\<lambda>k. (rgn_flags (rs ! k), rgn_nid (rs ! k))) (linear_search rs x)"
  by (induction rs) (auto simp: option.map_comp o_def)

section \<open>Limits and alignment\<close>

fun find_max_addr :: "phys_addr \<Rightarrow> memblock_region list \<Rightarrow> phys_addr" where
  "find_max_addr limit [] = PHYS_ADDR_MAX"
| "find_max_addr limit (r # rs) = (if limit \<le> rgn_size r then rgn_base r + limit else find_max_addr (limit - rgn_size r) rs)"

definition uu_find_max_addr :: "memblock \<Rightarrow> phys_addr \<Rightarrow> phys_addr" where
  "uu_find_max_addr mb limit = find_max_addr limit (mt_regions (mb_memory mb))"

definition memblock_enforce_memory_limit :: "dbl \<Rightarrow> phys_addr \<Rightarrow> memblock \<Rightarrow> memblock option" where
  "memblock_enforce_memory_limit dbl limit mb =
    (if limit = 0 then Some mb
     else
       let max_addr = uu_find_max_addr mb limit in
       if max_addr = PHYS_ADDR_MAX then Some mb
       else case memblock_remove_range dbl MEMORY max_addr PHYS_ADDR_MAX mb of
              None \<Rightarrow> None
            | Some (_, mb1) \<Rightarrow> map_option snd (memblock_remove_range dbl RESERVED max_addr PHYS_ADDR_MAX mb1))"

text \<open>The loops that remove the regions \<open>lo + n - 1\<close> down to \<open>lo\<close> that are mapped.\<close>

primrec remove_mapped :: "memblock_type \<Rightarrow> nat \<Rightarrow> nat \<Rightarrow> memblock_type" where
  "remove_mapped ty lo 0 = ty"
| "remove_mapped ty lo (Suc n) =
    remove_mapped (if memblock_is_nomap (mt_regions ty ! (lo + n)) then ty else memblock_remove_region ty (lo + n)) lo n"

definition memblock_cap_memory_range :: "dbl \<Rightarrow> phys_addr \<Rightarrow> phys_addr \<Rightarrow> memblock \<Rightarrow> memblock option" where
  "memblock_cap_memory_range dbl base len mb =
    (if len = 0 then Some mb
     else case memblock_isolate_range dbl MEMORY base len mb of
       None \<Rightarrow> None
     | Some (ret, start_rgn, end_rgn, mb1) \<Rightarrow>
         if ret \<noteq> 0 then Some mb1
         else
           let ty1 = remove_mapped (mb_memory mb1) end_rgn (cnt (mb_memory mb1) - end_rgn);
               ty2 = remove_mapped ty1 0 start_rgn
           in case memblock_remove_range dbl RESERVED 0 base (mb1\<lparr>mb_memory := ty2\<rparr>) of
                None \<Rightarrow> None
              | Some (_, mb2) \<Rightarrow> map_option snd (memblock_remove_range dbl RESERVED (base + len) PHYS_ADDR_MAX mb2))"

definition memblock_mem_limit_remove_map :: "dbl \<Rightarrow> phys_addr \<Rightarrow> memblock \<Rightarrow> memblock option" where
  "memblock_mem_limit_remove_map dbl limit mb =
    (if limit = 0 then Some mb
     else
       let max_addr = uu_find_max_addr mb limit in
       if max_addr = PHYS_ADDR_MAX then Some mb
       else memblock_cap_memory_range dbl 0 max_addr mb)"

text \<open>
  The loop of \<^verbatim>\<open>memblock_trim_memory\<close>. When the last region is removed, the loop goes over the empty
  region that takes its place.
\<close>

definition trim_weight :: "memblock_region \<Rightarrow> nat" where
  "trim_weight r = 1 + of_bool (rgn_base r \<noteq> 0 \<or> rgn_end r \<noteq> 0)"

function trim_loop :: "memblock_type \<Rightarrow> nat \<Rightarrow> phys_addr \<Rightarrow> memblock_type" where
  "trim_loop ty idx align =
    (if idx < cnt ty then
       let r = mt_regions ty ! idx; start = round_up (rgn_base r) align; end = round_down (rgn_end r) align in
       if start = rgn_base r \<and> end = rgn_end r then trim_loop ty (idx + 1) align
       else if start < end then
         trim_loop (ty\<lparr>mt_regions := (mt_regions ty)[idx := r\<lparr>rgn_base := start, rgn_size := end - start\<rparr>]\<rparr>) (idx + 1) align
       else trim_loop (memblock_remove_region ty idx) idx align
     else ty)"
  by pat_completeness auto
termination
proof (relation "measure (\<lambda>(ty, idx, align). sum_list (map trim_weight (drop idx (mt_regions ty))))", goal_cases)
  case (2 ty idx align r start "end")
  then show ?case by (simp add: Cons_nth_drop_Suc [symmetric] trim_weight_def)
next
  case (3 ty idx align r start "end")
  then show ?case by (simp add: Cons_nth_drop_Suc [symmetric] trim_weight_def drop_update_cancel)
next
  case (4 ty idx align r start "end")
  have z: "rgn_base r \<noteq> 0 \<or> rgn_end r \<noteq> 0"
  proof (rule ccontr)
    assume "\<not> ?thesis"
    then show False using 4(2-5) by (simp add: round_up_def round_down_def)
  qed
  have d: "drop idx (mt_regions ty) = r # drop (Suc idx) (mt_regions ty)" using 4(1,2) by (simp add: Cons_nth_drop_Suc)
  have "mt_regions (memblock_remove_region ty idx) =
      (if cnt ty = 1 then [empty_region] else take idx (mt_regions ty) @ drop (Suc idx) (mt_regions ty))"
    using 4(1) by (auto simp: memblock_remove_region_def Let_def le_Suc_eq)
  then show ?case using z d 4(1) by (auto simp: trim_weight_def empty_region_def rgn_end_def)
qed simp

definition memblock_trim_memory :: "phys_addr \<Rightarrow> memblock \<Rightarrow> memblock" where
  "memblock_trim_memory align mb = mb\<lparr>mb_memory := trim_loop (mb_memory mb) 0 align\<rparr>"

section \<open>Accessors and the page frame iterator\<close>

definition memblock_phys_mem_size :: "memblock \<Rightarrow> phys_addr" where
  "memblock_phys_mem_size mb = mt_total_size (mb_memory mb)"

definition memblock_reserved_size :: "memblock \<Rightarrow> phys_addr" where
  "memblock_reserved_size mb = mt_total_size (mb_reserved mb)"

definition memblock_start_of_DRAM :: "memblock \<Rightarrow> phys_addr" where
  "memblock_start_of_DRAM mb = rgn_base (mt_regions (mb_memory mb) ! 0)"

definition memblock_end_of_DRAM :: "memblock \<Rightarrow> phys_addr" where
  "memblock_end_of_DRAM mb = rgn_end (mt_regions (mb_memory mb) ! (cnt (mb_memory mb) - 1))"

definition PFN_UP :: "phys_addr \<Rightarrow> u64" where
  "PFN_UP x = drop_bit PAGE_SHIFT (x + PAGE_SIZE - 1)"

definition PFN_DOWN :: "phys_addr \<Rightarrow> u64" where
  "PFN_DOWN x = drop_bit PAGE_SHIFT x"

text \<open>The next region from index \<open>idx\<close> on that holds a whole page of the node; \<open>None\<close> ends the iteration.\<close>

function pfn_range_loop :: "memblock_type \<Rightarrow> nat \<Rightarrow> s32 \<Rightarrow> (nat \<times> u64 \<times> u64 \<times> s32) option" where
  "pfn_range_loop ty idx nid =
    (if idx < cnt ty then
       let r = mt_regions ty ! idx in
       if PFN_UP (rgn_base r) \<ge> PFN_DOWN (rgn_end r) then pfn_range_loop ty (idx + 1) nid
       else if nid = MAX_NUMNODES \<or> nid = rgn_nid r
       then Some (idx, PFN_UP (rgn_base r), PFN_DOWN (rgn_end r), rgn_nid r)
       else pfn_range_loop ty (idx + 1) nid
     else None)"
  by pat_completeness auto
termination
  by (relation "measure (\<lambda>(ty, idx, nid). cnt ty - idx)") auto

definition uu_next_mem_pfn_range :: "memblock \<Rightarrow> int \<Rightarrow> s32 \<Rightarrow> (nat \<times> u64 \<times> u64 \<times> s32) option" where
  "uu_next_mem_pfn_range mb idx nid = pfn_range_loop (mb_memory mb) (nat (idx + 1)) nid"

declare trim_loop.simps [simp del] pfn_range_loop.simps [simp del]

text \<open>The size of a type is the number of addresses it covers.\<close>

lemma card_word_interval: "(a :: 'a::len word) \<le> b \<Longrightarrow> card {x. a \<le> x \<and> x < b} = unat (b - a)"
proof -
  assume ab: "a \<le> b"
  have "unat ` {x. a \<le> x \<and> x < b} = {unat a..<unat b}"
  proof -
    have "n \<in> unat ` {x. a \<le> x \<and> x < b}" if "unat a \<le> n" "n < unat b" for n
    proof -
      have "unat (word_of_nat n :: 'a word) = n" using less_trans [OF that(2) unsigned_less [of b]] by (simp add: unsigned_of_nat take_bit_nat_eq_self)
      then show ?thesis using that by (intro image_eqI [of _ _ "word_of_nat n"]) (auto simp: word_le_nat_alt word_less_nat_alt)
    qed
    then show ?thesis by (auto simp: word_le_nat_alt word_less_nat_alt)
  qed
  moreover have "inj_on unat {x. a \<le> x \<and> x < b}" by (auto simp: inj_on_def word_unat_eq_iff)
  ultimately have "card {x. a \<le> x \<and> x < b} = unat b - unat a" by (metis card_atLeastLessThan card_image)
  then show ?thesis using ab by (simp add: unat_sub)
qed

lemma sizes_card: "chain lo rs \<Longrightarrow> sizes rs = word_of_nat (card {x. attr_at rs x \<noteq> None})"
proof (induction rs arbitrary: lo)
  case (Cons r rs)
  let ?I = "{x. rgn_base r \<le> x \<and> x < rgn_end r}" and ?S = "{x. attr_at rs x \<noteq> None}"
  have c: "chain (rgn_end r) rs" "rgn_base r \<le> rgn_end r" using Cons.prems by auto
  have d: "?I \<inter> ?S = {}" using attr_at_below [OF c(1)] by auto
  have "{x. attr_at (r # rs) x \<noteq> None} = ?I \<union> ?S" by auto
  moreover have "card (?I \<union> ?S) = card ?I + card ?S" using d by (intro card_Un_disjoint) auto
  moreover have "card ?I = unat (rgn_size r)" using card_word_interval [OF c(2)] by (simp add: rgn_end_def)
  ultimately show ?case using Cons.IH [OF c(1)] by simp
qed simp

lemma ty_ok_size: "ty_ok ty \<Longrightarrow> mt_total_size ty = word_of_nat (card {x. attr_at (mt_regions ty) x \<noteq> None})"
proof (cases "no_regions (mt_regions ty)")
  case True
  assume "ty_ok ty"
  moreover obtain r where r: "mt_regions ty = [r]" "rgn_size r = 0" "rgn_end r = 0" using True by (rule no_regionsE)
  ultimately show ?thesis by (simp add: ty_ok_def)
next
  case False
  then show "ty_ok ty \<Longrightarrow> ?thesis" using sizes_card [of 0 "mt_regions ty"] by (auto simp: ty_ok_def regions_ok_def)
qed

text \<open>The memory below the limit.\<close>

lemma part_of_region:
  assumes "rgn_base r < rgn_end r" "l \<le> rgn_size r"
  shows "rgn_base r \<le> rgn_base r + l \<and> rgn_base r + l \<le> rgn_end r"
proof -
  have "uint (rgn_size r) = uint (rgn_end r) - uint (rgn_base r)"
    using uint_diff [of "rgn_base r" "rgn_end r"] assms(1) by (simp add: rgn_end_def)
  then have le: "uint (rgn_base r) + uint l \<le> uint (rgn_end r)" using assms(2) by (simp add: word_le_def)
  then have "uint (rgn_base r) + uint l < 2 ^ LENGTH(64)" using uint_lt2p [of "rgn_end r"] by linarith
  then have "uint (rgn_base r + l) = uint (rgn_base r) + uint l" by (rule iffD1 [OF uint_add_lem])
  then show ?thesis using le by (simp add: word_le_def)
qed

lemma find_max_addr_size:
  assumes "chain lo rs" and "find_max_addr limit rs \<noteq> PHYS_ADDR_MAX"
  shows "lo \<le> find_max_addr limit rs \<and> word_of_nat (card {x. attr_at rs x \<noteq> None \<and> x < find_max_addr limit rs}) = limit"
  using assms
proof (induction rs arbitrary: lo limit)
  case (Cons r rs)
  let ?m = "find_max_addr limit (r # rs)"
  have c: "chain (rgn_end r) rs" "lo \<le> rgn_base r" "rgn_base r < rgn_end r" using Cons.prems by simp_all
  show ?case
  proof (cases "limit \<le> rgn_size r")
    case True
    have e: "rgn_base r \<le> rgn_base r + limit" "rgn_base r + limit \<le> rgn_end r" using part_of_region [OF c(3) True] by auto
    have "{x. attr_at (r # rs) x \<noteq> None \<and> x < ?m} = {x. rgn_base r \<le> x \<and> x < rgn_base r + limit}"
      using True e attr_at_below [OF c(1)] by auto
    then show ?thesis using card_word_interval [OF e(1)] c e True by simp
  next
    case False
    let ?n = "find_max_addr (limit - rgn_size r) rs"
    have IH: "rgn_end r \<le> ?n" "word_of_nat (card {x. attr_at rs x \<noteq> None \<and> x < ?n}) = limit - rgn_size r"
      using Cons.IH [OF c(1), of "limit - rgn_size r"] Cons.prems False by simp_all
    let ?I = "{x. rgn_base r \<le> x \<and> x < rgn_end r}" and ?S = "{x. attr_at rs x \<noteq> None \<and> x < ?n}"
    have "{x. attr_at (r # rs) x \<noteq> None \<and> x < ?m} = ?I \<union> ?S" using False IH(1) by auto
    moreover have "card (?I \<union> ?S) = card ?I + card ?S" using attr_at_below [OF c(1)] by (intro card_Un_disjoint) auto
    moreover have "card ?I = unat (rgn_size r)" using card_word_interval [of "rgn_base r" "rgn_end r"] c(3) by (simp add: rgn_end_def)
    ultimately show ?thesis using IH False c by simp
  qed
qed simp

lemma attr_at_top: "attr_at rs PHYS_ADDR_MAX = None"
  by (induction rs) auto

lemma in_range_to_top: "in_range base PHYS_ADDR_MAX x \<longleftrightarrow> base \<le> x \<and> x < PHYS_ADDR_MAX"
proof -
  have "memblock_cap_size base PHYS_ADDR_MAX = PHYS_ADDR_MAX - base"
    unfolding memblock_cap_size_def by (rule min.absorb2 [OF word_order.extremum])
  then show ?thesis by (simp add: in_range_def)
qed

lemma removed_to_top: "removed base PHYS_ADDR_MAX (attr_at rs) x = (if x < base then attr_at rs x else None)"
  using attr_at_top [of rs] by (cases "x = PHYS_ADDR_MAX") (auto simp: removed_def in_range_to_top word_order.not_eq_extremum)

lemma enforce_limit:
  assumes "mb_ok mb" and "cnt (mb_memory mb) + 2 \<le> mt_max (mb_memory mb)" "cnt (mb_reserved mb) + 2 \<le> mt_max (mb_reserved mb)"
    and "limit \<noteq> 0" "uu_find_max_addr mb limit \<noteq> PHYS_ADDR_MAX"
  shows "\<exists>mb'. memblock_enforce_memory_limit dbl limit mb = Some mb' \<and> mb_ok mb' \<and> memblock_phys_mem_size mb' = limit \<and>
    (\<forall>x. memory_at mb' x = (if x < uu_find_max_addr mb limit then memory_at mb x else None)) \<and>
    (\<forall>x. reserved_at mb' x = (if x < uu_find_max_addr mb limit then reserved_at mb x else None))"
proof -
  let ?m = "uu_find_max_addr mb limit"
  obtain mb1 where r1: "memblock_remove_range dbl MEMORY ?m PHYS_ADDR_MAX mb = Some (0, mb1)"
      "sets_map MEMORY (removed ?m PHYS_ADDR_MAX (memory_at mb)) mb mb1"
    using remove_range_room [of MEMORY mb dbl ?m PHYS_ADDR_MAX] mb_ok_ty [OF assms(1), of MEMORY] assms(2) by auto
  note ok1 = sets_map_ok [OF assms(1) r1(2)]
  have same: "mb_reserved mb1 = mb_reserved mb" using r1(2) by (auto simp: sets_map_def)
  obtain mb2 where r2: "memblock_remove_range dbl RESERVED ?m PHYS_ADDR_MAX mb1 = Some (0, mb2)"
      "sets_map RESERVED (removed ?m PHYS_ADDR_MAX (reserved_at mb1)) mb1 mb2"
    using remove_range_room [of RESERVED mb1 dbl ?m PHYS_ADDR_MAX] mb_ok_ty [OF ok1, of RESERVED] assms(3) by (auto simp: same)
  have ok2: "mb_ok mb2" by (rule sets_map_ok [OF ok1 r2(2)])
  have mem: "mb_memory mb2 = mb_memory mb1" using r2(2) by (auto simp: sets_map_def)
  have at: "memory_at mb2 x = (if x < ?m then memory_at mb x else None)" for x
    using sets_map_at [OF r1(2), of x] by (simp add: removed_to_top mem)
  have "chain 0 (mt_regions (mb_memory mb))"
  proof (rule ccontr)
    assume "\<not> ?thesis"
    then have "no_regions (mt_regions (mb_memory mb))" using assms(1) by (auto simp: mb_ok_def ty_ok_def regions_ok_def)
    then show False using assms(4,5) by (auto simp: uu_find_max_addr_def elim!: no_regionsE)
  qed
  from find_max_addr_size [OF this assms(5) [unfolded uu_find_max_addr_def]]
  have "word_of_nat (card {x. memory_at mb x \<noteq> None \<and> x < ?m}) = limit" by (simp add: uu_find_max_addr_def)
  moreover have "{x. memory_at mb2 x \<noteq> None} = {x. memory_at mb x \<noteq> None \<and> x < ?m}" unfolding at by auto
  ultimately have "memblock_phys_mem_size mb2 = limit"
    using ty_ok_size [OF mb_ok_ty [OF ok2, of MEMORY]] by (simp add: memblock_phys_mem_size_def)
  moreover have "reserved_at mb2 x = (if x < ?m then reserved_at mb x else None)" for x
    using sets_map_at [OF r2(2), of x] by (simp add: removed_to_top same)
  moreover have "memblock_enforce_memory_limit dbl limit mb = Some mb2"
    using assms(4,5) r1(1) r2(1) by (simp add: memblock_enforce_memory_limit_def Let_def)
  ultimately show ?thesis using ok2 at by blast
qed

text \<open>Overlap with a type, for a range that is not empty.\<close>

lemma overlaps_iff:
  assumes "regions_ok (mt_regions ty)" "memblock_cap_size base len \<noteq> 0"
  shows "memblock_overlaps_region ty base len \<longleftrightarrow> (\<exists>x. in_range base len x \<and> attr_at (mt_regions ty) x \<noteq> None)"
proof -
  let ?e = "base + memblock_cap_size base len"
  have e: "base < ?e" by (rule cap_size_end [OF assms(2)])
  have ne: "rgn_base r < rgn_end r \<or> rgn_end r = 0" if "r \<in> set (mt_regions ty)" for r
    using assms(1) chain_regions [of 0 "mt_regions ty"] that by (auto simp: regions_ok_def elim!: no_regionsE)
  have r: "(base < rgn_end r \<and> rgn_base r < ?e) \<longleftrightarrow> (\<exists>x. base \<le> x \<and> x < ?e \<and> rgn_base r \<le> x \<and> x < rgn_end r)" if "r \<in> set (mt_regions ty)" for r
  proof
    assume a: "base < rgn_end r \<and> rgn_base r < ?e"
    then show "\<exists>x. base \<le> x \<and> x < ?e \<and> rgn_base r \<le> x \<and> x < rgn_end r" using ne [OF that] e by (intro exI [of _ "max base (rgn_base r)"]) auto
  qed auto
  have "memblock_overlaps_region ty base len \<longleftrightarrow> (\<exists>r \<in> set (mt_regions ty). base < rgn_end r \<and> rgn_base r < ?e)"
    by (auto simp: memblock_overlaps_region_def memblock_addrs_overlap_def list_ex_iff rgn_end_def Let_def)
  then show ?thesis using r regions_ok_attr [OF assms(1)] by (fastforce simp: in_range_def)
qed

end
