(* ===== verification/Memblock_Theorems.thy ===== *)
theory Memblock_Theorems
  imports Memblock_Query
begin

text \<open>
  What \<^verbatim>\<open>mm/memblock.c\<close> promises: the states early boot code can reach, allocation, the operations on memory
  as refinements of maps from addresses to attributes, the iterators, the searches, the limits and
  trimming; and three places where the code falls short.
\<close>

unbundle bit_operations_syntax

declare for_each_range.simps [code] grow_loop.simps [code] search_loop.simps [code]

section \<open>The states of the allocator\<close>






lemma setclr_flag_map:
  assumes "memblock_setclr_flag (double_array kmalloc n) base len do_set flag mb = Some (ret, mb')" and "mb_ok mb"
  shows "mem_kept mb mb' \<and> (ret = 0 \<and>
      memory_at mb' = modified base len (map_prod (\<lambda>f. if do_set then f OR flag else f AND NOT flag) id) (memory_at mb) \<or>
    ret = - ENOMEM \<and> memory_at mb' = memory_at mb)"
  by (rule mem.memory_update [OF assms(1) [unfolded memblock_setclr_flag_def] assms(2)]) simp




text \<open>What the searches find is aligned.\<close>

lemma take_bit_round_up: "take_bit k (round_up x (2 ^ k)) = 0"
proof -
  let ?y = "x - 1"
  have "?y OR mask k = push_bit k (drop_bit k ?y) OR mask k" by (rule bit_word_eqI) (auto simp: bit_simps)
  also have "\<dots> = push_bit k (drop_bit k ?y) + mask k" by (rule disjunctive_add [symmetric]) (auto simp: bit_simps)
  finally have "round_up x (2 ^ k) = push_bit k (drop_bit k ?y + 1)"
    by (simp add: round_up_def mask_eq_decr_exp push_bit_eq_mult algebra_simps)
  then show ?thesis by (simp add: take_bit_push_bit)
qed

lemma take_bit_round_down: "take_bit k (round_down x (2 ^ k)) = 0"
  unfolding round_down_def mask_eq_decr_exp [symmetric] by (rule bit_word_eqI) (auto simp: bit_simps)

lemma find_node_aligned:
  assumes "maps_ok mb" and "memblock_find_in_range_node mb len (2 ^ k) start end nid flags = Some c"
  shows "take_bit k c = 0"
proof -
  have "take_bit k (case_option 0 id (first_some (fit_bottom_up s e len (2 ^ k)) rs)) = 0" for s e rs
    using take_bit_round_up [of k]
    by (cases "first_some (fit_bottom_up s e len (2 ^ k)) rs") (auto elim!: first_some_SomeE simp: fit_bottom_up_def Let_def split: if_splits)
  moreover have "take_bit k (case_option 0 id (first_some (fit_top_down s e len (2 ^ k)) rs)) = 0" for s e rs
    using take_bit_round_down [of k]
    by (cases "first_some (fit_top_down s e len (2 ^ k)) rs") (auto elim!: first_some_SomeE simp: fit_top_down_def Let_def split: if_splits)
  ultimately show ?thesis using assms(2)
    by (auto simp: memblock_find_in_range_node_def bottom_up_first [OF assms(1)] top_down_first [OF assms(1)] Let_def split: if_splits)
qed

lemma alloc_node_aligned:
  assumes "mb_ok mb" and "alloc_on_node dbl len (2 ^ k) start end nid flags mb = Some (c, mb')"
  shows "take_bit k c = 0"
proof -
  obtain found where f: "memblock_find_in_range_node mb len (2 ^ k) start end nid flags = Some found" "c = found \<or> c = 0"
    using assms(2) by (auto simp: alloc_on_node_def split: option.splits if_splits)
  have "maps_ok mb" using find_node_few [OF f(1)] assms(1) by (auto simp: mb_ok_def ty_ok_def)
  from find_node_aligned [OF this f(1)] f(2) show ?thesis by auto
qed

lemma alloc_attempt_aligned:
  assumes "mb_ok mb" and "alloc_attempt (double_array kmalloc n) len (2 ^ k) start end nid exact_nid flags mb = Some (c, mb')"
  shows "take_bit k c = 0"
proof -
  obtain found mb1 where a: "alloc_on_node (double_array kmalloc n) len (2 ^ k) start end nid flags mb = Some (found, mb1)"
    using assms(2) by (auto simp: alloc_attempt_def split: option.splits)
  have "mb_ok mb1" using res.alloc_node [OF a assms(1), of "\<lambda>_. False"] res_step_ok by blast
  then show ?thesis using assms(2) a alloc_node_aligned [OF assms(1) a] alloc_node_aligned 
    by (auto simp: alloc_attempt_def split: if_splits)
qed

lemma alloc_range_aligned:
  assumes "mb_ok mb" and "memblock_alloc_range_nid (double_array kmalloc n) len (2 ^ k) start end nid exact_nid mb = Some (c, mb')" and "k < 64"
  shows "take_bit k c = 0"
proof -
  let ?nid = "if nid = MAX_NUMNODES then NUMA_NO_NODE else nid"
  let ?a = "alloc_attempt (double_array kmalloc n) len (2 ^ k) start end ?nid exact_nid"
  have k: "(2 :: phys_addr) ^ k \<noteq> 0" using assms(3) by (simp add: exp_eq_zero_iff)
  obtain found mb1 where a: "?a (choose_memblock_flags mb) mb = Some (found, mb1)"
    using assms(2) k unfolding memblock_alloc_range_nid_def Let_def by (cases "?a (choose_memblock_flags mb) mb") auto
  have flags: "choose_memblock_flags mb = MEMBLOCK_MIRROR \<or> choose_memblock_flags mb = MEMBLOCK_NONE" by (simp add: choose_memblock_flags_def)
  have ok: "mb_ok mb1" using res.alloc_try [OF a assms(1) flags] res_step_ok by blast
  show ?thesis using assms(2) a k alloc_attempt_aligned [OF assms(1) a] alloc_attempt_aligned [OF ok]
    unfolding memblock_alloc_range_nid_def Let_def by (auto split: if_splits)
qed


text \<open>Both iterators, with any loop body.\<close>

lemma range_up:
  assumes "maps_ok mb"
  shows "for_each_range (\<lambda>idx. uu_next_mem_range idx nid flags True (mb_movable_node mb) (mb_memory mb) (Some (mb_reserved mb))) body 0 =
    Some (first_some body (mb_ranges mb nid flags))"
proof -
  have z: "idx_lo 0 = 0" "idx_hi 0 = 0" by code_simp+
  have "up_valid (mb_memory mb) (mb_reserved mb) 0" using assms by (simp add: up_valid_def z)
  then show ?thesis using assms by (simp add: up.visits up_rest_def z mb_ranges_def meet_up_meetings regions_ok_ascending)
qed

lemma range_down:
  assumes "maps_ok mb"
  shows "for_each_range (\<lambda>idx. uu_next_mem_range_rev idx nid flags True (mb_movable_node mb) (mb_memory mb) (Some (mb_reserved mb))) body ULLONG_MAX =
    Some (first_some body (rev (mb_ranges mb nid flags)))"
proof -
  have "down_valid (mb_memory mb) (mb_reserved mb) ULLONG_MAX" using assms by (simp add: down_valid_def)
  moreover have "meetings skip (rev ms) (rev gs) = rev (meetings skip ms gs)" for skip ms and gs :: "(phys_addr \<times> phys_addr) list"
    by (simp add: meetings_def rev_concat rev_filter rev_map o_def)
  ultimately show ?thesis using assms by (simp add: down.visits down_rest_def mb_ranges_def meet_down_meetings regions_ok_ascending)
qed

section \<open>Sample states\<close>

definition rgn :: "phys_addr \<Rightarrow> phys_addr \<Rightarrow> memblock_region" where
  "rgn base len = \<lparr>rgn_base = base, rgn_size = len, rgn_flags = 0, rgn_nid = MAX_NUMNODES\<rparr>"

definition rgns :: "memblock_region list \<Rightarrow> phys_addr option \<Rightarrow> memblock_type" where
  "rgns rs arr = \<lparr>mt_regions = rs, mt_max = 4, mt_total_size = sizes rs, mt_array = arr, mt_in_slab = False\<rparr>"

definition mb_with :: "memblock_type \<Rightarrow> memblock_type \<Rightarrow> phys_addr \<Rightarrow> memblock" where
  "mb_with memory reserved limit = \<lparr>mb_bottom_up = False, mb_current_limit = limit, mb_memory = memory, mb_reserved = reserved,
    mb_can_resize = True, mb_has_mirror = False, mb_slab = False, mb_movable_node = False\<rparr>"

definition no_slab :: "phys_addr \<Rightarrow> phys_addr" where
  "no_slab len = 0"

text \<open>Two banks of memory, the first partly reserved.\<close>

definition two_banks :: memblock where
  "two_banks = mb_with (rgns [rgn 0x1000 0x4000, rgn 0x8000 0x4000] None) (rgns [rgn 0x2000 0x1000] None) 0x20000"

text \<open>A reserved array that is full.\<close>

definition full_reserved :: memblock where
  "full_reserved = mb_with (rgns [rgn 0x1000 0x10000] None)
    (rgns [rgn 0x1000 0x1000, rgn 0x3000 0x1000, rgn 0x5000 0x1000, rgn 0x7000 0x1000] None) 0x20000"

lemma sample_ok [simp]: "mb_ok two_banks" "mb_ok full_reserved"
  by code_simp+

lemma sample_few [simp]: "few (mb_memory two_banks)" "few (mb_reserved two_banks)" "few (mb_memory full_reserved)" "few (mb_reserved full_reserved)"
  by code_simp+

section \<open>Properties\<close>

text \<open>
  C4. An allocation takes free memory only. Whatever \<^verbatim>\<open>memblock_alloc_range_nid\<close> returns, the memory array
  stays as it is, the state stays well formed, and no address loses its reservation but the pages of the
  reserved array itself, which may move. A non-zero address starts an area inside the limits that were
  given, that lay in memory, was not reserved by anyone (but the old array), and is reserved now.
\<close>

theorem memblock_alloc_safe:
  assumes "mb_ok mb" and "memblock_alloc_range_nid (double_array kmalloc n) len align start end nid exact_nid mb = Some (c, mb')"
  shows "mb_ok mb' \<and> mb_memory mb' = mb_memory mb \<and>
    (\<forall>x. reserved_at mb x \<noteq> None \<longrightarrow> own_pages (mb_reserved mb) x \<or> reserved_at mb' x = reserved_at mb x) \<and>
    (c \<noteq> 0 \<longrightarrow> area_within mb start end c len \<and>
      (\<forall>x. c \<le> x \<and> x - c < len \<longrightarrow> memory_at mb x \<noteq> None \<and> (reserved_at mb x = None \<or> own_pages (mb_reserved mb) x) \<and> reserved_at mb' x \<noteq> None))"
  using res.alloc_range [OF assms(2,1)] by (auto simp: res_step_def area_new_def area_taken_def)

theorem memblock_alloc_safe_witness:
  "\<exists>mb'. memblock_alloc_range_nid (double_array no_slab 1) 0x1000 0x1000 0 0 NUMA_NO_NODE False full_reserved = Some (0x10000, mb') \<and>
    mt_array (mb_reserved mb') = Some 0xf000 \<and> reserved_at full_reserved 0x10800 = None \<and> reserved_at mb' 0x10800 \<noteq> None"
proof -
  let ?r = "memblock_alloc_range_nid (double_array no_slab 1) 0x1000 0x1000 0 0 NUMA_NO_NODE False full_reserved"
  have "map_option fst ?r = Some 0x10000 \<and> map_option (\<lambda>(_, mb). mt_array (mb_reserved mb)) ?r = Some (Some 0xf000)" by code_simp
  then obtain mb' where r: "?r = Some (0x10000, mb')" "mt_array (mb_reserved mb') = Some 0xf000" by auto
  have "reserved_at full_reserved 0x10800 = None" by code_simp
  then show ?thesis using memblock_alloc_safe [OF sample_ok(2) r(1)] r by auto
qed

text \<open>
  C5. An allocation always comes back: on a well formed state it ends, no \<^verbatim>\<open>BUG_ON\<close> is reached, and the
  reserved array is doubled at most once, so one level of recursion is enough. If it fails, the allocator
  is as it was before.
\<close>

theorem memblock_alloc_returns:
  assumes "mb_ok mb" and "few (mb_memory mb)" and "few (mb_reserved mb)"
  shows "\<exists>c mb'. memblock_alloc_range_nid (double_array kmalloc (Suc n)) len align start end nid exact_nid mb = Some (c, mb') \<and>
    (c = 0 \<longrightarrow> mb' = mb)"
  using alloc_range_returns [OF assms, of kmalloc n len align start "end" nid exact_nid] by (rule returnsE) blast

theorem memblock_alloc_returns_witness:
  "\<exists>c mb'. memblock_alloc_range_nid (double_array no_slab (Suc 0)) 0x1000 0x1000 0 0 NUMA_NO_NODE False full_reserved = Some (c, mb') \<and>
    (c = 0 \<longrightarrow> mb' = full_reserved)"
  by (rule memblock_alloc_returns) simp_all

text \<open>
  The address an allocation returns is a multiple of the alignment that was asked for, when that is a
  power of two.
\<close>

theorem memblock_alloc_aligned:
  assumes "mb_ok mb" and "memblock_alloc_range_nid (double_array kmalloc n) len (2 ^ k) start end nid exact_nid mb = Some (c, mb')" and "k < 64"
  shows "2 ^ k dvd unat c"
proof -
  have "take_bit k c = 0" by (rule alloc_range_aligned [OF assms])
  then have "take_bit k (unat c) = 0" by (metis unat_0 unsigned_take_bit_eq)
  then show ?thesis by (simp add: take_bit_eq_0_iff)
qed

theorem memblock_alloc_aligned_witness:
  "\<exists>mb'. memblock_alloc_range_nid (double_array no_slab 1) 0x100 (2 ^ 13) 0 0 NUMA_NO_NODE False two_banks = Some (0xa000, mb') \<and>
    2 ^ 13 dvd unat (0xa000 :: phys_addr)"
proof -
  let ?r = "memblock_alloc_range_nid (double_array no_slab 1) 0x100 (2 ^ 13) 0 0 NUMA_NO_NODE False two_banks"
  have "map_option fst ?r = Some 0xa000" by code_simp
  then obtain mb' where r: "?r = Some (0xa000, mb')" by auto
  then show ?thesis using memblock_alloc_aligned [OF sample_ok(1) r] by simp
qed





text \<open>
  Marking and clearing flags (\<^verbatim>\<open>memblock_setclr_flag\<close>) changes the flag bits of exactly the memory
  inside the range: regions that cross its border are split, and nothing is added or lost.
\<close>

theorem memblock_flag_refines:
  assumes "mb_ok mb" and "memblock_setclr_flag (double_array kmalloc n) base len do_set flag mb = Some (ret, mb')"
  shows "mem_kept mb mb' \<and>
    (ret = 0 \<and> memory_at mb' = modified base len (\<lambda>(f, nid). (if do_set then f OR flag else f AND NOT flag, nid)) (memory_at mb) \<or>
     ret = - ENOMEM \<and> memory_at mb' = memory_at mb)"
  using setclr_flag_map [OF assms(2,1)] by (simp add: modified_def map_prod_def)

theorem memblock_flag_refines_witness:
  "\<exists>mb'. memblock_mark_hotplug (double_array no_slab 2) 0x4000 0x5000 two_banks = Some (0, mb') \<and>
    memory_at mb' 0x3fff = Some (0, MAX_NUMNODES) \<and> memory_at mb' 0x4000 = Some (MEMBLOCK_HOTPLUG, MAX_NUMNODES) \<and>
    memory_at mb' 0x6000 = None \<and> memory_at mb' 0x9000 = Some (0, MAX_NUMNODES)"
proof -
  let ?r = "memblock_setclr_flag (double_array no_slab 2) 0x4000 0x5000 True MEMBLOCK_HOTPLUG two_banks"
  let ?m = "modified 0x4000 0x5000 (\<lambda>(f, nid). (if True then f OR MEMBLOCK_HOTPLUG else f AND NOT MEMBLOCK_HOTPLUG, nid)) (memory_at two_banks)"
  have "map_option fst ?r = Some 0" by code_simp
  then obtain mb' where r: "?r = Some (0, mb')" by auto
  have "?m 0x3fff = Some (0, MAX_NUMNODES)" "?m 0x4000 = Some (MEMBLOCK_HOTPLUG, MAX_NUMNODES)" "?m 0x6000 = None"
    "?m 0x9000 = Some (0, MAX_NUMNODES)" by code_simp+
  then show ?thesis using memblock_flag_refines [OF sample_ok(1) r] r by (auto simp: memblock_mark_hotplug_def)
qed

text \<open>
  C21. The two iterators (\<^verbatim>\<open>__next_mem_range\<close>, \<^verbatim>\<open>__next_mem_range_rev\<close>), driven by a 64 bit index that packs two
  positions, visit exactly the free ranges: \<open>mb_ranges\<close> upwards, and the same list backwards. The list
  covers an address if and only if it is memory of the wanted kind and not reserved.
\<close>

theorem iterators_visit_free:
  assumes "maps_ok mb"
  shows "for_each_range (\<lambda>idx. uu_next_mem_range idx nid flags True (mb_movable_node mb) (mb_memory mb) (Some (mb_reserved mb))) body 0 =
      Some (first_some body (mb_ranges mb nid flags)) \<and>
    for_each_range (\<lambda>idx. uu_next_mem_range_rev idx nid flags True (mb_movable_node mb) (mb_memory mb) (Some (mb_reserved mb))) body ULLONG_MAX =
      Some (first_some body (rev (mb_ranges mb nid flags))) \<and>
    ((\<exists>s e k. (s, e, k) \<in> set (mb_ranges mb nid flags) \<and> s \<le> x \<and> x < e) \<longleftrightarrow>
      reserved_at mb x = None \<and> (\<exists>at. memory_at mb x = Some at \<and> usable (mb_movable_node mb) nid flags at))"
proof -
  have "(\<exists>s e k. (s, e, k) \<in> set (mb_ranges mb nid flags) \<and> s \<le> x \<and> x < e) \<longleftrightarrow>
      reserved_at mb x = None \<and> (\<exists>at. memory_at mb x = Some at \<and> usable (mb_movable_node mb) nid flags at)"
    using meetings_sound [of "mt_regions (mb_memory mb)" "mt_regions (mb_reserved mb)" _ _ _ "mb_movable_node mb" nid flags x]
      meetings_complete [of "mt_regions (mb_memory mb)" "mt_regions (mb_reserved mb)" x _ "mb_movable_node mb" nid flags] assms
    unfolding mb_ranges_def by blast
  then show ?thesis by (intro conjI range_up [OF assms] range_down [OF assms])
qed

theorem iterators_visit_free_witness:
  "for_each_range (\<lambda>idx. uu_next_mem_range idx NUMA_NO_NODE 0 True False (mb_memory two_banks) (Some (mb_reserved two_banks)))
      (\<lambda>s e. if s \<ge> 0x3000 then Some (s, e) else None) 0 = Some (Some (0x3000, 0x5000)) \<and>
    mb_ranges two_banks NUMA_NO_NODE 0 = [(0x1000, 0x2000, MAX_NUMNODES), (0x3000, 0x5000, MAX_NUMNODES), (0x8000, 0xc000, MAX_NUMNODES)]"
proof -
  have m: "maps_ok two_banks" "mb_movable_node two_banks = False" by code_simp+
  have r: "mb_ranges two_banks NUMA_NO_NODE 0 = [(0x1000, 0x2000, MAX_NUMNODES), (0x3000, 0x5000, MAX_NUMNODES), (0x8000, 0xc000, MAX_NUMNODES)]"
    by code_simp
  show ?thesis using iterators_visit_free [OF m(1), of NUMA_NO_NODE 0 "\<lambda>s e. if s \<ge> 0x3000 then Some (s, e) else None"]
    by (simp add: r m(2))
qed



text \<open>
  C23. The binary search for an address ends and finds what a linear scan of the regions finds, on
  arrays of less than \<open>2 ^ 31 - 1\<close> regions.
\<close>

theorem memblock_search_is_linear:
  assumes "regions_ok (mt_regions ty)" and "few ty"
  shows "memblock_search ty x = Some (linear_search (mt_regions ty) x)"
  by (rule memblock_search_linear [OF assms])

theorem memblock_search_is_linear_witness:
  "memblock_search (mb_reserved full_reserved) 0x5fff = Some (Some 2) \<and> memblock_search (mb_reserved full_reserved) 0x6000 = Some None"
proof -
  have "regions_ok (mt_regions (mb_reserved full_reserved))" by code_simp
  note s = memblock_search_is_linear [OF this sample_few(4)]
  have "linear_search (mt_regions (mb_reserved full_reserved)) 0x5fff = Some 2" "linear_search (mt_regions (mb_reserved full_reserved)) 0x6000 = None"
    by code_simp+
  then show ?thesis by (simp add: s)
qed





section \<open>Trimming\<close>

definition trim_region :: "phys_addr \<Rightarrow> memblock_region \<Rightarrow> memblock_region list" where
  "trim_region align r =
    (let start = round_up (rgn_base r) align; end = round_down (rgn_end r) align
     in if start = rgn_base r \<and> end = rgn_end r then [r]
        else if start < end then [r\<lparr>rgn_base := start, rgn_size := end - start\<rparr>] else [])"

lemma trim_empty: "mt_regions ty = [empty_region] \<Longrightarrow> trim_loop ty 0 align = ty"
  by (simp add: trim_loop.simps [of ty] trim_loop.simps [of ty "Suc 0"] empty_region_def rgn_end_def round_up_def round_down_def)

lemma trim_loop_parts:
  assumes "mt_regions ty = pre @ rs" and "mt_regions ty \<noteq> []"
  shows "mt_regions (trim_loop ty (length pre) align) =
    (if pre @ concat (map (trim_region align) rs) = [] then [empty_region] else pre @ concat (map (trim_region align) rs))"
  using assms
proof (induction rs arbitrary: ty pre)
  case Nil
  then show ?case by (subst trim_loop.simps) simp
next
  case (Cons r rs)
  let ?s = "round_up (rgn_base r) align" and ?e = "round_down (rgn_end r) align"
  have i: "length pre < cnt ty" "mt_regions ty ! length pre = r" using Cons.prems by simp_all
  consider (keep) "?s = rgn_base r \<and> ?e = rgn_end r" | (cut) "\<not> (?s = rgn_base r \<and> ?e = rgn_end r)" "?s < ?e"
    | (drop) "\<not> (?s = rgn_base r \<and> ?e = rgn_end r)" "\<not> ?s < ?e" by blast
  then show ?case
  proof cases
    case keep
    then have "trim_loop ty (length pre) align = trim_loop ty (length (pre @ [r])) align" using i by (subst trim_loop.simps) simp
    then show ?thesis using Cons.IH [of ty "pre @ [r]"] Cons.prems keep by (simp add: trim_region_def)
  next
    case cut
    let ?r = "r\<lparr>rgn_base := ?s, rgn_size := ?e - ?s\<rparr>" and ?ty = "ty\<lparr>mt_regions := (mt_regions ty)[length pre := r\<lparr>rgn_base := ?s, rgn_size := ?e - ?s\<rparr>]\<rparr>"
    have "trim_loop ty (length pre) align = trim_loop ?ty (length (pre @ [?r])) align" using i cut by (subst trim_loop.simps) (auto simp: Let_def)
    moreover have "trim_region align r = [?r]" using cut by (auto simp: trim_region_def Let_def)
    ultimately show ?thesis using Cons.IH [of ?ty "pre @ [?r]"] Cons.prems by simp
  next
    case drop
    have l: "trim_loop ty (length pre) align = trim_loop (memblock_remove_region ty (length pre)) (length pre) align"
      using i drop by (subst trim_loop.simps) (auto simp: Let_def)
    have rm: "mt_regions (memblock_remove_region ty (length pre)) = (if pre @ rs = [] then [empty_region] else pre @ rs)"
      using Cons.prems by (simp add: memblock_remove_region_def)
    have d: "trim_region align r = []" using drop by (auto simp: trim_region_def Let_def)
    show ?thesis
    proof (cases "pre @ rs = []")
      case True
      then show ?thesis using l rm trim_empty [of "memblock_remove_region ty 0"] d by simp
    next
      case False
      then show ?thesis using l rm Cons.IH [of "memblock_remove_region ty (length pre)" pre] d by simp
    qed
  qed
qed

text \<open>
  \<^verbatim>\<open>memblock_trim_memory\<close> cuts every region of memory to the whole aligned blocks inside it, drops those
  that hold none, and ends; when nothing is left the array holds the one empty region that stands for
  no memory.
\<close>

theorem memblock_trim_regions:
  assumes "mb_ok mb"
  shows "mt_regions (mb_memory (memblock_trim_memory align mb)) =
    (let rs = concat (map (trim_region align) (mt_regions (mb_memory mb))) in if rs = [] then [empty_region] else rs)"
  using trim_loop_parts [of "mb_memory mb" "[]" "mt_regions (mb_memory mb)" align] assms
  by (simp add: memblock_trim_memory_def Let_def mb_ok_def ty_ok_def regions_ok_def)

theorem memblock_trim_regions_witness:
  "mt_regions (mb_memory (memblock_trim_memory 0x2000 two_banks)) = [rgn 0x2000 0x2000, rgn 0x8000 0x4000]"
proof -
  have "concat (map (trim_region 0x2000) (mt_regions (mb_memory two_banks))) = [rgn 0x2000 0x2000, rgn 0x8000 0x4000]" by code_simp
  then show ?thesis using memblock_trim_regions [OF sample_ok(1), of "0x2000"] by simp
qed



section \<open>Where the code falls short\<close>




end
