(* ===== verification/Heapsort.thy ===== *)
theory Heapsort
  imports Prelude "HOL-Library.Multiset"
begin

text \<open>
  Heapsort on lists, in the variant \<^verbatim>\<open>lib/sort.c\<close> uses: an element is sifted down by walking along the larger
  children to a leaf, climbing back to where it belongs, and rotating the elements on the way. The locale
  \<open>comparison\<close> is what a comparison function promises; under it the result is in order.
\<close>

section \<open>Heaps in an array\<close>

definition par :: "nat \<Rightarrow> nat" where
  "par i = (i - 1) div 2"

definition exchange :: "'e list \<Rightarrow> nat \<Rightarrow> nat \<Rightarrow> 'e list" where
  "exchange xs i j = xs[i := xs ! j, j := xs ! i]"

lemma exchange_length [simp]: "length (exchange xs i j) = length xs"
  by (simp add: exchange_def)

lemma exchange_mset [simp]: "i < length xs \<Longrightarrow> j < length xs \<Longrightarrow> mset (exchange xs i j) = mset xs"
  by (simp add: exchange_def mset_swap)

lemma exchange_nth: "i < length xs \<Longrightarrow> j < length xs \<Longrightarrow> exchange xs i j ! k = (if k = j then xs ! i else if k = i then xs ! j else xs ! k)"
  by (auto simp: exchange_def nth_list_update)

text \<open>The walk down along the larger children, as the list of the positions it visits.\<close>

function spine :: "('e \<Rightarrow> 'e \<Rightarrow> int) \<Rightarrow> 'e list \<Rightarrow> nat \<Rightarrow> nat \<Rightarrow> nat list" where
  "spine cmp xs n b =
    (let c = 2 * b + 1; d = c + 1 in
     if d < n then b # spine cmp xs n (if cmp (xs ! c) (xs ! d) \<ge> 0 then c else d)
     else if d = n then [b, c] else [b])"
  by pat_completeness auto
termination
  by (relation "measure (\<lambda>(cmp, xs, n, b). n - b)") (auto simp: Let_def)

declare spine.simps [simp del]

text \<open>The way back up, and the rotation of the elements on it.\<close>

function climb :: "('e \<Rightarrow> 'e \<Rightarrow> int) \<Rightarrow> 'e list \<Rightarrow> nat \<Rightarrow> nat \<Rightarrow> nat" where
  "climb cmp xs a b = (if b \<le> a \<or> \<not> cmp (xs ! a) (xs ! b) \<ge> 0 then b else climb cmp xs a (par b))"
  by pat_completeness auto
termination
  by (relation "measure (\<lambda>(cmp, xs, a, b). b)") (auto simp: par_def)

function rotate_up :: "'e list \<Rightarrow> nat \<Rightarrow> nat \<Rightarrow> nat \<Rightarrow> 'e list" where
  "rotate_up xs a b c = (if b \<le> a then xs else rotate_up (exchange xs (par b) c) a (par b) c)"
  by pat_completeness auto
termination
  by (relation "measure (\<lambda>(xs, a, b, c). b)") (auto simp: par_def)

declare climb.simps [simp del] rotate_up.simps [simp del]

definition sift :: "('e \<Rightarrow> 'e \<Rightarrow> int) \<Rightarrow> 'e list \<Rightarrow> nat \<Rightarrow> nat \<Rightarrow> 'e list" where
  "sift cmp xs a n = (let c = climb cmp xs a (last (spine cmp xs n a)) in rotate_up xs a c c)"

definition heap :: "('e \<Rightarrow> 'e \<Rightarrow> int) \<Rightarrow> 'e list \<Rightarrow> nat \<Rightarrow> nat \<Rightarrow> bool" where
  "heap cmp xs a n \<longleftrightarrow> (\<forall>i < n. 0 < i \<longrightarrow> a \<le> par i \<longrightarrow> cmp (xs ! par i) (xs ! i) \<ge> 0)"

text \<open>The shape of the walk.\<close>

lemma spine_not_Nil [simp]: "spine cmp xs n b \<noteq> []"
  by (subst spine.simps) (simp add: Let_def)

lemma spine_hd [simp]: "spine cmp xs n b ! 0 = b"
  by (subst spine.simps) (simp add: Let_def)

lemma spine_step:
  "Suc k < length (spine cmp xs n b) \<Longrightarrow>
    par (spine cmp xs n b ! Suc k) = spine cmp xs n b ! k \<and> spine cmp xs n b ! k < spine cmp xs n b ! Suc k \<and> spine cmp xs n b ! Suc k < n"
proof (induction cmp xs n b arbitrary: k rule: spine.induct)
  case (1 cmp xs n b)
  let ?c = "2 * b + 1"
  let ?m = "if cmp (xs ! ?c) (xs ! (?c + 1)) \<ge> 0 then ?c else ?c + 1"
  show ?case
  proof (cases "?c + 1 < n")
    case True
    then have s: "spine cmp xs n b = b # spine cmp xs n ?m" by (subst spine.simps) (simp add: Let_def)
    show ?thesis
    proof (cases k)
      case 0
      then show ?thesis using s True by (auto simp: par_def)
    next
      case (Suc j)
      then show ?thesis using s "1.IH" [OF refl refl True, of j] "1.prems" by simp
    qed
  next
    case False
    then have "spine cmp xs n b = (if ?c + 1 = n then [b, ?c] else [b])" by (subst spine.simps) (simp add: Let_def)
    then show ?thesis using "1.prems" by (auto simp: par_def split: if_splits)
  qed
qed

lemma spine_mono: "j < k \<Longrightarrow> k < length (spine cmp xs n b) \<Longrightarrow> spine cmp xs n b ! j < spine cmp xs n b ! k"
proof (induction k)
  case (Suc k)
  then show ?case using spine_step [of k cmp xs n b] by (cases "j = k") auto
qed simp

lemma spine_inj: "j < length (spine cmp xs n b) \<Longrightarrow> k < length (spine cmp xs n b) \<Longrightarrow> spine cmp xs n b ! j = spine cmp xs n b ! k \<longleftrightarrow> j = k"
  by (metis linorder_neqE_nat nat_neq_iff spine_mono)

lemma spine_last: "i < n \<Longrightarrow> 0 < i \<Longrightarrow> par i \<noteq> last (spine cmp xs n b)"
proof (induction cmp xs n b rule: spine.induct)
  case (1 cmp xs n b)
  let ?c = "2 * b + 1"
  let ?m = "if cmp (xs ! ?c) (xs ! (?c + 1)) \<ge> 0 then ?c else ?c + 1"
  show ?case
  proof (cases "?c + 1 < n")
    case True
    then have s: "spine cmp xs n b = b # spine cmp xs n ?m" by (subst spine.simps) (simp add: Let_def)
    then show ?thesis using "1.IH" [OF refl refl True] "1.prems" by simp
  next
    case False
    then show ?thesis using "1.prems" by (subst spine.simps) (auto simp: Let_def par_def)
  qed
qed

lemma climb_spine:
  assumes "m < length (spine cmp xs n a)"
  shows "\<exists>k \<le> m. climb cmp xs a (spine cmp xs n a ! m) = spine cmp xs n a ! k \<and>
    (\<forall>j. k < j \<and> j \<le> m \<longrightarrow> cmp (xs ! a) (xs ! (spine cmp xs n a ! j)) \<ge> 0) \<and>
    (k = 0 \<or> \<not> cmp (xs ! a) (xs ! (spine cmp xs n a ! k)) \<ge> 0)"
  using assms
proof (induction m)
  case 0
  then show ?case by (subst climb.simps) simp
next
  case (Suc m)
  let ?s = "spine cmp xs n a"
  have gt: "a < ?s ! Suc m" using spine_mono [of 0 "Suc m" cmp xs n a] Suc.prems by simp
  show ?case
  proof (cases "cmp (xs ! a) (xs ! (?s ! Suc m)) \<ge> 0")
    case True
    then have "climb cmp xs a (?s ! Suc m) = climb cmp xs a (?s ! m)"
      using gt spine_step [of m cmp xs n a] Suc.prems by (subst climb.simps) simp
    moreover obtain k where "k \<le> m" "climb cmp xs a (?s ! m) = ?s ! k" "\<forall>j. k < j \<and> j \<le> m \<longrightarrow> cmp (xs ! a) (xs ! (?s ! j)) \<ge> 0"
        "k = 0 \<or> \<not> cmp (xs ! a) (xs ! (?s ! k)) \<ge> 0" using Suc by auto
    ultimately show ?thesis using True by (intro exI [of _ k]) (auto simp: le_Suc_eq)
  next
    case False
    then show ?thesis by (subst climb.simps) (auto intro: exI [of _ "Suc m"])
  qed
qed

lemma rotate_up_spine:
  fixes cmp xs n a
  defines "s \<equiv> spine cmp xs n a"
  assumes "j \<le> k" "k < length s" "\<And>i. i \<le> k \<Longrightarrow> s ! i < length ys"
  shows "mset (rotate_up ys a (s ! j) (s ! k)) = mset ys \<and>
    (\<forall>i < j. rotate_up ys a (s ! j) (s ! k) ! (s ! i) = (if Suc i = j then ys ! (s ! k) else ys ! (s ! Suc i))) \<and>
    (0 < j \<longrightarrow> rotate_up ys a (s ! j) (s ! k) ! (s ! k) = ys ! a) \<and>
    (\<forall>p. p \<noteq> s ! k \<longrightarrow> (\<forall>i < j. p \<noteq> s ! i) \<longrightarrow> rotate_up ys a (s ! j) (s ! k) ! p = ys ! p) \<and>
    (j = 0 \<longrightarrow> rotate_up ys a (s ! j) (s ! k) = ys)"
  using assms(2,4)
proof (induction j arbitrary: ys)
  case 0
  then show ?case by (simp add: rotate_up.simps [of ys a a] s_def)
next
  case (Suc j)
  let ?ys = "exchange ys (s ! j) (s ! k)"
  have gt: "a < s ! Suc j" and par: "par (s ! Suc j) = s ! j"
    using spine_mono [of 0 "Suc j" cmp xs n a] spine_step [of j cmp xs n a] Suc.prems(1) assms(3) by (auto simp: s_def)
  have r: "rotate_up ys a (s ! Suc j) (s ! k) = rotate_up ?ys a (s ! j) (s ! k)" using gt par by (subst rotate_up.simps) simp
  have ne: "s ! i \<noteq> s ! l" if "i \<noteq> l" "i \<le> k" "l \<le> k" for i l using spine_inj [of i cmp xs n a l] that assms(3) by (simp add: s_def)
  have len: "s ! j < length ys" "s ! k < length ys" using Suc.prems by simp_all
  note IH = Suc.IH [of ?ys]
  have a: "a = s ! 0" by (simp add: s_def)
  have jk: "j < k" using Suc.prems(1) by simp
  have "rotate_up ys a (s ! Suc j) (s ! k) ! (s ! k) = ys ! a"
    using IH Suc.prems jk len ne [of 0 j] ne [of 0 k] unfolding r by (cases "j = 0") (auto simp: exchange_nth a)
  moreover have "rotate_up ys a (s ! Suc j) (s ! k) ! (s ! i) = (if i = j then ys ! (s ! k) else ys ! (s ! Suc i))" if "i < Suc j" for i
  proof (cases "i = j")
    case True
    then show ?thesis using IH Suc.prems jk len ne [of j k] ne [of j] unfolding r by (auto simp: exchange_nth)
  next
    case False
    then have "i < j" using that by simp
    then show ?thesis using IH Suc.prems jk len ne [of "Suc i" j] ne [of "Suc i" k] False unfolding r by (auto simp: exchange_nth)
  qed
  moreover have "rotate_up ys a (s ! Suc j) (s ! k) ! p = ys ! p" if "p \<noteq> s ! k" "\<forall>i < Suc j. p \<noteq> s ! i" for p
    using IH Suc.prems jk len that unfolding r by (auto simp: exchange_nth)
  moreover have "mset (rotate_up ys a (s ! Suc j) (s ! k)) = mset ys" using IH Suc.prems len unfolding r by auto
  ultimately show ?case by simp
qed

text \<open>What a comparison function must be: a total preorder.\<close>

locale comparison =
  fixes cmp :: "'e \<Rightarrow> 'e \<Rightarrow> int"
  assumes total: "cmp x y \<ge> 0 \<or> cmp y x \<ge> 0"
    and trans: "cmp x y \<ge> 0 \<Longrightarrow> cmp y z \<ge> 0 \<Longrightarrow> cmp x z \<ge> 0"
begin

lemma refl: "cmp x x \<ge> 0"
  using total [of x x] by simp

lemma spine_larger:
  "Suc k < length (spine cmp xs n b) \<Longrightarrow> i < n \<Longrightarrow> 0 < i \<Longrightarrow> par i = spine cmp xs n b ! k \<Longrightarrow>
    cmp (xs ! (spine cmp xs n b ! Suc k)) (xs ! i) \<ge> 0"
proof (induction "n - b" arbitrary: b k rule: less_induct)
  case less
  let ?c = "2 * b + 1"
  have i: "i = ?c \<or> i = ?c + 1" if "par i = b" using that \<open>0 < i\<close> by (auto simp: par_def)
  show ?case
  proof (cases "?c + 1 < n")
    case True
    obtain m where m: "spine cmp xs n b = b # spine cmp xs n m" "m = ?c \<or> m = ?c + 1"
        "cmp (xs ! m) (xs ! ?c) \<ge> 0" "cmp (xs ! m) (xs ! (?c + 1)) \<ge> 0"
      using True total [of "xs ! ?c" "xs ! (?c + 1)"] refl by (subst (asm) spine.simps) (auto simp: Let_def split: if_splits)
    show ?thesis
    proof (cases k)
      case 0
      then show ?thesis using m i less.prems by auto
    next
      case (Suc j)
      then show ?thesis using m less.hyps [of m j] less.prems True by auto
    qed
  next
    case False
    then have s: "spine cmp xs n b = (if ?c + 1 = n then [b, ?c] else [b])" by (subst spine.simps) (simp add: Let_def)
    then have "k = 0" "?c + 1 = n" using less.prems(1) by (auto split: if_splits)
    then show ?thesis using s i less.prems refl by auto
  qed
qed

end

text \<open>The effect of sifting: the elements on the walk down to position \<open>k\<close> move up by one, the first goes to its end.\<close>

definition sifted :: "('e \<Rightarrow> 'e \<Rightarrow> int) \<Rightarrow> 'e list \<Rightarrow> nat list \<Rightarrow> nat \<Rightarrow> 'e list \<Rightarrow> bool" where
  "sifted cmp xs s k ys \<longleftrightarrow> k < length s \<and> (\<forall>i < k. ys ! (s ! i) = xs ! (s ! Suc i)) \<and> ys ! (s ! k) = xs ! (s ! 0) \<and>
    (\<forall>p. (\<forall>i \<le> k. p \<noteq> s ! i) \<longrightarrow> ys ! p = xs ! p) \<and>
    (\<forall>j. k < j \<and> j < length s \<longrightarrow> cmp (xs ! (s ! 0)) (xs ! (s ! j)) \<ge> 0) \<and>
    (k = 0 \<or> \<not> cmp (xs ! (s ! 0)) (xs ! (s ! k)) \<ge> 0)"

lemma spine_less: "a < n \<Longrightarrow> i < length (spine cmp xs n a) \<Longrightarrow> spine cmp xs n a ! i < n"
  using spine_step [of "i - 1" cmp xs n a] by (cases i) auto

lemma sift_sifted:
  assumes "a < n" "n \<le> length xs"
  obtains k where "sifted cmp xs (spine cmp xs n a) k (sift cmp xs a n)" "mset (sift cmp xs a n) = mset xs"
proof -
  let ?s = "spine cmp xs n a" and ?m = "length (spine cmp xs n a) - 1"
  have l: "last ?s = ?s ! ?m" "?m < length ?s" by (simp_all add: last_conv_nth)
  from climb_spine [OF l(2)] obtain k where k: "k \<le> ?m" "climb cmp xs a (last ?s) = ?s ! k"
    "\<forall>j. k < j \<and> j \<le> ?m \<longrightarrow> cmp (xs ! a) (xs ! (?s ! j)) \<ge> 0" "k = 0 \<or> \<not> cmp (xs ! a) (xs ! (?s ! k)) \<ge> 0"
    unfolding l(1) by auto
  have ys: "sift cmp xs a n = rotate_up xs a (?s ! k) (?s ! k)" by (simp add: sift_def k(2) Let_def)
  have kl: "k < length ?s" using le_less_trans [OF k(1) l(2)] .
  have "?s ! i < length xs" if "i \<le> k" for i using spine_less [OF assms(1), of i cmp xs] that kl assms(2) by simp
  note r = rotate_up_spine [OF le_refl kl this, folded ys]
  show ?thesis
    by (rule that [of k]) (use r k kl in \<open>auto simp: sifted_def le_less\<close>)
qed

context comparison
begin

text \<open>Sifting an element down makes the heap start one position earlier.\<close>

lemma sifted_heap:
  assumes "heap cmp xs (Suc a) n" and "sifted cmp xs (spine cmp xs n a) k ys" and "p < n" "0 < p" "a \<le> par p"
  shows "cmp (ys ! par p) (ys ! p) \<ge> 0"
proof -
  let ?s = "spine cmp xs n a"
  have kl: "k < length ?s" and mv: "\<And>i. i < k \<Longrightarrow> ys ! (?s ! i) = xs ! (?s ! Suc i)" and fst: "ys ! (?s ! k) = xs ! a"
    and same: "\<And>p. (\<And>i. i \<le> k \<Longrightarrow> p \<noteq> ?s ! i) \<Longrightarrow> ys ! p = xs ! p"
    and low: "\<And>j. k < j \<Longrightarrow> j < length ?s \<Longrightarrow> cmp (xs ! a) (xs ! (?s ! j)) \<ge> 0"
    and high: "k = 0 \<or> \<not> cmp (xs ! a) (xs ! (?s ! k)) \<ge> 0" using assms(2) by (auto simp: sifted_def)
  have on: "\<exists>j. i = Suc j \<and> par p = ?s ! j" if "p = ?s ! i" "i \<le> k" for i
    using that assms(4,5) spine_step [of "i - 1" cmp xs n a] kl by (cases i) (auto simp: par_def)
  show ?thesis
  proof (cases "\<exists>i \<le> k. par p = ?s ! i")
    case False
    then have "par p \<noteq> a" by (metis spine_hd zero_le)
    moreover have "ys ! p = xs ! p" using False on by (intro same) (metis Suc_leD)
    moreover have "ys ! par p = xs ! par p" using False by (intro same) auto
    ultimately show ?thesis using assms(1,3-5) by (auto simp: heap_def)
  next
    case True
    then obtain i where i: "i \<le> k" "par p = ?s ! i" by blast
    have "?s ! i \<noteq> ?s ! (length ?s - 1)" using spine_last [OF assms(3,4), of cmp xs a] i(2) by (simp add: last_conv_nth)
    then have i1: "Suc i < length ?s" using i(1) kl by (metis Suc_lessI diff_Suc_1 le_less_trans)
    have big: "cmp (xs ! (?s ! Suc i)) (xs ! p) \<ge> 0" by (rule spine_larger [OF i1 assms(3,4) i(2)])
    have off: "ys ! p = xs ! p" if "p \<noteq> ?s ! Suc i \<or> i = k"
    proof (rule same)
      fix j assume "j \<le> k"
      then show "p \<noteq> ?s ! j" using on [of j] spine_inj [of _ cmp xs n a i] that kl i1 i(2) by (metis Suc_leD not_less_eq_eq order_refl le_less_trans)
    qed
    consider (last) "i = k" | (side) "i < k" "p \<noteq> ?s ! Suc i" | (stop) "i < k" "p = ?s ! Suc i" "Suc i = k" | (mid) "p = ?s ! Suc i" "Suc i < k"
      using i(1) by linarith
    then show ?thesis
    proof cases
      case last
      then show ?thesis using off fst i(2) low [of "Suc i"] i1 big trans by fastforce
    next
      case side
      then show ?thesis using off mv [OF side(1)] big i(2) by simp
    next
      case stop
      then show ?thesis using mv [OF stop(1)] fst i(2) high total [of "xs ! (?s ! Suc i)" "xs ! a"] by auto
    next
      case mid
      have "cmp (xs ! (?s ! Suc i)) (xs ! (?s ! Suc (Suc i))) \<ge> 0"
        using assms(1) spine_step [of "Suc i" cmp xs n a] spine_mono [of 0 "Suc i" cmp xs n a] mid kl by (auto simp: heap_def)
      then show ?thesis using mid mv [of i] mv [of "Suc i"] i(2) by simp
    qed
  qed
qed

lemma sift_heap:
  assumes "heap cmp xs (Suc a) n" "a < n" "n \<le> length xs"
  shows "heap cmp (sift cmp xs a n) a n \<and> mset (sift cmp xs a n) = mset xs \<and>
    (\<forall>p. p < a \<or> n \<le> p \<longrightarrow> sift cmp xs a n ! p = xs ! p)"
proof -
  obtain k where k: "sifted cmp xs (spine cmp xs n a) k (sift cmp xs a n)" "mset (sift cmp xs a n) = mset xs"
    using assms(2,3) by (rule sift_sifted)
  have r: "a \<le> spine cmp xs n a ! i \<and> spine cmp xs n a ! i < n" if "i \<le> k" for i
    using spine_less [OF assms(2), of i cmp xs] spine_mono [of 0 i cmp xs n a] that k(1) by (cases "i = 0") (auto simp: sifted_def)
  have "sift cmp xs a n ! p = xs ! p" if "p < a \<or> n \<le> p" for p
  proof -
    have "\<forall>i \<le> k. p \<noteq> spine cmp xs n a ! i" using r that by (metis not_less)
    then show ?thesis using k(1) by (simp add: sifted_def)
  qed
  then show ?thesis using sifted_heap [OF assms(1) k(1)] k(2) by (auto simp: heap_def)
qed

end

text \<open>The sort on elements: first the heap is built, then its root goes to the end, again and again.\<close>

function heap_sort :: "('e \<Rightarrow> 'e \<Rightarrow> int) \<Rightarrow> 'e list \<Rightarrow> nat \<Rightarrow> nat \<Rightarrow> 'e list" where
  "heap_sort cmp xs a n =
    (if a \<noteq> 0 then heap_sort cmp (sift cmp xs (a - 1) n) (a - 1) n
     else if n > 1 then heap_sort cmp (sift cmp (exchange xs 0 (n - 1)) 0 (n - 1)) 0 (n - 1)
     else xs)"
  by pat_completeness auto
termination
  by (relation "measure (\<lambda>(cmp, xs, a, n). a + n)") auto

declare heap_sort.simps [simp del]

definition ordered :: "('e \<Rightarrow> 'e \<Rightarrow> int) \<Rightarrow> 'e list \<Rightarrow> bool" where
  "ordered cmp = sorted_wrt (\<lambda>x y. cmp y x \<ge> 0)"

definition sorted_from :: "('e \<Rightarrow> 'e \<Rightarrow> int) \<Rightarrow> 'e list \<Rightarrow> nat \<Rightarrow> bool" where
  "sorted_from cmp xs n \<longleftrightarrow> ordered cmp (drop n xs) \<and> (\<forall>x \<in> set (take n xs). \<forall>y \<in> set (drop n xs). cmp y x \<ge> 0)"

lemma mset_take_drop: "mset (take n xs) + mset (drop n xs) = mset xs"
  by (metis append_take_drop_id mset_append)

lemma drop_same:
  assumes "length ys = length xs" "\<And>p. n \<le> p \<Longrightarrow> p < length xs \<Longrightarrow> ys ! p = xs ! p" shows "drop n ys = drop n xs"
  using assms by (intro nth_equalityI) auto

lemma take_same_set:
  assumes "mset ys = mset xs" "\<And>p. n \<le> p \<Longrightarrow> ys ! p = xs ! p" shows "set (take n ys) = set (take n xs)"
proof -
  have "drop n ys = drop n xs" by (rule drop_same [OF mset_eq_length [OF assms(1)]]) (rule assms(2))
  then have "mset (take n ys) = mset (take n xs)" using mset_take_drop [of n xs] mset_take_drop [of n ys] assms(1) by (metis add_right_cancel)
  then show ?thesis by (rule mset_eq_setD)
qed

context comparison
begin

lemma heap_root: "heap cmp xs 0 n \<Longrightarrow> i < n \<Longrightarrow> cmp (xs ! 0) (xs ! i) \<ge> 0"
proof (induction i rule: less_induct)
  case (less i)
  show ?case
  proof (cases "i = 0")
    case False
    then have "cmp (xs ! 0) (xs ! par i) \<ge> 0" using less.IH [of "par i"] less.prems by (simp add: par_def)
    moreover have "cmp (xs ! par i) (xs ! i) \<ge> 0" using less.prems False by (simp add: heap_def)
    ultimately show ?thesis by (rule trans)
  qed (simp add: refl)
qed

lemma extract_root:
  assumes "heap cmp xs 0 n" "1 < n" "n \<le> length xs" "sorted_from cmp xs n"
  shows "heap cmp (exchange xs 0 (n - 1)) (Suc 0) (n - 1) \<and> sorted_from cmp (exchange xs 0 (n - 1)) (n - 1)"
proof -
  let ?n = "n - 1" and ?ys = "exchange xs 0 (n - 1)"
  have l: "0 < length xs" "?n < length xs" using assms(2,3) by auto
  have nth: "?ys ! k = (if k = ?n then xs ! 0 else if k = 0 then xs ! ?n else xs ! k)" for k
    using exchange_nth [OF l] by auto
  have "heap cmp ?ys (Suc 0) ?n" using assms(1) nth by (auto simp: heap_def par_def)
  moreover have "drop ?n ?ys = xs ! 0 # drop n xs"
    using assms(2,3) nth by (intro nth_equalityI) (auto simp: nth_Cons split: nat.splits)
  moreover have "set (take ?n ?ys) \<subseteq> set (take n xs)"
  proof
    fix x assume "x \<in> set (take ?n ?ys)"
    then obtain k where "k < ?n" "x = ?ys ! k" using assms(3) by (auto simp: set_conv_nth)
    then have "x = xs ! (if k = 0 then ?n else k)" "(if k = 0 then ?n else k) < n" using nth [of k] by auto
    then show "x \<in> set (take n xs)" using assms(3) nth_mem [of "if k = 0 then ?n else k" "take n xs"] by simp
  qed
  moreover have "\<forall>x \<in> set (take n xs). cmp (xs ! 0) x \<ge> 0" using heap_root [OF assms(1)] assms(3) by (auto simp: set_conv_nth)
  moreover have "xs ! 0 \<in> set (take n xs)" using assms(2,3) nth_mem [of 0 "take n xs"] by simp
  ultimately show ?thesis using assms(4) by (auto simp: sorted_from_def ordered_def)
qed

lemma heap_sort_sorted:
  assumes "heap cmp xs a n" "a \<le> n" "0 < n" "n \<le> length xs" "sorted_from cmp xs n"
  shows "ordered cmp (heap_sort cmp xs a n) \<and> mset (heap_sort cmp xs a n) = mset xs"
  using assms
proof (induction "a + n" arbitrary: xs a n rule: less_induct)
  case less
  have keep: "sorted_from cmp ys n" if "mset ys = mset xs" "\<And>p. n \<le> p \<Longrightarrow> ys ! p = xs ! p" "sorted_from cmp xs n" for xs ys :: "'e list" and n
    using that take_same_set [of ys xs n] drop_same [of ys xs n] mset_eq_length [OF that(1)] by (simp add: sorted_from_def)
  consider (build) "a \<noteq> 0" | (root) "a = 0" "1 < n" | (stop) "a = 0" "n = 1" using less.prems(3) by linarith
  then show ?case
  proof cases
    case build
    let ?ys = "sift cmp xs (a - 1) n"
    have s: "heap cmp ?ys (a - 1) n" "mset ?ys = mset xs" "\<And>p. n \<le> p \<Longrightarrow> ?ys ! p = xs ! p"
      using sift_heap [of xs "a - 1" n] less.prems build by simp_all
    have "heap_sort cmp xs a n = heap_sort cmp ?ys (a - 1) n" using build by (subst heap_sort.simps) simp
    moreover have "n \<le> length ?ys" using less.prems(4) mset_eq_length [OF s(2)] by simp
    ultimately show ?thesis using less.hyps [of "a - 1" n ?ys] s(1,2) less.prems(2,3) build keep [OF s(2,3) less.prems(5)] by simp
  next
    case root
    let ?xs = "exchange xs 0 (n - 1)" and ?n = "n - 1"
    let ?ys = "sift cmp ?xs 0 ?n"
    have e: "heap cmp ?xs (Suc 0) ?n" "sorted_from cmp ?xs ?n" using extract_root [of xs n] less.prems root by simp_all
    then have s: "heap cmp ?ys 0 ?n" "mset ?ys = mset ?xs" "\<And>p. ?n \<le> p \<Longrightarrow> ?ys ! p = ?xs ! p"
      using sift_heap [of ?xs 0 ?n] less.prems root by simp_all
    have x: "mset ?xs = mset xs" using less.prems root by (intro exchange_mset) auto
    have "heap_sort cmp xs a n = heap_sort cmp ?ys 0 ?n" using root by (subst heap_sort.simps) simp
    moreover have "?n \<le> length ?ys" using less.prems(4) mset_eq_length [OF s(2)] by simp
    ultimately show ?thesis using less.hyps [of 0 ?n ?ys] s(1,2) x root keep [OF s(2,3) e(2)] by simp
  next
    case stop
    then have "xs = take 1 xs @ drop 1 xs" "length (take 1 xs) = 1" using less.prems by simp_all
    then have "ordered cmp xs" using less.prems(5) stop
      by (cases xs) (auto simp: sorted_from_def ordered_def)
    then show ?thesis using stop by (subst (1 2) heap_sort.simps) simp
  qed
qed

end

end
