(* ===== verification/Sort.thy ===== *)
theory Sort
  imports Heapsort
begin

text \<open>
  \<^verbatim>\<open>lib/sort.c\<close> and \<^verbatim>\<open>include/linux/bsearch.h\<close> on memory that is a list of bytes, with the 64 bit offsets,
  the branch-free computation of a parent and the chunk-wise swaps of the code. The sort is shown to
  implement the heapsort of \<open>Heapsort\<close> on the elements, the search to find an element if there is one.
\<close>

unbundle bit_operations_syntax

section \<open>The code\<close>

text \<open>The array at \<^verbatim>\<open>base\<close>, and offsets into it as the code has them.\<close>

type_synonym bytes = "u8 list"

definition elem :: "bytes \<Rightarrow> u64 \<Rightarrow> u64 \<Rightarrow> bytes" where
  "elem mem byte_off sz = take (unat sz) (drop (unat byte_off) mem)"

definition put_bytes :: "bytes \<Rightarrow> nat \<Rightarrow> bytes \<Rightarrow> bytes" where
  "put_bytes mem byte_off bs = take byte_off mem @ bs @ drop (byte_off + length bs) mem"

definition swap_chunk :: "nat \<Rightarrow> bytes \<Rightarrow> u64 \<Rightarrow> u64 \<Rightarrow> bytes" where
  "swap_chunk w mem a b =
    (let t = take w (drop (unat a) mem); mem1 = put_bytes mem (unat a) (take w (drop (unat b) mem))
     in put_bytes mem1 (unat b) t)"

text \<open>The three loops that swap two elements, by chunks of \<open>w\<close> bytes from the end.\<close>

partial_function (option) swap_loop :: "nat \<Rightarrow> bytes \<Rightarrow> u64 \<Rightarrow> u64 \<Rightarrow> u64 \<Rightarrow> bytes option" where
  "swap_loop w mem a b n =
    (let n1 = n - word_of_nat w; mem1 = swap_chunk w mem (a + n1) (b + n1)
     in if n1 \<noteq> 0 then swap_loop w mem1 a b n1 else Some mem1)"

definition swap_words_32 :: "bytes \<Rightarrow> u64 \<Rightarrow> u64 \<Rightarrow> u64 \<Rightarrow> bytes option" where
  "swap_words_32 mem a b n = swap_loop 4 mem a b n"

definition swap_words_64 :: "bytes \<Rightarrow> u64 \<Rightarrow> u64 \<Rightarrow> u64 \<Rightarrow> bytes option" where
  "swap_words_64 mem a b n = swap_loop 8 mem a b n"

definition swap_bytes :: "bytes \<Rightarrow> u64 \<Rightarrow> u64 \<Rightarrow> u64 \<Rightarrow> bytes option" where
  "swap_bytes mem a b n = swap_loop 1 mem a b n"

datatype swap_func_t = SWAP_WORDS_64 | SWAP_WORDS_32 | SWAP_BYTES | SWAP_FUNC "bytes \<Rightarrow> u64 \<Rightarrow> u64 \<Rightarrow> s32 \<Rightarrow> bytes"

definition do_swap :: "bytes \<Rightarrow> u64 \<Rightarrow> u64 \<Rightarrow> u64 \<Rightarrow> swap_func_t \<Rightarrow> bytes option" where
  "do_swap mem a b sz swap_func =
    (case swap_func of
       SWAP_WORDS_64 \<Rightarrow> swap_words_64 mem a b sz
     | SWAP_WORDS_32 \<Rightarrow> swap_words_32 mem a b sz
     | SWAP_BYTES \<Rightarrow> swap_bytes mem a b sz
     | SWAP_FUNC f \<Rightarrow> Some (f mem a b (ucast sz)))"

text \<open>\<open>efficient\<close> is \<^verbatim>\<open>CONFIG_HAVE_EFFICIENT_UNALIGNED_ACCESS\<close>, \<open>base\<close> the address of the array.\<close>

definition is_aligned :: "bool \<Rightarrow> u64 \<Rightarrow> u64 \<Rightarrow> u8 \<Rightarrow> bool" where
  "is_aligned efficient base sz align =
    (let lsbits = (ucast sz :: u8); lsbits1 = (if efficient then lsbits else lsbits OR ucast base)
     in lsbits1 AND (align - 1) = 0)"

definition parent :: "u64 \<Rightarrow> u32 \<Rightarrow> u64 \<Rightarrow> u64" where
  "parent i lsbit sz = (let i1 = i - sz; i2 = i1 - (sz AND - (i1 AND ucast lsbit)) in i2 div 2)"

text \<open>The way down to a leaf, the way back to where the element belongs, and the rotation.\<close>

partial_function (option) sift_down :: "(bytes \<Rightarrow> bytes \<Rightarrow> int) \<Rightarrow> bytes \<Rightarrow> u64 \<Rightarrow> u64 \<Rightarrow> u64 \<Rightarrow> u64 option" where
  "sift_down cmp mem sz n b =
    (let c = 2 * b + sz; d = c + sz in
     if d < n then sift_down cmp mem sz n (if cmp (elem mem c sz) (elem mem d sz) \<ge> 0 then c else d)
     else Some (if d = n then c else b))"

partial_function (option) backtrack :: "(bytes \<Rightarrow> bytes \<Rightarrow> int) \<Rightarrow> bytes \<Rightarrow> u64 \<Rightarrow> u32 \<Rightarrow> u64 \<Rightarrow> u64 \<Rightarrow> u64 option" where
  "backtrack cmp mem sz lsbit a b =
    (if b \<noteq> a \<and> cmp (elem mem a sz) (elem mem b sz) \<ge> 0 then backtrack cmp mem sz lsbit a (parent b lsbit sz) else Some b)"

partial_function (option) shift_into :: "swap_func_t \<Rightarrow> u64 \<Rightarrow> u32 \<Rightarrow> u64 \<Rightarrow> u64 \<Rightarrow> u64 \<Rightarrow> bytes \<Rightarrow> bytes option" where
  "shift_into swap_func sz lsbit a b c mem =
    (if b \<noteq> a then
       let b1 = parent b lsbit sz in
       case do_swap mem b1 c sz swap_func of
         None \<Rightarrow> None
       | Some mem1 \<Rightarrow> shift_into swap_func sz lsbit a b1 c mem1
     else Some mem)"

definition sort_sift :: "(bytes \<Rightarrow> bytes \<Rightarrow> int) \<Rightarrow> swap_func_t \<Rightarrow> u64 \<Rightarrow> u32 \<Rightarrow> bytes \<Rightarrow> u64 \<Rightarrow> u64 \<Rightarrow> bytes option" where
  "sort_sift cmp swap_func sz lsbit mem a n =
    (case sift_down cmp mem sz n a of
       None \<Rightarrow> None
     | Some b \<Rightarrow> (case backtrack cmp mem sz lsbit a b of
         None \<Rightarrow> None
       | Some c \<Rightarrow> shift_into swap_func sz lsbit a c c mem))"

partial_function (option) sort_loop :: "(bytes \<Rightarrow> bytes \<Rightarrow> int) \<Rightarrow> swap_func_t \<Rightarrow> u64 \<Rightarrow> u32 \<Rightarrow> bytes \<Rightarrow> u64 \<Rightarrow> u64 \<Rightarrow> bytes option" where
  "sort_loop cmp swap_func sz lsbit mem a n =
    (if a \<noteq> 0 then
       (case sort_sift cmp swap_func sz lsbit mem (a - sz) n of
          None \<Rightarrow> None
        | Some mem1 \<Rightarrow> sort_loop cmp swap_func sz lsbit mem1 (a - sz) n)
     else if n - sz \<noteq> 0 then
       (case do_swap mem 0 (n - sz) sz swap_func of
          None \<Rightarrow> None
        | Some mem1 \<Rightarrow> (case sort_sift cmp swap_func sz lsbit mem1 0 (n - sz) of
            None \<Rightarrow> None
          | Some mem2 \<Rightarrow> sort_loop cmp swap_func sz lsbit mem2 0 (n - sz)))
     else Some mem)"

definition swap_choice :: "bool \<Rightarrow> u64 \<Rightarrow> u64 \<Rightarrow> swap_func_t option \<Rightarrow> swap_func_t" where
  "swap_choice efficient base sz swap_func =
    (case swap_func of
       Some f \<Rightarrow> f
     | None \<Rightarrow> if is_aligned efficient base sz 8 then SWAP_WORDS_64
               else if is_aligned efficient base sz 4 then SWAP_WORDS_32 else SWAP_BYTES)"

text \<open>
  The comparison function comes with its private argument. \<open>None\<close> for the swap function is \<^verbatim>\<open>NULL\<close>.
\<close>

definition sort_r :: "bool \<Rightarrow> u64 \<Rightarrow> bytes \<Rightarrow> u64 \<Rightarrow> u64 \<Rightarrow> (bytes \<Rightarrow> bytes \<Rightarrow> int) \<Rightarrow> swap_func_t option \<Rightarrow> bytes option" where
  "sort_r efficient base mem num sz cmp swap_func =
    (let n = num * sz; a = (num div 2) * sz; lsbit = ucast (sz AND - sz) in
     if a = 0 then Some mem
     else sort_loop cmp (swap_choice efficient base sz swap_func) sz lsbit mem a n)"

definition sort_array :: "bool \<Rightarrow> u64 \<Rightarrow> bytes \<Rightarrow> u64 \<Rightarrow> u64 \<Rightarrow> (bytes \<Rightarrow> bytes \<Rightarrow> int) \<Rightarrow> swap_func_t option \<Rightarrow> bytes option" where
  "sort_array efficient base mem num sz cmp swap_func = sort_r efficient base mem num sz cmp swap_func"

declare swap_loop.simps [code] sift_down.simps [code] backtrack.simps [code] shift_into.simps [code] sort_loop.simps [code]

section \<open>Offsets and positions\<close>

lemma odd_part: "0 < (n :: nat) \<Longrightarrow> \<exists>k m. odd m \<and> n = 2 ^ k * m"
proof (induction n rule: less_induct)
  case (less n)
  show ?case
  proof (cases "odd n")
    case True
    then show ?thesis by (intro exI [of _ 0] exI [of _ n]) simp
  next
    case False
    then obtain q where q: "n = 2 * q" by blast
    then obtain k m where "odd m" "q = 2 ^ k * m" using less.IH [of q] less.prems by auto
    then show ?thesis using q by (intro exI [of _ "Suc k"] exI [of _ m]) simp
  qed
qed

lemma odd_and_minus: "odd m \<Longrightarrow> m AND - m = (1 :: 'a::len word)"
proof -
  assume o: "odd m"
  have "- m = NOT m + 1" by (simp add: minus_eq_not_plus_1)
  also have "NOT m + 1 = NOT m OR 1" using o by (intro disjunctive_add) (auto simp: bit_1_iff bit_not_iff bit_0)
  finally have "m AND - m = m AND (NOT m OR 1)" by simp
  also have "\<dots> = m AND 1" by (rule bit_word_eqI) (auto simp: bit_simps)
  finally show ?thesis using o by (simp add: and_one_eq odd_iff_mod_2_eq_one)
qed

text \<open>The least bit of a size, shifted out.\<close>

lemma least_bit:
  assumes "sz = push_bit k m" "odd m"
  shows "sz AND - sz = (push_bit k 1 :: 'a::len word)"
proof -
  have "- sz = push_bit k (- m)" by (simp add: assms(1) push_bit_eq_mult)
  then have "sz AND - sz = push_bit k (m AND - m)" by (simp add: assms(1) push_bit_and)
  then show ?thesis by (simp add: odd_and_minus [OF assms(2)])
qed

lemma multiple_bit:
  assumes "sz = push_bit k m" "odd m"
  shows "sz AND - (x * sz AND push_bit k 1) = (if odd x then sz else (0 :: 'a::len word))"
proof -
  have "x * sz = push_bit k (x * m)" by (simp add: assms(1) push_bit_eq_mult)
  then have "x * sz AND push_bit k 1 = push_bit k (x * m AND 1)" by (simp only: push_bit_and)
  then have "x * sz AND push_bit k 1 = (if odd x then push_bit k 1 else 0)" using assms(2) by (simp add: and_one_eq mod_2_eq_odd)
  moreover have "sz AND - push_bit k 1 = sz"
  proof -
    have "- push_bit k 1 = push_bit k (- 1 :: 'a word)" by (simp add: push_bit_eq_mult)
    then have "sz AND - push_bit k 1 = push_bit k (m AND - 1)" by (simp only: assms(1) push_bit_and)
    then show ?thesis by (simp add: assms(1))
  qed
  ultimately show ?thesis by auto
qed

text \<open>Arrays whose offsets do not overflow. The least bit is kept in 32 bits.\<close>

definition fits :: "nat \<Rightarrow> u64 \<Rightarrow> bool" where
  "fits num sz \<longleftrightarrow> sz \<noteq> 0 \<and> unat sz < 2 ^ 32 \<and> num * unat sz \<le> 2 ^ 62"

abbreviation byte_off :: "u64 \<Rightarrow> nat \<Rightarrow> u64" where
  "byte_off sz i \<equiv> word_of_nat i * sz"

lemma unat_off: "fits num sz \<Longrightarrow> i \<le> 2 * num + 2 \<Longrightarrow> unat (byte_off sz i) = i * unat sz"
proof -
  assume f: "fits num sz" and i: "i \<le> 2 * num + 2"
  have "i * unat sz \<le> (2 * num + 2) * unat sz" using i by (rule mult_le_mono1)
  also have "\<dots> = 2 * (num * unat sz) + 2 * unat sz" by (simp add: algebra_simps)
  also have "\<dots> < 2 ^ 64" using f by (simp add: fits_def)
  finally have l: "i * unat sz < 2 ^ 64" .
  have "unat (byte_off sz i) = (i * unat sz) mod 2 ^ 64" by (simp add: unat_word_ariths unsigned_of_nat take_bit_eq_mod mod_mult_left_eq)
  then show ?thesis using l by simp
qed

lemma off_simps: "byte_off sz (Suc i) = byte_off sz i + sz" "2 * byte_off sz i = byte_off sz (2 * i)" "byte_off sz 0 = 0"
  by (simp_all add: algebra_simps)

lemma off_less: "fits num sz \<Longrightarrow> i \<le> 2 * num + 2 \<Longrightarrow> j \<le> 2 * num + 2 \<Longrightarrow> byte_off sz i < byte_off sz j \<longleftrightarrow> i < j"
  using unat_off [of num sz i] unat_off [of num sz j] by (simp add: word_less_nat_alt fits_def unat_eq_0 [symmetric])

lemma off_eq: "fits num sz \<Longrightarrow> i \<le> 2 * num + 2 \<Longrightarrow> j \<le> 2 * num + 2 \<Longrightarrow> byte_off sz i = byte_off sz j \<longleftrightarrow> i = j"
  using off_less [of num sz i j] off_less [of num sz j i] by (metis linorder_neqE_nat order_less_irrefl)

lemma off_even: "byte_off sz i - (if odd i then sz else 0) = byte_off sz (2 * (i div 2))"
proof (cases "odd i")
  case True
  then obtain q where "i = 2 * q + 1" by (rule oddE)
  then show ?thesis by (simp add: algebra_simps)
qed simp

lemma parent_off:
  assumes "fits num sz" "0 < j" "j \<le> num"
  shows "parent (byte_off sz j) (ucast (sz AND - sz)) sz = byte_off sz (par j)"
proof -
  obtain k m where km: "odd m" "unat sz = 2 ^ k * m" using odd_part [of "unat sz"] assms(1) by (auto simp: fits_def unat_gt_0)
  have "sz = word_of_nat (2 ^ k * m)" unfolding km(2) [symmetric] by simp
  then have sz: "sz = push_bit k (word_of_nat m)" by (simp add: push_bit_eq_mult mult.commute)
  have o: "odd (word_of_nat m :: u64)" using km(1) by (simp add: even_of_nat)
  have "2 ^ k \<le> unat sz" using km by (cases m) auto
  then have k: "k < 32" using assms(1) power_less_imp_less_exp [of "2 :: nat" k 32] by (simp add: fits_def)
  have "ucast (ucast (push_bit k 1 :: u64) :: u32) = (push_bit k 1 :: u64)"
    using k by (intro bit_word_eqI) (auto simp: bit_simps)
  then have lsb: "ucast (ucast (sz AND - sz) :: u32) = (push_bit k 1 :: u64)" by (simp only: least_bit [OF sz o])
  let ?x = "word_of_nat (j - 1) :: u64" and ?q = "(j - 1) div 2"
  have i1: "byte_off sz j - sz = ?x * sz" using assms(2) by (cases j) (simp_all add: algebra_simps)
  have "?x * sz - (sz AND - (?x * sz AND push_bit k 1)) = byte_off sz (2 * ?q)"
    unfolding multiple_bit [OF sz o] by (simp only: even_of_nat off_even)
  then have "parent (byte_off sz j) (ucast (sz AND - sz)) sz = byte_off sz (2 * ?q) div 2" by (simp only: parent_def Let_def i1 lsb)
  also have "\<dots> = byte_off sz ?q"
    using unat_off [OF assms(1), of "2 * ?q"] unat_off [OF assms(1), of ?q] assms(3) by (intro word_unat_eq_iff [THEN iffD2]) (simp add: unat_div)
  finally show ?thesis by (simp add: par_def)
qed

section \<open>Swapping elements\<close>

lemma put_bytes_nth: "p < length mem \<Longrightarrow> at + length bs \<le> length mem \<Longrightarrow> put_bytes mem at bs ! p = (if at \<le> p \<and> p < at + length bs then bs ! (p - at) else mem ! p)"
  by (auto simp: put_bytes_def nth_append)

lemma put_bytes_length: "at + length bs \<le> length mem \<Longrightarrow> length (put_bytes mem at bs) = length mem"
  by (simp add: put_bytes_def)

definition apart_by :: "nat \<Rightarrow> nat \<Rightarrow> nat \<Rightarrow> bool" where
  "apart_by n a b \<longleftrightarrow> a + n \<le> b \<or> b + n \<le> a"

definition swapped :: "nat \<Rightarrow> nat \<Rightarrow> nat \<Rightarrow> nat \<Rightarrow> bytes \<Rightarrow> bytes \<Rightarrow> bool" where
  "swapped lo n a b mem mem' \<longleftrightarrow> length mem' = length mem \<and>
    (\<forall>p < length mem. mem' ! p = (if a + lo \<le> p \<and> p < a + n then mem ! (b + (p - a)) else if b + lo \<le> p \<and> p < b + n then mem ! (a + (p - b)) else mem ! p))"

lemma swap_chunk_nth:
  assumes "unat a + w \<le> length mem" "unat b + w \<le> length mem" "p < length mem"
  shows "swap_chunk w mem a b ! p =
    (if unat b \<le> p \<and> p < unat b + w then mem ! (unat a + (p - unat b))
     else if unat a \<le> p \<and> p < unat a + w then mem ! (unat b + (p - unat a)) else mem ! p)"
  using assms by (simp add: swap_chunk_def Let_def put_bytes_length put_bytes_nth less_diff_conv2)

lemma swap_chunk_length:
  assumes "unat a + w \<le> length mem" "unat b + w \<le> length mem" shows "length (swap_chunk w mem a b) = length mem"
  using assms by (simp add: swap_chunk_def Let_def put_bytes_length)

lemma swap_chunk_swapped:
  assumes "apart_by (lo + w) (unat a) (unat b)" "unat a + lo + w \<le> length mem" "unat b + lo + w \<le> length mem"
    and "unat a1 = unat a + lo" "unat b1 = unat b + lo"
  shows "swapped lo (lo + w) (unat a) (unat b) mem (swap_chunk w mem a1 b1)"
proof -
  have l: "unat a1 + w \<le> length mem" "unat b1 + w \<le> length mem" using assms(2-) by simp_all
  show ?thesis unfolding swapped_def
  proof (intro conjI allI impI)
    fix p assume p: "p < length mem"
    consider "unat a + lo \<le> p \<and> p < unat a + (lo + w)" | "unat b + lo \<le> p \<and> p < unat b + (lo + w)" "\<not> (unat a + lo \<le> p \<and> p < unat a + (lo + w))"
      | "\<not> (unat a + lo \<le> p \<and> p < unat a + (lo + w))" "\<not> (unat b + lo \<le> p \<and> p < unat b + (lo + w))" by blast
    then show "swap_chunk w mem a1 b1 ! p = (if unat a + lo \<le> p \<and> p < unat a + (lo + w) then mem ! (unat b + (p - unat a))
        else if unat b + lo \<le> p \<and> p < unat b + (lo + w) then mem ! (unat a + (p - unat b)) else mem ! p)"
      using assms(1) unfolding swap_chunk_nth [OF l p] assms(4,5) by cases (auto simp: apart_by_def)
  qed (simp add: swap_chunk_length [OF l])
qed

lemma swapped_trans:
  assumes "swapped m n a b mem mem1" "swapped 0 m a b mem1 mem2" "m \<le> n" "apart_by n a b" "a + n \<le> length mem" "b + n \<le> length mem"
  shows "swapped 0 n a b mem mem2"
proof -
  have l: "length mem1 = length mem" "length mem2 = length mem" using assms(1,2) by (simp_all add: swapped_def)
  have 1: "mem1 ! p = (if a + m \<le> p \<and> p < a + n then mem ! (b + (p - a)) else if b + m \<le> p \<and> p < b + n then mem ! (a + (p - b)) else mem ! p)"
    if "p < length mem" for p using assms(1) that by (simp add: swapped_def)
  have 2: "mem2 ! p = (if a \<le> p \<and> p < a + m then mem1 ! (b + (p - a)) else if b \<le> p \<and> p < b + m then mem1 ! (a + (p - b)) else mem1 ! p)"
    if "p < length mem" for p using assms(2) l that by (simp add: swapped_def)
  have "mem2 ! p = (if a \<le> p \<and> p < a + n then mem ! (b + (p - a)) else if b \<le> p \<and> p < b + n then mem ! (a + (p - b)) else mem ! p)"
    if p: "p < length mem" for p
  proof -
    consider "a \<le> p \<and> p < a + m" | "b \<le> p \<and> p < b + m" | "\<not> (a \<le> p \<and> p < a + m)" "\<not> (b \<le> p \<and> p < b + m)" by blast
    then show ?thesis using 2 [OF p] 1 [OF p] 1 [of "b + (p - a)"] 1 [of "a + (p - b)"] assms(3-) by cases (auto simp: apart_by_def)
  qed
  then show ?thesis using l by (simp add: swapped_def)
qed

lemma swap_loop_swapped:
  assumes "0 < w" "0 < q" "unat n = w * q" "apart_by (unat n) (unat a) (unat b)" "unat a + unat n \<le> length mem" "unat b + unat n \<le> length mem"
    and "length mem < 2 ^ 64"
  shows "\<exists>mem'. swap_loop w mem a b n = Some mem' \<and> swapped 0 (unat n) (unat a) (unat b) mem mem'"
  using assms
proof (induction q arbitrary: n mem)
  case (Suc q)
  let ?n1 = "n - word_of_nat w"
  let ?mem1 = "swap_chunk w mem (a + ?n1) (b + ?n1)"
  have wn: "w \<le> unat n" using Suc.prems(3) by simp
  moreover have "unat n < 2 ^ 64" using unsigned_less [of n] by simp
  ultimately have "unat (word_of_nat w :: u64) = w" by (simp add: unsigned_of_nat take_bit_nat_eq_self)
  then have n1: "unat ?n1 = w * q" using Suc.prems(3) wn by (simp add: unat_sub word_le_nat_alt)
  have n: "unat n = w * q + w" using Suc.prems(3) by simp
  have "unat (x + ?n1) = unat x + w * q" if "unat x + unat n \<le> length mem" for x :: u64
    using that Suc.prems(7) n n1 by (simp add: unat_add_lem [THEN iffD1])
  then have s: "swapped (w * q) (unat n) (unat a) (unat b) mem ?mem1"
    unfolding n using Suc.prems(4-6) n by (intro swap_chunk_swapped) auto
  show ?case
  proof (cases "q = 0")
    case True
    then have "?n1 = 0" using n1 by (simp add: unat_eq_0)
    then have "swap_loop w mem a b n = Some ?mem1" by (subst swap_loop.simps) (simp add: Let_def)
    then show ?thesis using s True by simp
  next
    case False
    have nz: "?n1 \<noteq> 0" using n1 False Suc.prems(1) by (auto simp: unat_eq_0 [symmetric])
    have l: "length ?mem1 = length mem" using s by (simp add: swapped_def)
    obtain mem2 where m2: "swap_loop w ?mem1 a b ?n1 = Some mem2" "swapped 0 (w * q) (unat a) (unat b) ?mem1 mem2"
      using Suc.IH [of ?n1 ?mem1] Suc.prems n n1 False l by (auto simp: apart_by_def)
    moreover have "swap_loop w mem a b n = swap_loop w ?mem1 a b ?n1" using nz by (subst swap_loop.simps) (simp add: Let_def)
    ultimately show ?thesis using swapped_trans [OF s m2(2)] Suc.prems(4-6) n by auto
  qed
qed simp

text \<open>The array as a list of elements.\<close>

definition elems :: "nat \<Rightarrow> bytes \<Rightarrow> nat \<Rightarrow> bytes list" where
  "elems s mem num = map (\<lambda>i. take s (drop (i * s) mem)) [0..<num]"

lemma elems_length [simp]: "length (elems s mem num) = num"
  by (simp add: elems_def)

lemma elem_off: "fits num sz \<Longrightarrow> i < num \<Longrightarrow> elem mem (byte_off sz i) sz = elems (unat sz) mem num ! i"
  using unat_off [of num sz i] by (simp add: elem_def elems_def)

lemma block_end: "i < num \<Longrightarrow> i * s + s \<le> num * (s :: nat)"
  by (metis Suc_leI add.commute mult_Suc mult_le_mono1)

lemma blocks_apart: "i \<noteq> j \<Longrightarrow> apart_by s (i * s) (j * s)"
proof -
  assume "i \<noteq> j"
  then consider "Suc i \<le> j" | "Suc j \<le> i" by linarith
  then show ?thesis using mult_le_mono1 [of "Suc i" j s] mult_le_mono1 [of "Suc j" i s] by cases (auto simp: apart_by_def)
qed

text \<open>Memory that holds \<open>xs\<close> and, behind it, \<open>rest\<close>.\<close>

definition holds :: "u64 \<Rightarrow> bytes \<Rightarrow> bytes list \<Rightarrow> bytes \<Rightarrow> bool" where
  "holds sz mem xs rest \<longleftrightarrow> length xs * unat sz \<le> length mem \<and> length mem < 2 ^ 64 \<and> elems (unat sz) mem (length xs) = xs \<and>
    drop (length xs * unat sz) mem = rest"

lemma holds_elem: "fits (length xs) sz \<Longrightarrow> holds sz mem xs rest \<Longrightarrow> i < length xs \<Longrightarrow> elem mem (byte_off sz i) sz = xs ! i"
  by (simp add: elem_off holds_def)

lemma swapped_block:
  assumes "swapped 0 s (i * s) (j * s) mem mem'" "i \<noteq> j" "i < num" "j < num" "k < num" "num * s \<le> length mem"
  shows "take s (drop (k * s) mem') = take s (drop ((if k = i then j else if k = j then i else k) * s) mem)"
proof (rule nth_equalityI)
  let ?k = "if k = i then j else if k = j then i else k"
  have l: "length mem' = length mem" using assms(1) by (simp add: swapped_def)
  have k: "?k < num" using assms(3-5) by simp
  have b: "k * s + s \<le> length mem" "?k * s + s \<le> length mem" using block_end [OF assms(5), of s] block_end [OF k, of s] assms(6) by auto
  then show "length (take s (drop (k * s) mem')) = length (take s (drop (?k * s) mem))" using l by simp
  fix p assume "p < length (take s (drop (k * s) mem'))"
  then have p: "p < s" by simp
  have e: "mem' ! (k * s + p) = (if i * s \<le> k * s + p \<and> k * s + p < i * s + s then mem ! (j * s + (k * s + p - i * s))
      else if j * s \<le> k * s + p \<and> k * s + p < j * s + s then mem ! (i * s + (k * s + p - j * s)) else mem ! (k * s + p))"
    using assms(1) b(1) p by (simp add: swapped_def)
  have out: "\<not> (x * s \<le> k * s + p \<and> k * s + p < x * s + s)" if "k \<noteq> x" for x
    using blocks_apart [OF that, of s] p by (auto simp: apart_by_def)
  have "mem' ! (k * s + p) = mem ! (?k * s + p)"
    using e out [of i] out [of j] p assms(2) by (cases "k = i"; cases "k = j") auto
  then show "take s (drop (k * s) mem') ! p = take s (drop (?k * s) mem) ! p" using b l p by simp
qed

lemma swapped_holds:
  assumes "holds sz mem xs rest" "swapped 0 (unat sz) (i * unat sz) (j * unat sz) mem mem'" "i \<noteq> j" "i < length xs" "j < length xs"
  shows "holds sz mem' (exchange xs i j) rest"
proof -
  let ?s = "unat sz" and ?n = "length xs"
  have h: "?n * ?s \<le> length mem" "elems ?s mem ?n = xs" "drop (?n * ?s) mem = rest" "length mem < 2 ^ 64" using assms(1) by (simp_all add: holds_def)
  have l: "length mem' = length mem" using assms(2) by (simp add: swapped_def)
  have "elems ?s mem' ?n = exchange xs i j"
  proof (rule nth_equalityI)
    fix k assume "k < length (elems ?s mem' ?n)"
    then have k: "k < ?n" by simp
    let ?k = "if k = i then j else if k = j then i else k"
    have "elems ?s mem' ?n ! k = elems ?s mem ?n ! ?k"
      using swapped_block [OF assms(2-5) k h(1)] k assms(4,5) by (auto simp: elems_def)
    also have "\<dots> = exchange xs i j ! k" using assms(3-5) by (simp add: h(2) exchange_nth)
    finally show "elems ?s mem' ?n ! k = exchange xs i j ! k" .
  qed simp
  moreover have "drop (?n * ?s) mem' = drop (?n * ?s) mem"
  proof (rule drop_same [OF l])
    fix p assume "?n * ?s \<le> p" "p < length mem"
    then show "mem' ! p = mem ! p"
      using assms(2) block_end [OF assms(4), of ?s] block_end [OF assms(5), of ?s] by (simp add: swapped_def)
  qed
  ultimately show ?thesis using h l by (simp add: holds_def)
qed

text \<open>A swap function that swaps two elements of this size.\<close>

definition good_swap :: "u64 \<Rightarrow> swap_func_t \<Rightarrow> bool" where
  "good_swap sz sf \<longleftrightarrow> (\<forall>mem a b. apart_by (unat sz) (unat a) (unat b) \<and> unat a + unat sz \<le> length mem \<and> unat b + unat sz \<le> length mem \<and>
    length mem < 2 ^ 64 \<longrightarrow> (\<exists>mem'. do_swap mem a b sz sf = Some mem' \<and> swapped 0 (unat sz) (unat a) (unat b) mem mem'))"

lemma good_swapI:
  assumes "sz \<noteq> 0" "0 < w" "w dvd unat sz" "\<And>mem a b. do_swap mem a b sz sf = swap_loop w mem a b sz"
  shows "good_swap sz sf"
proof -
  obtain q where "unat sz = w * q" using assms(3) by blast
  moreover have "0 < q" using assms(1) calculation by (cases q) (auto simp: unat_eq_0)
  ultimately show ?thesis using swap_loop_swapped [OF assms(2), of q sz] assms(4) by (auto simp: good_swap_def)
qed

lemma do_swap_holds:
  assumes "fits (length xs) sz" "holds sz mem xs rest" "good_swap sz sf" "i \<noteq> j" "i < length xs" "j < length xs"
  shows "\<exists>mem'. do_swap mem (byte_off sz i) (byte_off sz j) sz sf = Some mem' \<and> holds sz mem' (exchange xs i j) rest"
proof -
  have u: "unat (byte_off sz i) = i * unat sz" "unat (byte_off sz j) = j * unat sz" using unat_off [OF assms(1)] assms(5,6) by simp_all
  have "i * unat sz + unat sz \<le> length mem" "j * unat sz + unat sz \<le> length mem" "length mem < 2 ^ 64"
    using block_end [OF assms(5), of "unat sz"] block_end [OF assms(6), of "unat sz"] assms(2) by (simp_all add: holds_def)
  then obtain mem' where "do_swap mem (byte_off sz i) (byte_off sz j) sz sf = Some mem'" "swapped 0 (unat sz) (i * unat sz) (j * unat sz) mem mem'"
    using assms(3) blocks_apart [OF assms(4), of "unat sz"] unfolding good_swap_def u [symmetric] by blast
  then show ?thesis using swapped_holds [OF assms(2) _ assms(4-6)] by blast
qed

section \<open>The loops on positions\<close>

lemma sift_down_off:
  assumes "fits (length xs) sz" "holds sz mem xs rest" "b < n" "n \<le> length xs"
  shows "sift_down cmp mem sz (byte_off sz n) (byte_off sz b) = Some (byte_off sz (last (spine cmp xs n b)))"
  using assms(3)
proof (induction "n - b" arbitrary: b rule: less_induct)
  case less
  have c: "2 * byte_off sz b + sz = byte_off sz (2 * b + 1)" "byte_off sz (2 * b + 1) + sz = byte_off sz (2 * b + 2)" by (simp_all add: algebra_simps)
  have lt: "byte_off sz (2 * b + 2) < byte_off sz n \<longleftrightarrow> 2 * b + 2 < n" "byte_off sz (2 * b + 2) = byte_off sz n \<longleftrightarrow> 2 * b + 2 = n"
    by (rule off_less [OF assms(1)] off_eq [OF assms(1)]; use less.prems assms(4) in simp)+
  show ?case
  proof (cases "2 * b + 2 < n")
    case True
    define m where "m = (if cmp (xs ! (2 * b + 1)) (xs ! (2 * b + 2)) \<ge> 0 then 2 * b + 1 else 2 * b + 2)"
    have e: "elem mem (byte_off sz (2 * b + 1)) sz = xs ! (2 * b + 1)" "elem mem (byte_off sz (2 * b + 2)) sz = xs ! (2 * b + 2)"
      by (rule holds_elem [OF assms(1,2)]; use True assms(4) in simp)+
    have "sift_down cmp mem sz (byte_off sz n) (byte_off sz b) = sift_down cmp mem sz (byte_off sz n) (byte_off sz m)"
      by (subst sift_down.simps) (simp only: Let_def c lt e True if_True if_distrib [of "byte_off sz"] m_def)
    moreover have "spine cmp xs n b = b # spine cmp xs n m" using True by (subst spine.simps) (simp add: Let_def m_def)
    moreover have "b < m" "m < n" using True by (auto simp: m_def)
    ultimately show ?thesis using less.hyps [of m] by simp
  next
    case False
    then have "sift_down cmp mem sz (byte_off sz n) (byte_off sz b) = Some (if 2 * b + 2 = n then byte_off sz (2 * b + 1) else byte_off sz b)"
      by (subst sift_down.simps) (simp only: Let_def c lt if_False)
    moreover have "spine cmp xs n b = (if 2 * b + 2 = n then [b, 2 * b + 1] else [b])" using False by (subst spine.simps) (simp add: Let_def)
    ultimately show ?thesis by simp
  qed
qed

lemma backtrack_off:
  assumes "fits (length xs) sz" "holds sz mem xs rest" "a < n" "n \<le> length xs" "m < length (spine cmp xs n a)"
  shows "backtrack cmp mem sz (ucast (sz AND - sz)) (byte_off sz a) (byte_off sz (spine cmp xs n a ! m)) = Some (byte_off sz (climb cmp xs a (spine cmp xs n a ! m)))"
  using assms(5)
proof (induction m)
  case 0
  then show ?case by (subst backtrack.simps, subst climb.simps) simp
next
  case (Suc m)
  let ?b = "spine cmp xs n a ! Suc m"
  have b: "a < ?b" "?b < length xs" "par ?b = spine cmp xs n a ! m"
    using spine_mono [of 0 "Suc m" cmp xs n a] spine_less [OF assms(3) Suc.prems] spine_step [OF Suc.prems] Suc.prems assms(4) by auto
  have ne: "byte_off sz ?b \<noteq> byte_off sz a" using off_eq [OF assms(1), of ?b a] b by simp
  have e: "elem mem (byte_off sz a) sz = xs ! a" "elem mem (byte_off sz ?b) sz = xs ! ?b" using holds_elem [OF assms(1,2)] b by simp_all
  have p: "parent (byte_off sz ?b) (ucast (sz AND - sz)) sz = byte_off sz (par ?b)" using parent_off [OF assms(1)] b by simp
  show ?case
  proof (cases "cmp (xs ! a) (xs ! ?b) \<ge> 0")
    case True
    then have "backtrack cmp mem sz (ucast (sz AND - sz)) (byte_off sz a) (byte_off sz ?b) = backtrack cmp mem sz (ucast (sz AND - sz)) (byte_off sz a) (byte_off sz (par ?b))"
      using ne by (subst backtrack.simps) (simp only: e p if_True simp_thms)
    moreover have "climb cmp xs a ?b = climb cmp xs a (par ?b)" using True b by (subst climb.simps) simp
    ultimately show ?thesis using Suc b(3) by simp
  next
    case False
    then have "backtrack cmp mem sz (ucast (sz AND - sz)) (byte_off sz a) (byte_off sz ?b) = Some (byte_off sz ?b)"
      by (subst backtrack.simps) (simp only: e if_False simp_thms)
    moreover have "climb cmp xs a ?b = ?b" using False by (subst climb.simps) simp
    ultimately show ?thesis by simp
  qed
qed

lemma shift_off:
  assumes "fits (length ys) sz" "holds sz mem ys rest" "good_swap sz sf" "a < n" "n \<le> length ys" "j \<le> k" "k < length (spine cmp xs n a)"
  shows "\<exists>mem'. shift_into sf sz (ucast (sz AND - sz)) (byte_off sz a) (byte_off sz (spine cmp xs n a ! j)) (byte_off sz (spine cmp xs n a ! k)) mem = Some mem' \<and>
    holds sz mem' (rotate_up ys a (spine cmp xs n a ! j) (spine cmp xs n a ! k)) rest"
  using assms(1,2,5,6)
proof (induction j arbitrary: ys mem)
  case 0
  then show ?case by (subst shift_into.simps, subst rotate_up.simps) simp
next
  case (Suc j)
  let ?s = "spine cmp xs n a" and ?l = "ucast (sz AND - sz) :: u32"
  have b: "a < ?s ! Suc j" "?s ! Suc j < length ys" "par (?s ! Suc j) = ?s ! j" "?s ! j < ?s ! k" "?s ! k < length ys"
    using spine_mono [of 0 "Suc j" cmp xs n a] spine_less [OF assms(4), of "Suc j" cmp xs] spine_less [OF assms(4,7)]
      spine_step [of j cmp xs n a] spine_mono [of j k cmp xs n a] Suc.prems assms(7) by auto
  have ne: "byte_off sz (?s ! Suc j) \<noteq> byte_off sz a" using off_eq [OF Suc.prems(1), of "?s ! Suc j" a] b by simp
  have p: "parent (byte_off sz (?s ! Suc j)) ?l sz = byte_off sz (?s ! j)" using parent_off [OF Suc.prems(1), of "?s ! Suc j"] b by simp
  obtain mem1 where m1: "do_swap mem (byte_off sz (?s ! j)) (byte_off sz (?s ! k)) sz sf = Some mem1" "holds sz mem1 (exchange ys (?s ! j) (?s ! k)) rest"
    using do_swap_holds [OF Suc.prems(1,2) assms(3), of "?s ! j" "?s ! k"] b by auto
  have "shift_into sf sz ?l (byte_off sz a) (byte_off sz (?s ! Suc j)) (byte_off sz (?s ! k)) mem = shift_into sf sz ?l (byte_off sz a) (byte_off sz (?s ! j)) (byte_off sz (?s ! k)) mem1"
    using ne by (subst shift_into.simps) (simp only: Let_def p m1(1) option.case if_True not_False_eq_True)
  moreover have "rotate_up ys a (?s ! Suc j) (?s ! k) = rotate_up (exchange ys (?s ! j) (?s ! k)) a (?s ! j) (?s ! k)"
    using b by (subst rotate_up.simps) simp
  ultimately show ?case using Suc.IH [of "exchange ys (?s ! j) (?s ! k)" mem1] Suc.prems m1(2) by simp
qed

lemma sort_sift_off:
  assumes "fits (length xs) sz" "holds sz mem xs rest" "good_swap sz sf" "a < n" "n \<le> length xs"
  shows "\<exists>mem'. sort_sift cmp sf sz (ucast (sz AND - sz)) mem (byte_off sz a) (byte_off sz n) = Some mem' \<and> holds sz mem' (sift cmp xs a n) rest"
proof -
  let ?s = "spine cmp xs n a"
  have m: "length ?s - 1 < length ?s" "last ?s = ?s ! (length ?s - 1)" by (simp_all add: last_conv_nth)
  obtain k where k: "k < length ?s" "climb cmp xs a (last ?s) = ?s ! k"
    using climb_spine [OF m(1)] le_less_trans [OF _ m(1)] unfolding m(2) by blast
  from shift_off [OF assms order_refl k(1)] obtain mem' where
    "shift_into sf sz (ucast (sz AND - sz)) (byte_off sz a) (byte_off sz (?s ! k)) (byte_off sz (?s ! k)) mem = Some mem'"
    "holds sz mem' (rotate_up xs a (?s ! k) (?s ! k)) rest" using k(1) by blast
  then show ?thesis
    using sift_down_off [OF assms(1,2,4,5), of cmp] backtrack_off [OF assms(1,2,4,5) m(1)] k(2) m(2)
    by (simp add: sort_sift_def sift_def Let_def)
qed

lemma sort_loop_off:
  assumes "fits (length xs) sz" "holds sz mem xs rest" "good_swap sz sf" "a \<le> n" "0 < n" "n \<le> length xs"
  shows "\<exists>mem'. sort_loop cmp sf sz (ucast (sz AND - sz)) mem (byte_off sz a) (byte_off sz n) = Some mem' \<and> holds sz mem' (heap_sort cmp xs a n) rest"
  using assms(1,2,4-6)
proof (induction "a + n" arbitrary: xs mem a n rule: less_induct)
  case less
  let ?l = "ucast (sz AND - sz) :: u32"
  have zero: "byte_off sz i = 0 \<longleftrightarrow> i = 0" if "i \<le> length xs" for i using off_eq [OF less.prems(1), of i 0] that by simp
  have pred: "byte_off sz i - sz = byte_off sz (i - 1)" if "0 < i" for i using that by (cases i) (simp_all add: algebra_simps)
  have len: "length (sift cmp ys b m) = length ys" if "b < m" "m \<le> length ys" for ys :: "bytes list" and b m
    using that by (metis sift_sifted mset_eq_length)
  consider (build) "0 < a" | (root) "a = 0" "1 < n" | (stop) "a = 0" "n = 1" using less.prems(4) by linarith
  then show ?case
  proof cases
    case build
    then have lt: "a - 1 < n" using less.prems(3) by simp
    obtain mem1 where m1: "sort_sift cmp sf sz ?l mem (byte_off sz (a - 1)) (byte_off sz n) = Some mem1" "holds sz mem1 (sift cmp xs (a - 1) n) rest"
      using sort_sift_off [OF less.prems(1,2) assms(3) lt less.prems(5), of cmp] by blast
    have nz: "byte_off sz a \<noteq> 0" using build zero [of a] less.prems by simp
    have "sort_loop cmp sf sz ?l mem (byte_off sz a) (byte_off sz n) = sort_loop cmp sf sz ?l mem1 (byte_off sz (a - 1)) (byte_off sz n)"
      by (subst sort_loop.simps) (simp only: nz pred [OF build] m1(1) option.case if_True not_False_eq_True)
    moreover have "heap_sort cmp xs a n = heap_sort cmp (sift cmp xs (a - 1) n) (a - 1) n" using build by (subst heap_sort.simps) simp
    ultimately show ?thesis using less.hyps [of "a - 1" n "sift cmp xs (a - 1) n" mem1] less.prems m1(2) build len [of "a - 1" n xs] by simp
  next
    case root
    let ?xs = "exchange xs 0 (n - 1)"
    have i: "0 \<noteq> n - 1" "0 < length xs" "n - 1 < length xs" "n - 1 \<le> length ?xs" using root less.prems by auto
    have n: "0 < n" "byte_off sz (n - 1) \<noteq> 0" using root zero [of "n - 1"] less.prems by simp_all
    obtain mem1 where m1: "do_swap mem (byte_off sz 0) (byte_off sz (n - 1)) sz sf = Some mem1" "holds sz mem1 ?xs rest"
      using do_swap_holds [OF less.prems(1,2) assms(3) i(1-3)] by blast
    obtain mem2 where m2: "sort_sift cmp sf sz ?l mem1 (byte_off sz 0) (byte_off sz (n - 1)) = Some mem2" "holds sz mem2 (sift cmp ?xs 0 (n - 1)) rest"
      using sort_sift_off [OF _ m1(2) assms(3) _ i(4), of 0 cmp] less.prems(1) i(1) by (auto simp del: of_nat_0)
    have "sort_loop cmp sf sz ?l mem (byte_off sz a) (byte_off sz n) = sort_loop cmp sf sz ?l mem2 0 (byte_off sz (n - 1))"
      using root m1(1) m2(1) n(2) by (subst sort_loop.simps) (simp add: pred [OF n(1), unfolded One_nat_def])
    moreover have "heap_sort cmp xs a n = heap_sort cmp (sift cmp ?xs 0 (n - 1)) 0 (n - 1)" using root by (subst heap_sort.simps) simp
    ultimately show ?thesis using less.hyps [of 0 "n - 1" "sift cmp ?xs 0 (n - 1)" mem2] less.prems m2(2) root len [of 0 "n - 1" ?xs] by simp
  next
    case stop
    have "sort_loop cmp sf sz ?l mem (byte_off sz a) (byte_off sz n) = Some mem" using stop by (subst sort_loop.simps) simp
    moreover have "heap_sort cmp xs a n = xs" using stop by (subst heap_sort.simps) simp
    ultimately show ?thesis using less.prems by simp
  qed
qed

lemma is_aligned_dvd: "is_aligned efficient base sz (word_of_nat (2 ^ k)) \<Longrightarrow> k < 8 \<Longrightarrow> 2 ^ k dvd unat sz"
proof -
  assume al: "is_aligned efficient base sz (word_of_nat (2 ^ k))" and k: "k < 8"
  have m: "(word_of_nat (2 ^ k) - 1 :: u8) = mask k" by (simp add: mask_eq_decr_exp)
  have "(ucast sz :: u8) AND mask k = 0"
    using al unfolding is_aligned_def Let_def m by (auto simp: bit_eq_iff bit_simps split: if_splits)
  then have "take_bit k (ucast sz :: u8) = 0" by (simp add: take_bit_eq_mask)
  then have "\<not> bit sz i" if "i < k" for i using that k by (auto simp: bit_eq_iff bit_simps dest: spec [of _ i])
  then have "take_bit k sz = 0" by (intro bit_word_eqI) (auto simp: bit_simps)
  then have "take_bit k (unat sz) = 0" by (metis unat_0 unsigned_take_bit_eq)
  then show ?thesis by (simp add: take_bit_eq_0_iff)
qed

lemma default_swap: "sz \<noteq> 0 \<Longrightarrow> good_swap sz (swap_choice efficient base sz None)"
  using is_aligned_dvd [of efficient base sz 3] is_aligned_dvd [of efficient base sz 2]
    good_swapI [of sz 8 SWAP_WORDS_64] good_swapI [of sz 4 SWAP_WORDS_32] good_swapI [of sz 1 SWAP_BYTES]
  by (auto simp: swap_choice_def do_swap_def swap_words_64_def swap_words_32_def swap_bytes_def)

lemma sort_r_sorts:
  assumes "comparison cmp" "fits (unat num) sz" "unat num * unat sz \<le> length mem" "length mem < 2 ^ 64"
    and "swap_func = None \<or> good_swap sz (the swap_func)"
  shows "\<exists>mem'. sort_r efficient base mem num sz cmp swap_func = Some mem' \<and> ordered cmp (elems (unat sz) mem' (unat num)) \<and>
    mset (elems (unat sz) mem' (unat num)) = mset (elems (unat sz) mem (unat num)) \<and>
    length mem' = length mem \<and> drop (unat num * unat sz) mem' = drop (unat num * unat sz) mem"
proof -
  let ?n = "unat num" and ?xs = "elems (unat sz) mem (unat num)" and ?h = "unat num div 2"
  have sf: "good_swap sz (swap_choice efficient base sz swap_func)"
    using assms(2,5) default_swap [of sz efficient base] by (cases swap_func) (auto simp: fits_def swap_choice_def)
  have "?h < 2 ^ 64" using le_less_trans [OF div_le_dividend unsigned_less [of num]] by simp
  then have h: "num div 2 = word_of_nat ?h" by (simp add: word_unat_eq_iff unat_div unsigned_of_nat take_bit_nat_eq_self)
  have o: "num * sz = byte_off sz ?n" "(num div 2) * sz = byte_off sz ?h" by (simp_all add: h)
  have z: "byte_off sz ?h = 0 \<longleftrightarrow> ?n < 2" using off_eq [OF assms(2), of ?h 0] by auto
  have m: "holds sz mem ?xs (drop (?n * unat sz) mem)" using assms(3,4) by (simp add: holds_def)
  show ?thesis
  proof (cases "?n < 2")
    case True
    then have "?n = 0 \<or> ?n = 1" by linarith
    then have "ordered cmp ?xs" by (auto simp: ordered_def elems_def)
    moreover have "sort_r efficient base mem num sz cmp swap_func = Some mem" using True z unfolding sort_r_def Let_def o by (simp only: if_True)
    ultimately show ?thesis by simp
  next
    case False
    have "heap cmp ?xs ?h ?n" by (auto simp: heap_def par_def)
    moreover have "sorted_from cmp ?xs ?n" by (simp add: sorted_from_def ordered_def)
    ultimately have s: "ordered cmp (heap_sort cmp ?xs ?h ?n)" "mset (heap_sort cmp ?xs ?h ?n) = mset ?xs"
      using comparison.heap_sort_sorted [OF assms(1), of ?xs ?h ?n] False by auto
    from sort_loop_off [of ?xs sz mem "drop (?n * unat sz) mem" _ ?h ?n cmp, OF _ m sf] assms(2) False
    obtain mem' where m': "sort_loop cmp (swap_choice efficient base sz swap_func) sz (ucast (sz AND - sz)) mem (byte_off sz ?h) (byte_off sz ?n) = Some mem'"
      "holds sz mem' (heap_sort cmp ?xs ?h ?n) (drop (?n * unat sz) mem)" by auto
    have l: "length (heap_sort cmp ?xs ?h ?n) = ?n" using mset_eq_length [OF s(2)] by simp
    have d: "elems (unat sz) mem' ?n = heap_sort cmp ?xs ?h ?n" "drop (?n * unat sz) mem' = drop (?n * unat sz) mem" "?n * unat sz \<le> length mem'"
      using m'(2) by (simp_all add: holds_def l)
    have "length mem' = length mem" using arg_cong [OF d(2), of length] d(3) assms(3) by simp
    moreover have "sort_r efficient base mem num sz cmp swap_func = Some mem'" using False z m'(1) unfolding sort_r_def Let_def o by (simp only: if_False)
    ultimately show ?thesis using d s by simp
  qed
qed

section \<open>Binary search\<close>

text \<open>
  The comparison with the key, as a function of the element. The result is the offset of the element
  that was found, \<open>None\<close> for \<^verbatim>\<open>NULL\<close>.
\<close>

function inline_bsearch :: "(bytes \<Rightarrow> int) \<Rightarrow> bytes \<Rightarrow> u64 \<Rightarrow> u64 \<Rightarrow> u64 \<Rightarrow> u64 option" where
  "inline_bsearch cmp mem base num sz =
    (if num > 0 then
       let pivot = base + drop_bit 1 num * sz; result = cmp (elem mem pivot sz) in
       if result = 0 then Some pivot
       else if result > 0 then inline_bsearch cmp mem (pivot + sz) (drop_bit 1 (num - 1)) sz
       else inline_bsearch cmp mem base (drop_bit 1 num) sz
     else None)"
  by pat_completeness auto
termination
proof (relation "measure (\<lambda>(cmp, mem, base, num, sz). unat num)", goal_cases)
  case (2 cmp mem base num sz pivot result)
  then have "unat (num - 1) < unat num" by (simp add: unat_minus_one word_gt_0 unat_gt_0)
  moreover have "unat (drop_bit 1 (num - 1)) \<le> unat (num - 1)" by (simp add: drop_bit_eq_div unat_div)
  ultimately show ?case by simp
next
  case (3 cmp mem base num sz pivot result)
  then show ?case using unat_drop_bit_1_less [of num] by (simp add: word_gt_0)
qed simp

definition bsearch :: "(bytes \<Rightarrow> int) \<Rightarrow> bytes \<Rightarrow> u64 \<Rightarrow> u64 \<Rightarrow> u64 \<Rightarrow> u64 option" where
  "bsearch cmp mem base num sz = inline_bsearch cmp mem base num sz"

declare inline_bsearch.simps [simp del]

text \<open>An array in order: the key lies above a first part, matches a middle part, and lies below the rest.\<close>

definition key_sorted :: "('e \<Rightarrow> int) \<Rightarrow> 'e list \<Rightarrow> bool" where
  "key_sorted cmp xs \<longleftrightarrow> (\<forall>i j. i < j \<longrightarrow> j < length xs \<longrightarrow> (cmp (xs ! i) < 0 \<longrightarrow> cmp (xs ! j) < 0) \<and> (cmp (xs ! j) > 0 \<longrightarrow> cmp (xs ! i) > 0))"

lemma unat_drop_bit_one: "unat (drop_bit 1 n) = unat n div 2" for n :: u64
  by (simp add: drop_bit_eq_div unat_div)

lemma inline_bsearch_window:
  assumes "fits (length xs) sz" "holds sz mem xs rest" "key_sorted cmp xs" "lo + unat num \<le> length xs"
    and "\<And>i. i < length xs \<Longrightarrow> cmp (xs ! i) = 0 \<Longrightarrow> lo \<le> i \<and> i < lo + unat num"
  shows "case inline_bsearch cmp mem (byte_off sz lo) num sz of
      None \<Rightarrow> \<forall>i < length xs. cmp (xs ! i) \<noteq> 0
    | Some p \<Rightarrow> \<exists>i < length xs. p = byte_off sz i \<and> cmp (xs ! i) = 0"
  using assms(4,5)
proof (induction "unat num" arbitrary: lo num rule: less_induct)
  case less
  let ?h = "unat num div 2"
  let ?m = "lo + ?h"
  show ?case
  proof (cases "num > 0")
    case False
    then have "unat num = 0" by (simp add: word_gt_0)
    moreover have "inline_bsearch cmp mem (byte_off sz lo) num sz = None" using False by (subst inline_bsearch.simps) simp
    ultimately show ?thesis using less.prems(2) by fastforce
  next
    case True
    then have n: "0 < unat num" by (simp add: unat_gt_0 word_gt_0)
    then have m: "?m < length xs" "?m < lo + unat num" using less.prems(1) by simp_all
    have "drop_bit 1 num = word_of_nat ?h" using unat_drop_bit_one [of num] by (metis of_nat_unat ucast_id)
    then have p: "byte_off sz lo + drop_bit 1 num * sz = byte_off sz ?m" by (simp add: algebra_simps)
    have e: "elem mem (byte_off sz ?m) sz = xs ! ?m" by (rule holds_elem [OF assms(1,2) m(1)])
    have step: "inline_bsearch cmp mem (byte_off sz lo) num sz =
        (if cmp (xs ! ?m) = 0 then Some (byte_off sz ?m)
         else if cmp (xs ! ?m) > 0 then inline_bsearch cmp mem (byte_off sz (Suc ?m)) (drop_bit 1 (num - 1)) sz
         else inline_bsearch cmp mem (byte_off sz lo) (drop_bit 1 num) sz)"
      by (subst inline_bsearch.simps) (simp only: Let_def p e True if_True off_simps)
    have lt: "cmp (xs ! j) < 0" if "cmp (xs ! ?m) < 0" "?m < j" "j < length xs" for j using assms(3) that unfolding key_sorted_def by blast
    have gt: "cmp (xs ! i) > 0" if "cmp (xs ! ?m) > 0" "i < ?m" for i using assms(3) that m(1) unfolding key_sorted_def by blast
    consider (eq) "cmp (xs ! ?m) = 0" | (above) "cmp (xs ! ?m) > 0" | (below) "cmp (xs ! ?m) < 0" by linarith
    then show ?thesis
    proof cases
      case eq
      have "inline_bsearch cmp mem (byte_off sz lo) num sz = Some (byte_off sz ?m)"
        unfolding step by (rule if_P [OF eq])
      then show ?thesis using m(1) eq by auto
    next
      case above
      let ?n = "drop_bit 1 (num - 1)"
      have u: "unat ?n = (unat num - 1) div 2" using True by (simp only: unat_drop_bit_one unat_minus_one word_gt_0)
      have r: "inline_bsearch cmp mem (byte_off sz lo) num sz = inline_bsearch cmp mem (byte_off sz (Suc ?m)) ?n sz"
        unfolding step using above by (simp only: if_True if_False less_imp_neq [symmetric])
      have w: "lo \<le> i \<and> i < lo + unat num \<and> i > ?m" if "i < length xs" "cmp (xs ! i) = 0" for i
        using less.prems(2) [OF that] gt [OF above, of i] above that by (metis less_irrefl linorder_neqE_nat)
      have e: "Suc ?m + unat ?n = lo + unat num" unfolding u using n by linarith
      show ?thesis unfolding r
      proof (rule less.hyps)
        show "unat ?n < unat num" unfolding u using n by linarith
        show "Suc ?m \<le> i \<and> i < Suc ?m + unat ?n" if "i < length xs" "cmp (xs ! i) = 0" for i using w [OF that] e by linarith
      qed (use e less.prems(1) in simp)
    next
      case below
      let ?n = "drop_bit 1 num"
      have r: "inline_bsearch cmp mem (byte_off sz lo) num sz = inline_bsearch cmp mem (byte_off sz lo) ?n sz"
        unfolding step using below by auto
      have "lo \<le> i \<and> i < ?m" if "i < length xs" "cmp (xs ! i) = 0" for i
        using less.prems(2) [OF that] lt [OF below, of i] below that by (metis less_irrefl linorder_neqE_nat)
      then show ?thesis unfolding r using less.prems(1) n by (intro less.hyps) (auto simp: unat_drop_bit_one [unfolded One_nat_def])
    qed
  qed
qed

lemma bsearch_finds:
  assumes "fits (length xs) sz" "holds sz mem xs rest" "key_sorted cmp xs" "unat num = length xs"
  shows "case bsearch cmp mem 0 num sz of
      None \<Rightarrow> \<forall>i < length xs. cmp (xs ! i) \<noteq> 0
    | Some p \<Rightarrow> \<exists>i < length xs. p = byte_off sz i \<and> cmp (xs ! i) = 0"
  using inline_bsearch_window [OF assms(1-3), of 0 num] assms(4) by (simp add: bsearch_def)

section \<open>Properties\<close>

text \<open>
  C9. \<^verbatim>\<open>sort\<close> sorts: with a comparison function that is a total preorder and a swap function that swaps (the
  built-in ones do), the array of \<open>num\<close> elements ends up in order, as a permutation of what it held, and
  no byte behind it is touched. The sort ends. Elements are smaller than 4 GiB, as the least bit of the
  size is kept in 32 bits.
\<close>

theorem sort_sorts:
  assumes "comparison cmp" and "fits (unat num) sz" and "unat num * unat sz \<le> length mem" and "length mem < 2 ^ 64"
    and "swap_func = None \<or> good_swap sz (the swap_func)"
  shows "\<exists>mem'. sort_array efficient base mem num sz cmp swap_func = Some mem' \<and> ordered cmp (elems (unat sz) mem' (unat num)) \<and>
    mset (elems (unat sz) mem' (unat num)) = mset (elems (unat sz) mem (unat num)) \<and>
    length mem' = length mem \<and> drop (unat num * unat sz) mem' = drop (unat num * unat sz) mem"
  using sort_r_sorts [OF assms] by (simp add: sort_array_def)

definition cmp_first :: "bytes \<Rightarrow> bytes \<Rightarrow> int" where
  "cmp_first a b = uint (hd a) - uint (hd b)"

theorem sort_sorts_witness:
  "sort_array True 0 [3, 1, 1, 2, 2, 3, 9, 4, 5, 5, 0] 5 2 cmp_first None = Some [1, 2, 2, 3, 3, 1, 5, 5, 9, 4, 0] \<and>
   ordered cmp_first [[1, 2], [2, 3], [3, 1], [5, 5], [9, 4]]"
proof -
  let ?mem = "[3, 1, 1, 2, 2, 3, 9, 4, 5, 5, 0] :: bytes" and ?mem' = "[1, 2, 2, 3, 3, 1, 5, 5, 9, 4, 0] :: bytes"
  have c: "comparison cmp_first" by unfold_locales (auto simp: cmp_first_def)
  have f: "fits (unat (5 :: u64)) 2" "unat (5 :: u64) * unat (2 :: u64) \<le> length ?mem" "length ?mem < 2 ^ 64"
    by (simp_all add: fits_def)
  have r: "sort_array True 0 ?mem 5 2 cmp_first None = Some ?mem'" by code_simp
  have "elems (unat (2 :: u64)) ?mem' (unat (5 :: u64)) = [[1, 2], [2, 3], [3, 1], [5, 5], [9, 4]]" by code_simp
  then show ?thesis using sort_sorts [OF c f, of None True 0] r by auto
qed

end
