(* ===== verification/Idmap.thy ===== *)
theory Idmap
  imports Sort
begin

text \<open>
  The maps of user, group and project ids of a user namespace, from \<^verbatim>\<open>kernel/user_namespace.c\<close>: looking ids up in
  a small map by scanning and in a large one by \<^verbatim>\<open>bsearch\<close>, inserting extents, and sorting the two arrays of
  a large map with \<^verbatim>\<open>sort\<close>. A well-formed map is shown to be a partial bijection between ids and kernel ids.
\<close>

unbundle bit_operations_syntax

section \<open>Extents and maps\<close>

record uid_gid_extent =
  ext_first :: u32
  ext_lower_first :: u32
  ext_count :: u32

text \<open>
  The union of \<^verbatim>\<open>struct uid_gid_map\<close> is three fields here: \<open>nr_extents\<close> says which of them the code may read,
  \<open>extent\<close> up to five extents, the arrays \<open>forward\<close> and \<open>reverse\<close> above.
\<close>

record uid_gid_map =
  nr_extents :: u32
  extent :: "uid_gid_extent list"
  forward :: "uid_gid_extent list"
  reverse :: "uid_gid_extent list"

abbreviation (input) UID_GID_MAP_MAX_BASE_EXTENTS :: u32 where "UID_GID_MAP_MAX_BASE_EXTENTS \<equiv> 5"
abbreviation (input) UID_GID_MAP_MAX_EXTENTS :: u32 where "UID_GID_MAP_MAX_EXTENTS \<equiv> 340"

definition zero_extent :: uid_gid_extent where
  "zero_extent = \<lparr>ext_first = 0, ext_lower_first = 0, ext_count = 0\<rparr>"

definition empty_map :: uid_gid_map where
  "empty_map = \<lparr>nr_extents = 0, extent = replicate 5 zero_extent, forward = [], reverse = []\<rparr>"

text \<open>The bytes of an extent, for \<^verbatim>\<open>sort\<close> and \<^verbatim>\<open>bsearch\<close>, which know nothing of the type.\<close>

definition u32_bytes :: "u32 \<Rightarrow> bytes" where
  "u32_bytes w = [ucast w, ucast (drop_bit 8 w), ucast (drop_bit 16 w), ucast (drop_bit 24 w)]"

definition bytes_u32 :: "bytes \<Rightarrow> u32" where
  "bytes_u32 b = ucast (b ! 0) OR push_bit 8 (ucast (b ! 1)) OR push_bit 16 (ucast (b ! 2)) OR push_bit 24 (ucast (b ! 3))"

definition enc_extent :: "uid_gid_extent \<Rightarrow> bytes" where
  "enc_extent e = u32_bytes (ext_first e) @ u32_bytes (ext_lower_first e) @ u32_bytes (ext_count e)"

definition dec_extent :: "bytes \<Rightarrow> uid_gid_extent" where
  "dec_extent b = \<lparr>ext_first = bytes_u32 b, ext_lower_first = bytes_u32 (drop 4 b), ext_count = bytes_u32 (drop 8 b)\<rparr>"

definition enc_array :: "uid_gid_extent list \<Rightarrow> bytes" where
  "enc_array es = concat (map enc_extent es)"

section \<open>Looking up an id\<close>

record idmap_key =
  map_up :: bool
  key_id :: u32
  key_count :: u32

definition cmp_map_id :: "idmap_key \<Rightarrow> uid_gid_extent \<Rightarrow> int" where
  "cmp_map_id key el =
    (let id2 = key_id key + key_count key - 1;
         first = (if map_up key then ext_lower_first el else ext_first el);
         last = first + ext_count el - 1
     in if key_id key \<ge> first \<and> key_id key \<le> last \<and> (id2 \<ge> first \<and> id2 \<le> last) then 0
        else if key_id key < first \<or> id2 < first then - 1
        else 1)"

definition bsearch_extents :: "idmap_key \<Rightarrow> uid_gid_extent list \<Rightarrow> u32 \<Rightarrow> uid_gid_extent option" where
  "bsearch_extents key es extents =
    map_option (\<lambda>p. dec_extent (elem (enc_array es) p 12))
      (bsearch (\<lambda>b. cmp_map_id key (dec_extent b)) (enc_array es) 0 (ucast extents) 12)"

definition map_id_range_down_max :: "u32 \<Rightarrow> uid_gid_map \<Rightarrow> u32 \<Rightarrow> u32 \<Rightarrow> uid_gid_extent option" where
  "map_id_range_down_max extents mp idn cnt =
    bsearch_extents \<lparr>map_up = False, key_id = idn, key_count = cnt\<rparr> (forward mp) extents"

definition map_id_range_down_base :: "u32 \<Rightarrow> uid_gid_map \<Rightarrow> u32 \<Rightarrow> u32 \<Rightarrow> uid_gid_extent option" where
  "map_id_range_down_base extents mp idn cnt =
    (let id2 = idn + cnt - 1
     in find (\<lambda>e. let first = ext_first e; last = first + ext_count e - 1
                   in idn \<ge> first \<and> idn \<le> last \<and> (id2 \<ge> first \<and> id2 \<le> last)) (take (unat extents) (extent mp)))"

definition map_id_range_down :: "uid_gid_map \<Rightarrow> u32 \<Rightarrow> u32 \<Rightarrow> u32" where
  "map_id_range_down mp idn cnt =
    (let extents = nr_extents mp
     in case (if extents \<le> UID_GID_MAP_MAX_BASE_EXTENTS then map_id_range_down_base extents mp idn cnt
              else map_id_range_down_max extents mp idn cnt) of
          Some e \<Rightarrow> (idn - ext_first e) + ext_lower_first e
        | None \<Rightarrow> - 1)"

definition map_id_down :: "uid_gid_map \<Rightarrow> u32 \<Rightarrow> u32" where
  "map_id_down mp idn = map_id_range_down mp idn 1"

definition map_id_up_base :: "u32 \<Rightarrow> uid_gid_map \<Rightarrow> u32 \<Rightarrow> uid_gid_extent option" where
  "map_id_up_base extents mp idn =
    find (\<lambda>e. let first = ext_lower_first e; last = first + ext_count e - 1 in idn \<ge> first \<and> idn \<le> last)
      (take (unat extents) (extent mp))"

definition map_id_up_max :: "u32 \<Rightarrow> uid_gid_map \<Rightarrow> u32 \<Rightarrow> uid_gid_extent option" where
  "map_id_up_max extents mp idn = bsearch_extents \<lparr>map_up = True, key_id = idn, key_count = 1\<rparr> (reverse mp) extents"

definition map_id_up :: "uid_gid_map \<Rightarrow> u32 \<Rightarrow> u32" where
  "map_id_up mp idn =
    (let extents = nr_extents mp
     in case (if extents \<le> UID_GID_MAP_MAX_BASE_EXTENTS then map_id_up_base extents mp idn else map_id_up_max extents mp idn) of
          Some e \<Rightarrow> (idn - ext_lower_first e) + ext_first e
        | None \<Rightarrow> - 1)"

section \<open>Building a map\<close>

text \<open>
  The allocators are outside: \<open>kmalloc_forward\<close> is what \<^verbatim>\<open>kmalloc_array\<close> gives, an array of 340 extents of
  arbitrary contents, and \<open>kmemdup_ok\<close> says whether \<^verbatim>\<open>kmemdup\<close> finds memory. The addresses of the two arrays
  and whether unaligned accesses are efficient matter to \<^verbatim>\<open>sort\<close> for its choice of swap function.
\<close>

record idmap_env =
  kmalloc_forward :: "uid_gid_extent list option"
  kmemdup_ok :: bool
  forward_addr :: u64
  reverse_addr :: u64
  unaligned_ok :: bool

definition extents_of :: "uid_gid_map \<Rightarrow> uid_gid_extent list" where
  "extents_of mp = take (unat (nr_extents mp)) (if nr_extents mp \<le> UID_GID_MAP_MAX_BASE_EXTENTS then extent mp else forward mp)"

definition mappings_overlap :: "uid_gid_map \<Rightarrow> uid_gid_extent \<Rightarrow> bool" where
  "mappings_overlap new_map e =
    (let upper_first = ext_first e; lower_first = ext_lower_first e;
         upper_last = upper_first + ext_count e - 1; lower_last = lower_first + ext_count e - 1
     in list_ex (\<lambda>prev.
          let prev_upper_first = ext_first prev; prev_lower_first = ext_lower_first prev;
              prev_upper_last = prev_upper_first + ext_count prev - 1; prev_lower_last = prev_lower_first + ext_count prev - 1
          in (prev_upper_first \<le> upper_last \<and> prev_upper_last \<ge> upper_first) \<or>
             (prev_lower_first \<le> lower_last \<and> prev_lower_last \<ge> lower_first)) (extents_of new_map))"

definition insert_extent :: "idmap_env \<Rightarrow> uid_gid_map \<Rightarrow> uid_gid_extent \<Rightarrow> errno + uid_gid_map" where
  "insert_extent env mp e =
    (case (if nr_extents mp = UID_GID_MAP_MAX_BASE_EXTENTS then
             (case kmalloc_forward env of
                None \<Rightarrow> Inl ENOMEM
              | Some arr \<Rightarrow>
                  let n = unat (nr_extents mp)
                  in Inr (mp\<lparr>forward := take n (extent mp) @ drop n arr, reverse := []\<rparr>))
           else Inr mp) of
       Inl err \<Rightarrow> Inl err
     | Inr mp \<Rightarrow>
         let n = nr_extents mp;
             mp = (if n < UID_GID_MAP_MAX_BASE_EXTENTS then mp\<lparr>extent := (extent mp)[unat n := e]\<rparr>
                    else mp\<lparr>forward := (forward mp)[unat n := e]\<rparr>)
         in Inr (mp\<lparr>nr_extents := n + 1\<rparr>))"

definition cmp_extents_forward :: "uid_gid_extent \<Rightarrow> uid_gid_extent \<Rightarrow> int" where
  "cmp_extents_forward e1 e2 =
    (if ext_first e1 < ext_first e2 then - 1 else if ext_first e1 > ext_first e2 then 1 else 0)"

definition cmp_extents_reverse :: "uid_gid_extent \<Rightarrow> uid_gid_extent \<Rightarrow> int" where
  "cmp_extents_reverse e1 e2 =
    (if ext_lower_first e1 < ext_lower_first e2 then - 1 else if ext_lower_first e1 > ext_lower_first e2 then 1 else 0)"

definition sort_extents ::
  "(uid_gid_extent \<Rightarrow> uid_gid_extent \<Rightarrow> int) \<Rightarrow> bool \<Rightarrow> u64 \<Rightarrow> uid_gid_extent list \<Rightarrow> u32 \<Rightarrow> uid_gid_extent list option" where
  "sort_extents cmp unaligned addr es n =
    map_option (\<lambda>mem. map dec_extent (elems 12 mem (length es)))
      (sort_array unaligned addr (enc_array es) (ucast n) 12 (\<lambda>a b. cmp (dec_extent a) (dec_extent b)) None)"

definition sort_idmaps :: "idmap_env \<Rightarrow> uid_gid_map \<Rightarrow> (errno option \<times> uid_gid_map) option" where
  "sort_idmaps env mp =
    (if nr_extents mp \<le> UID_GID_MAP_MAX_BASE_EXTENTS then Some (None, mp)
     else case sort_extents cmp_extents_forward (unaligned_ok env) (forward_addr env) (forward mp) (nr_extents mp) of
       None \<Rightarrow> None
     | Some fwd \<Rightarrow>
         let mp = mp\<lparr>forward := fwd\<rparr>
         in if \<not> kmemdup_ok env then Some (Some ENOMEM, mp\<lparr>reverse := []\<rparr>)
            else case sort_extents cmp_extents_reverse (unaligned_ok env) (reverse_addr env)
                        (take (unat (nr_extents mp)) fwd) (nr_extents mp) of
              None \<Rightarrow> None
            | Some rv \<Rightarrow> Some (None, mp\<lparr>reverse := rv\<rparr>))"

section \<open>The bytes of extents\<close>

lemma bytes_u32_of: "bytes_u32 (u32_bytes w @ rest) = w"
proof (rule bit_word_eqI)
  fix n assume "n < LENGTH(32)"
  then show "bit (bytes_u32 (u32_bytes w @ rest)) n = bit w n"
    by (cases "n < 24"; cases "n < 16") (auto simp: bytes_u32_def u32_bytes_def bit_simps not_less)
qed

lemma u32_bytes_length [simp]: "length (u32_bytes w) = 4"
  by (simp add: u32_bytes_def)

lemma enc_extent_length [simp]: "length (enc_extent e) = 12"
  by (simp add: enc_extent_def)

lemma dec_enc [simp]: "dec_extent (enc_extent e) = e"
  using bytes_u32_of [of "ext_count e" "[]"]
  by (simp add: dec_extent_def enc_extent_def bytes_u32_of)

lemma enc_array_length [simp]: "length (enc_array es) = length es * 12"
  by (induction es) (simp_all add: enc_array_def)

lemma enc_array_simps: "enc_array [] = []" "enc_array (e # es) = enc_extent e @ enc_array es"
  by (simp_all add: enc_array_def)

lemma enc_array_nth: "i < length es \<Longrightarrow> take 12 (drop (i * 12) (enc_array es)) = enc_extent (es ! i)"
proof (induction es arbitrary: i)
  case (Cons e es)
  then show ?case by (cases i) (simp_all add: enc_array_simps)
qed simp

lemma elems_enc_array: "n \<le> length es \<Longrightarrow> elems 12 (enc_array es) n = map enc_extent (take n es)"
  by (rule nth_equalityI) (simp_all add: elems_def enc_array_nth)

lemma fits_extents: "n \<le> 340 \<Longrightarrow> fits n 12"
  by (simp add: fits_def)

lemma holds_extents:
  assumes "n \<le> length es" "length es \<le> 340"
  shows "holds 12 (enc_array es) (map enc_extent (take n es)) (drop (n * 12) (enc_array es))"
  using assms by (simp add: holds_def elems_enc_array)

lemma bsearch_extents_finds:
  assumes n: "unat n \<le> length es" "length es \<le> 340" and sorted: "key_sorted (cmp_map_id key) (take (unat n) es)"
  shows "case bsearch_extents key es n of
      None \<Rightarrow> \<forall>e \<in> set (take (unat n) es). cmp_map_id key e \<noteq> 0
    | Some e \<Rightarrow> e \<in> set (take (unat n) es) \<and> cmp_map_id key e = 0"
proof -
  let ?xs = "map enc_extent (take (unat n) es)"
  have f: "fits (length ?xs) 12" using n fits_extents [of "unat n"] by simp
  note h = holds_extents [OF n]
  have k: "key_sorted (\<lambda>b. cmp_map_id key (dec_extent b)) ?xs" using sorted by (simp add: key_sorted_def)
  have u: "unat (ucast n :: u64) = length ?xs" using n(1) by (simp add: unat_ucast_64)
  have el: "elem (enc_array es) (byte_off 12 i) 12 = enc_extent (es ! i)" if "i < unat n" for i
    using holds_elem [OF f h, of i] that n(1) by simp
  show ?thesis
    using bsearch_finds [OF f h k u] n(1)
    by (auto simp: bsearch_extents_def el in_set_conv_nth split: option.splits)
qed

section \<open>Well-formed maps\<close>

definition upper :: "uid_gid_extent \<Rightarrow> nat set" where
  "upper e = {unat (ext_first e) ..< unat (ext_first e) + unat (ext_count e)}"

definition lower :: "uid_gid_extent \<Rightarrow> nat set" where
  "lower e = {unat (ext_lower_first e) ..< unat (ext_lower_first e) + unat (ext_count e)}"

definition extent_ok :: "uid_gid_extent \<Rightarrow> bool" where
  "extent_ok e \<longleftrightarrow> ext_count e \<noteq> 0 \<and> unat (ext_first e) + unat (ext_count e) < 2 ^ 32 \<and> unat (ext_lower_first e) + unat (ext_count e) < 2 ^ 32"

definition extents_ok :: "uid_gid_extent list \<Rightarrow> bool" where
  "extents_ok es \<longleftrightarrow> distinct es \<and> (\<forall>e \<in> set es. extent_ok e) \<and>
    (\<forall>e \<in> set es. \<forall>e' \<in> set es. e \<noteq> e' \<longrightarrow> upper e \<inter> upper e' = {} \<and> lower e \<inter> lower e' = {})"

definition map_ok :: "uid_gid_map \<Rightarrow> bool" where
  "map_ok mp \<longleftrightarrow> unat (nr_extents mp) \<le> 340 \<and> length (extent mp) = 5 \<and> extents_ok (extents_of mp) \<and>
    (nr_extents mp > 5 \<longrightarrow>
      unat (nr_extents mp) \<le> length (forward mp) \<and> length (forward mp) \<le> 340 \<and>
      length (reverse mp) = unat (nr_extents mp) \<and>
      sorted (map ext_first (extents_of mp)) \<and> sorted (map ext_lower_first (reverse mp)) \<and>
      mset (reverse mp) = mset (extents_of mp))"

lemma last_of: "extent_ok e \<Longrightarrow> unat (ext_first e + ext_count e - 1) = unat (ext_first e) + unat (ext_count e) - 1"
  "extent_ok e \<Longrightarrow> unat (ext_lower_first e + ext_count e - 1) = unat (ext_lower_first e) + unat (ext_count e) - 1"
  unfolding extent_ok_def by (unat_arith; simp)+

lemma count_pos: "extent_ok e \<Longrightarrow> 0 < unat (ext_count e)"
  by (simp add: extent_ok_def unat_gt_0)

lemma in_upper: "extent_ok e \<Longrightarrow> ext_first e \<le> i \<and> i \<le> ext_first e + ext_count e - 1 \<longleftrightarrow> unat i \<in> upper e"
  using last_of(1) [of e] count_pos [of e] by (auto simp: upper_def word_le_nat_alt)

lemma in_lower: "extent_ok e \<Longrightarrow> ext_lower_first e \<le> i \<and> i \<le> ext_lower_first e + ext_count e - 1 \<longleftrightarrow> unat i \<in> lower e"
  using last_of(2) [of e] count_pos [of e] by (auto simp: lower_def word_le_nat_alt)

section \<open>Looking up an id in a well-formed map\<close>

definition base_of :: "idmap_key \<Rightarrow> uid_gid_extent \<Rightarrow> u32" where
  "base_of key e = (if map_up key then ext_lower_first e else ext_first e)"

definition range_of :: "idmap_key \<Rightarrow> uid_gid_extent \<Rightarrow> nat set" where
  "range_of key e = (if map_up key then lower e else upper e)"

lemma range_of_base: "range_of key e = {unat (base_of key e) ..< unat (base_of key e) + unat (ext_count e)}"
  by (simp add: range_of_def base_of_def upper_def lower_def)

lemma cmp_map_id_range:
  assumes "extent_ok e"
  shows "cmp_map_id key e =
    (let i = unat (key_id key); j = unat (key_id key + key_count key - 1)
     in if i \<in> range_of key e \<and> j \<in> range_of key e then 0
        else if i < unat (base_of key e) \<or> j < unat (base_of key e) then - 1 else 1)"
  using in_upper [OF assms, of "key_id key"] in_upper [OF assms, of "key_id key + key_count key - 1"]
    in_lower [OF assms, of "key_id key"] in_lower [OF assms, of "key_id key + key_count key - 1"]
  unfolding cmp_map_id_def range_of_def base_of_def Let_def word_less_nat_alt
  by (cases "map_up key") auto

lemma extents_apart:
  assumes ok: "extents_ok es" and sorted: "sorted (map (base_of key) es)" and ij: "i < j" "j < length es"
  shows "unat (base_of key (es ! i)) + unat (ext_count (es ! i)) \<le> unat (base_of key (es ! j))"
proof (rule ccontr)
  assume c: "\<not> ?thesis"
  have le: "unat (base_of key (es ! i)) \<le> unat (base_of key (es ! j))"
    using sorted_nth_mono [OF sorted, of i j] ij by (simp add: word_le_nat_alt)
  have mem: "es ! i \<in> set es" "es ! j \<in> set es" using ij by auto
  have ne: "es ! i \<noteq> es ! j" using ok ij by (auto simp: extents_ok_def nth_eq_iff_index_eq)
  have "0 < unat (ext_count (es ! j))" using ok mem count_pos by (auto simp: extents_ok_def)
  then have "unat (base_of key (es ! j)) \<in> range_of key (es ! i) \<inter> range_of key (es ! j)"
    using le c by (auto simp: range_of_base)
  moreover have "range_of key (es ! i) \<inter> range_of key (es ! j) = {}"
    using ok mem ne by (auto simp: extents_ok_def range_of_def)
  ultimately show False by simp
qed

lemma key_sorted_extents:
  assumes ok: "extents_ok es" and sorted: "sorted (map (base_of key) es)"
  shows "key_sorted (cmp_map_id key) es"
  unfolding key_sorted_def
proof (intro allI impI)
  fix i j assume ij: "i < j" "j < length es"
  have e: "extent_ok (es ! i)" "extent_ok (es ! j)" using ok ij by (auto simp: extents_ok_def)
  show "(cmp_map_id key (es ! i) < 0 \<longrightarrow> cmp_map_id key (es ! j) < 0) \<and> (cmp_map_id key (es ! j) > 0 \<longrightarrow> cmp_map_id key (es ! i) > 0)"
    using extents_apart [OF ok sorted ij]
    by (auto simp: cmp_map_id_range [OF e(1)] cmp_map_id_range [OF e(2)] range_of_base Let_def split: if_splits)
qed

lemma find_in: "find P es = Some e \<Longrightarrow> e \<in> set es \<and> P e"
  by (auto simp: find_Some_iff)

lemma find_only:
  assumes "a \<in> set es" "P a" and only: "\<And>e. e \<in> set es \<Longrightarrow> P e \<Longrightarrow> e = a"
  shows "find P es = Some a"
proof (cases "find P es")
  case None
  then show ?thesis using assms(1,2) by (simp add: find_None_iff)
next
  case (Some b)
  then show ?thesis using find_in [OF Some] only [of b] by simp
qed

lemma find_none: "(\<And>e. e \<in> set es \<Longrightarrow> \<not> P e) \<Longrightarrow> find P es = None"
  by (simp add: find_None_iff)

definition hit :: "idmap_key \<Rightarrow> uid_gid_extent \<Rightarrow> bool" where
  "hit key e \<longleftrightarrow> unat (key_id key) \<in> range_of key e \<and> unat (key_id key + key_count key - 1) \<in> range_of key e"

lemma hit_unique: "extents_ok es \<Longrightarrow> e \<in> set es \<Longrightarrow> e' \<in> set es \<Longrightarrow> hit key e \<Longrightarrow> hit key e' \<Longrightarrow> e = e'"
  unfolding extents_ok_def hit_def range_of_def by (cases "map_up key"; simp; blast)

lemma bsearch_is_find:
  assumes n: "unat n \<le> length arr" "length arr \<le> 340" and ok: "extents_ok (take (unat n) arr)"
    and sorted: "sorted (map (base_of key) (take (unat n) arr))" and es: "set es = set (take (unat n) arr)"
  shows "bsearch_extents key arr n = find (hit key) es"
proof -
  let ?es = "take (unat n) arr"
  have zero: "cmp_map_id key e = 0 \<longleftrightarrow> hit key e" if e: "e \<in> set ?es" for e
  proof -
    have "extent_ok e" using ok e by (auto simp: extents_ok_def)
    then show ?thesis by (simp add: cmp_map_id_range hit_def Let_def)
  qed
  note b = bsearch_extents_finds [OF n key_sorted_extents [OF ok sorted]]
  show ?thesis
  proof (cases "bsearch_extents key arr n")
    case None
    then show ?thesis using b zero es find_none [of es "hit key"] by auto
  next
    case (Some e)
    then have e: "e \<in> set ?es" "hit key e" using b zero by auto
    have "find (hit key) es = Some e"
      using e es by (intro find_only) (auto intro: hit_unique [OF ok])
    then show ?thesis using Some by simp
  qed
qed

lemma find_cong_set: "(\<And>e. e \<in> set es \<Longrightarrow> P e = Q e) \<Longrightarrow> find P es = find Q es"
  by (induction es) auto

lemma small_map: "map_ok mp \<Longrightarrow> nr_extents mp \<le> 5 \<Longrightarrow> extents_of mp = take (unat (nr_extents mp)) (extent mp)"
  by (simp add: extents_of_def)

lemma large_map:
  assumes "map_ok mp" "\<not> nr_extents mp \<le> 5"
  shows "extents_of mp = take (unat (nr_extents mp)) (forward mp)"
    and "unat (nr_extents mp) \<le> length (forward mp)" "length (forward mp) \<le> 340" "length (reverse mp) = unat (nr_extents mp)"
    and "sorted (map ext_first (extents_of mp))" "sorted (map ext_lower_first (reverse mp))" "mset (reverse mp) = mset (extents_of mp)"
  using assms by (auto simp: map_ok_def extents_of_def not_le)

lemma extents_ok_mset: "mset es = mset es' \<Longrightarrow> extents_ok es = extents_ok es'"
  unfolding extents_ok_def using mset_eq_setD [of es es'] mset_eq_imp_distinct_iff [of es es'] by simp

lemma map_ok_extents: "map_ok mp \<Longrightarrow> e \<in> set (extents_of mp) \<Longrightarrow> extent_ok e"
  by (auto simp: map_ok_def extents_ok_def)

lemma map_id_range_down_find:
  assumes ok: "map_ok mp"
  shows "map_id_range_down mp i c =
    (case find (\<lambda>e. unat i \<in> upper e \<and> unat (i + c - 1) \<in> upper e) (extents_of mp) of
       Some e \<Rightarrow> (i - ext_first e) + ext_lower_first e
     | None \<Rightarrow> - 1)"
proof (cases "nr_extents mp \<le> 5")
  case True
  have "map_id_range_down_base (nr_extents mp) mp i c = find (\<lambda>e. unat i \<in> upper e \<and> unat (i + c - 1) \<in> upper e) (extents_of mp)"
    unfolding map_id_range_down_base_def small_map [OF ok True, symmetric] Let_def
    by (rule find_cong_set) (use map_ok_extents [OF ok] in_upper in auto)
  then show ?thesis using True by (simp add: map_id_range_down_def)
next
  case False
  note l = large_map [OF ok False]
  let ?key = "\<lparr>map_up = False, key_id = i, key_count = c\<rparr>"
  have b: "base_of ?key = ext_first" by (rule ext) (simp add: base_of_def)
  have "bsearch_extents ?key (forward mp) (nr_extents mp) = find (hit ?key) (extents_of mp)"
    by (rule bsearch_is_find) (use l ok in \<open>auto simp: b map_ok_def\<close>)
  moreover have "hit ?key = (\<lambda>e. unat i \<in> upper e \<and> unat (i + c - 1) \<in> upper e)"
    by (rule ext) (simp add: hit_def range_of_def)
  ultimately show ?thesis using False by (simp add: map_id_range_down_def map_id_range_down_max_def)
qed

lemma map_id_up_find:
  assumes ok: "map_ok mp"
  shows "map_id_up mp i =
    (case find (\<lambda>e. unat i \<in> lower e) (extents_of mp) of
       Some e \<Rightarrow> (i - ext_lower_first e) + ext_first e
     | None \<Rightarrow> - 1)"
proof (cases "nr_extents mp \<le> 5")
  case True
  have "map_id_up_base (nr_extents mp) mp i = find (\<lambda>e. unat i \<in> lower e) (extents_of mp)"
    unfolding map_id_up_base_def small_map [OF ok True, symmetric] Let_def
    by (rule find_cong_set) (use map_ok_extents [OF ok] in_lower in auto)
  then show ?thesis using True by (simp add: map_id_up_def)
next
  case False
  note l = large_map [OF ok False]
  let ?key = "\<lparr>map_up = True, key_id = i, key_count = 1\<rparr>"
  have b: "base_of ?key = ext_lower_first" by (rule ext) (simp add: base_of_def)
  have ok': "extents_ok (reverse mp)" using ok extents_ok_mset [OF l(7)] by (simp add: map_ok_def)
  have "bsearch_extents ?key (reverse mp) (nr_extents mp) = find (hit ?key) (extents_of mp)"
    by (rule bsearch_is_find) (use l ok ok' mset_eq_setD [OF l(7)] in \<open>auto simp: b map_ok_def\<close>)
  moreover have "hit ?key = (\<lambda>e. unat i \<in> lower e)" by (rule ext) (simp add: hit_def range_of_def)
  ultimately show ?thesis using False by (simp add: map_id_up_def map_id_up_max_def)
qed

lemma shift_in:
  fixes a b c i :: u32
  assumes "unat a \<le> unat i" "unat i < unat a + unat c" "unat b + unat c < 2 ^ 32"
  shows "unat (i - a + b) = unat i - unat a + unat b"
  using assms by (simp add: unat_plus_if' unat_sub word_le_nat_alt)

lemma below_minus_one: "unat (w :: u32) < 2 ^ 32 - 1 \<Longrightarrow> w \<noteq> - 1"
  by (auto simp: unsigned_minus_1_eq_mask mask_eq_exp_minus_1)

lemma up_down_word:
  assumes "extent_ok e" "unat i \<in> upper e"
  shows "unat (i - ext_first e + ext_lower_first e) = unat i - unat (ext_first e) + unat (ext_lower_first e)"
    and "unat (i - ext_first e + ext_lower_first e) \<in> lower e" and "i - ext_first e + ext_lower_first e \<noteq> - 1"
proof -
  show eq: "unat (i - ext_first e + ext_lower_first e) = unat i - unat (ext_first e) + unat (ext_lower_first e)"
    by (rule shift_in [of _ _ "ext_count e"]) (use assms in \<open>auto simp: upper_def extent_ok_def\<close>)
  then show "unat (i - ext_first e + ext_lower_first e) \<in> lower e" using assms by (auto simp: upper_def lower_def)
  have "unat (i - ext_first e + ext_lower_first e) < 2 ^ 32 - 1"
    unfolding eq using assms by (auto simp: upper_def extent_ok_def)
  then show "i - ext_first e + ext_lower_first e \<noteq> - 1" by (rule below_minus_one)
qed

lemma down_up_word:
  assumes "extent_ok e" "unat k \<in> lower e"
  shows "unat (k - ext_lower_first e + ext_first e) \<in> upper e" and "k - ext_lower_first e + ext_first e \<noteq> - 1"
proof -
  have eq: "unat (k - ext_lower_first e + ext_first e) = unat k - unat (ext_lower_first e) + unat (ext_first e)"
    by (rule shift_in [of _ _ "ext_count e"]) (use assms in \<open>auto simp: lower_def extent_ok_def\<close>)
  then show "unat (k - ext_lower_first e + ext_first e) \<in> upper e" using assms by (auto simp: upper_def lower_def)
  have "unat (k - ext_lower_first e + ext_first e) < 2 ^ 32 - 1"
    unfolding eq using assms by (auto simp: lower_def extent_ok_def)
  then show "k - ext_lower_first e + ext_first e \<noteq> - 1" by (rule below_minus_one)
qed

lemma lower_find: "extents_ok es \<Longrightarrow> e \<in> set es \<Longrightarrow> unat k \<in> lower e \<Longrightarrow> find (\<lambda>e. unat k \<in> lower e) es = Some e"
  unfolding extents_ok_def by (rule find_only) blast+

lemma upper_find: "extents_ok es \<Longrightarrow> e \<in> set es \<Longrightarrow> unat i \<in> upper e \<Longrightarrow> find (\<lambda>e. unat i \<in> upper e) es = Some e"
  unfolding extents_ok_def by (rule find_only) blast+

lemma map_id_down_find:
  assumes "map_ok mp"
  shows "map_id_down mp i =
    (case find (\<lambda>e. unat i \<in> upper e) (extents_of mp) of Some e \<Rightarrow> (i - ext_first e) + ext_lower_first e | None \<Rightarrow> - 1)"
  by (simp add: map_id_down_def map_id_range_down_find [OF assms])

lemma map_ok_extents_ok: "map_ok mp \<Longrightarrow> extents_ok (extents_of mp)"
  by (simp add: map_ok_def)

lemma map_id_downE:
  assumes "map_ok mp" "map_id_down mp i \<noteq> - 1"
  obtains e where "e \<in> set (extents_of mp)" "unat i \<in> upper e" "map_id_down mp i = i - ext_first e + ext_lower_first e"
    "unat (map_id_down mp i) \<in> lower e"
proof (cases "find (\<lambda>e. unat i \<in> upper e) (extents_of mp)")
  case None
  then show ?thesis using assms by (simp add: map_id_down_find)
next
  case (Some e)
  note f = find_in [OF Some]
  show ?thesis
    by (rule that [of e]) (use f Some up_down_word(2) [OF map_ok_extents [OF assms(1)], of e i] in
      \<open>auto simp: map_id_down_find [OF assms(1)]\<close>)
qed

lemma map_id_up_in:
  assumes "map_ok mp" "e \<in> set (extents_of mp)" "unat k \<in> lower e"
  shows "map_id_up mp k = k - ext_lower_first e + ext_first e" and "map_id_up mp k \<noteq> - 1"
  using lower_find [OF map_ok_extents_ok [OF assms(1)] assms(2,3)] down_up_word(2) [OF map_ok_extents [OF assms(1,2)] assms(3)]
  by (simp_all add: map_id_up_find [OF assms(1)])

lemma map_id_upE:
  assumes "map_ok mp" "map_id_up mp k \<noteq> - 1"
  obtains e where "e \<in> set (extents_of mp)" "unat k \<in> lower e"
proof (cases "find (\<lambda>e. unat k \<in> lower e) (extents_of mp)")
  case None
  then show ?thesis using assms by (simp add: map_id_up_find)
next
  case (Some e)
  show ?thesis by (rule that [of e]) (use find_in [OF Some] in auto)
qed

lemma up_of_down:
  assumes "map_ok mp" "map_id_down mp i \<noteq> - 1"
  shows "map_id_up mp (map_id_down mp i) = i"
proof -
  obtain e where "e \<in> set (extents_of mp)" "map_id_down mp i = i - ext_first e + ext_lower_first e" "unat (map_id_down mp i) \<in> lower e"
    using map_id_downE [OF assms] by metis
  then show ?thesis using map_id_up_in(1) [OF assms(1)] by simp
qed

lemma down_of_up:
  assumes "map_ok mp" "map_id_up mp k \<noteq> - 1"
  shows "map_id_down mp (map_id_up mp k) = k"
proof -
  obtain e where e: "e \<in> set (extents_of mp)" "unat k \<in> lower e" using map_id_upE [OF assms] by metis
  have k: "map_id_up mp k = k - ext_lower_first e + ext_first e" by (rule map_id_up_in [OF assms(1) e])
  have u: "unat (map_id_up mp k) \<in> upper e" unfolding k by (rule down_up_word(1) [OF map_ok_extents [OF assms(1) e(1)] e(2)])
  have "map_id_down mp (map_id_up mp k) = map_id_up mp k - ext_first e + ext_lower_first e"
    using upper_find [OF map_ok_extents_ok [OF assms(1)] e(1) u] by (simp add: map_id_down_find [OF assms(1)])
  then show ?thesis using k by simp
qed

section \<open>Sorting the extents\<close>

interpretation forward_order: comparison "\<lambda>a b. cmp_extents_forward (dec_extent a) (dec_extent b)"
  by unfold_locales (auto simp: cmp_extents_forward_def split: if_splits)

interpretation reverse_order: comparison "\<lambda>a b. cmp_extents_reverse (dec_extent a) (dec_extent b)"
  by unfold_locales (auto simp: cmp_extents_reverse_def split: if_splits)

lemma drop_elems: "n \<le> m \<Longrightarrow> drop n (elems s mem m) = elems s (drop (n * s) mem) (m - n)"
  by (rule nth_equalityI) (auto simp: elems_def add.commute add_mult_distrib less_diff_conv)

lemma sort_extents_sorts:
  assumes cmp: "comparison (\<lambda>a b. cmp (dec_extent a) (dec_extent b))" and n: "unat n \<le> length es" "length es \<le> 340"
  obtains es' where "sort_extents cmp eff addr es n = Some es'" "ordered cmp (take (unat n) es')" "length es' = length es"
    "mset (take (unat n) es') = mset (take (unat n) es)" "drop (unat n) es' = drop (unat n) es"
proof -
  let ?N = "unat (ucast n :: u64)" and ?cmp = "\<lambda>a b. cmp (dec_extent a) (dec_extent b)"
  have N: "?N = unat n" by (simp add: unat_ucast_64)
  have f: "fits ?N 12" unfolding N by (rule fits_extents) (use n in simp)
  have len: "?N * unat (12 :: u64) \<le> length (enc_array es)" "length (enc_array es) < 2 ^ 64" using n N by simp_all
  obtain mem where m: "sort_array eff addr (enc_array es) (ucast n) 12 ?cmp None = Some mem"
    "ordered ?cmp (elems 12 mem (unat n))" "mset (elems 12 mem (unat n)) = mset (elems 12 (enc_array es) (unat n))"
    "drop (unat n * 12) mem = drop (unat n * 12) (enc_array es)"
    using sort_r_sorts [OF cmp f len, of None eff addr] unfolding sort_array_def N by auto
  let ?es = "map dec_extent (elems 12 mem (length es))"
  have t: "take (unat n) ?es = map dec_extent (elems 12 mem (unat n))"
    using n by (simp add: elems_def take_map)
  have d: "drop (unat n) ?es = drop (unat n) (map dec_extent (elems 12 (enc_array es) (length es)))"
    using n by (simp add: drop_map drop_elems m(4))
  have dec: "map dec_extent (elems 12 (enc_array es) k) = take k es" if "k \<le> length es" for k
    using that by (simp add: elems_enc_array o_def)
  show ?thesis
  proof (rule that)
    show "sort_extents cmp eff addr es n = Some ?es" by (simp add: sort_extents_def m(1))
    show "ordered cmp (take (unat n) ?es)" using m(2) unfolding t ordered_def sorted_wrt_map .
    show "mset (take (unat n) ?es) = mset (take (unat n) es)" unfolding t mset_map m(3) dec [OF n(1), symmetric] ..
    show "drop (unat n) ?es = drop (unat n) es" unfolding d dec [OF le_refl] by simp
  qed simp
qed

lemma ordered_forward: "ordered cmp_extents_forward es \<longleftrightarrow> sorted (map ext_first es)"
  unfolding ordered_def sorted_wrt_map
  by (rule arg_cong [where f = "\<lambda>P. sorted_wrt P es"]) (auto simp: fun_eq_iff cmp_extents_forward_def)

lemma ordered_reverse: "ordered cmp_extents_reverse es \<longleftrightarrow> sorted (map ext_lower_first es)"
  unfolding ordered_def sorted_wrt_map
  by (rule arg_cong [where f = "\<lambda>P. sorted_wrt P es"]) (auto simp: fun_eq_iff cmp_extents_reverse_def)

section \<open>Properties of maps\<close>

text \<open>A map of six extents, which is searched by halving.\<close>

definition six_extents :: "uid_gid_extent list" where
  "six_extents = map (\<lambda>i. \<lparr>ext_first = 10 * i, ext_lower_first = 1000 - 10 * i, ext_count = 5\<rparr>) [0, 1, 2, 3, 4, 5]"

definition six_map :: uid_gid_map where
  "six_map = \<lparr>nr_extents = 6, extent = replicate 5 zero_extent, forward = six_extents, reverse = rev six_extents\<rparr>"

lemma six_map_ok: "map_ok six_map"
proof -
  have e: "extents_of six_map = six_extents" by code_simp
  have "extents_ok six_extents" by (simp add: six_extents_def extents_ok_def extent_ok_def upper_def lower_def)
  then show ?thesis unfolding map_ok_def e by (simp add: six_map_def six_extents_def)
qed

text \<open>
  C26. The search by halving in a map of more than five extents and the scan of a small map find what a search
  through all extents finds: the one extent that covers the first and the last id of the range, down to
  kernel ids and back up, with \<open>- 1\<close> when there is none.
\<close>

theorem lookup_is_linear:
  assumes "map_ok mp"
  shows "map_id_range_down mp i c =
      (case find (\<lambda>e. unat i \<in> upper e \<and> unat (i + c - 1) \<in> upper e) (extents_of mp) of
         Some e \<Rightarrow> (i - ext_first e) + ext_lower_first e
       | None \<Rightarrow> - 1) \<and>
    map_id_up mp k =
      (case find (\<lambda>e. unat k \<in> lower e) (extents_of mp) of
         Some e \<Rightarrow> (k - ext_lower_first e) + ext_first e
       | None \<Rightarrow> - 1)"
  using map_id_range_down_find [OF assms] map_id_up_find [OF assms] by simp

theorem lookup_is_linear_witness:
  "map_ok six_map \<and> map_id_range_down six_map 31 4 = 971 \<and> map_id_range_down six_map 31 5 = - 1 \<and> map_id_up six_map 962 = 42"
proof -
  have e: "extents_of six_map = six_extents" by code_simp
  show ?thesis
    using six_map_ok lookup_is_linear [OF six_map_ok, of 31 4 962] lookup_is_linear [OF six_map_ok, of 31 5 962]
    by (simp add: e six_extents_def upper_def lower_def)
qed

text \<open>
  C27. Ids go down and up again unchanged: the kernel id of an id of the namespace maps back to it, and the
  id of a kernel id maps to that kernel id, wherever there is a mapping.
\<close>

theorem id_round_trip:
  assumes "map_ok mp"
  shows "(map_id_down mp i \<noteq> - 1 \<longrightarrow> map_id_up mp (map_id_down mp i) = i) \<and>
    (map_id_up mp k \<noteq> - 1 \<longrightarrow> map_id_down mp (map_id_up mp k) = k)"
  using up_of_down [OF assms] down_of_up [OF assms] by blast

theorem id_round_trip_witness:
  "map_id_down six_map 42 = 962 \<and> map_id_up six_map 962 = 42 \<and> map_id_up six_map 1004 = 4 \<and> map_id_down six_map 4 = 1004"
proof -
  have d: "map_id_down six_map 42 = 962" "map_id_up six_map 1004 = 4" by code_simp+
  show ?thesis using id_round_trip [OF six_map_ok, of 42 1004] d by simp
qed

end
