(* ===== verification/Kstrtox.thy ===== *)
theory Kstrtox
  imports Prelude
begin

text \<open>
  The conversions from strings to numbers of \<^verbatim>\<open>lib/kstrtox.c\<close> and \<^verbatim>\<open>lib/vsprintf.c\<close>, with the character classes
  and \<^verbatim>\<open>skip_spaces\<close> they rely on. They are compared with the value of the digits in unbounded arithmetic.
\<close>

unbundle bit_operations_syntax

section \<open>Strings and characters\<close>

text \<open>
  A C string is the list of the bytes from the pointer on. Reading behind the list gives the terminating
  zero; the list may hold a zero earlier.
\<close>

type_synonym cstr = "u8 list"

definition chr_at :: "cstr \<Rightarrow> nat \<Rightarrow> u8" where
  "chr_at s i = (if i < length s then s ! i else 0)"

text \<open>\<^verbatim>\<open>_S\<close>, \<^verbatim>\<open>_D\<close> and \<^verbatim>\<open>_X\<close> of the character table.\<close>

definition isspace :: "u8 \<Rightarrow> bool" where
  "isspace c \<longleftrightarrow> 9 \<le> c \<and> c \<le> 13 \<or> c = 32 \<or> c = 160"

definition isxdigit :: "u8 \<Rightarrow> bool" where
  "isxdigit c \<longleftrightarrow> 48 \<le> c \<and> c \<le> 57 \<or> 65 \<le> c \<and> c \<le> 70 \<or> 97 \<le> c \<and> c \<le> 102"

definition u_tolower :: "u8 \<Rightarrow> u8" where
  "u_tolower c = c OR 0x20"

fun skip_spaces :: "cstr \<Rightarrow> cstr" where
  "skip_spaces [] = []"
| "skip_spaces (c # s) = (if isspace c then skip_spaces s else c # s)"

section \<open>Numbers\<close>

abbreviation (input) KSTRTOX_OVERFLOW :: u32 where "KSTRTOX_OVERFLOW \<equiv> 0x80000000"

text \<open>The string after the prefix, and the base.\<close>

definition u_parse_integer_fixup_radix :: "cstr \<Rightarrow> u32 \<Rightarrow> cstr \<times> u32" where
  "u_parse_integer_fixup_radix s base =
    (let base1 = (if base = 0
         then if chr_at s 0 = 48
              then if u_tolower (chr_at s 1) = 120 \<and> isxdigit (chr_at s 2) then 16 else 8
              else 10
         else base)
     in (if base1 = 16 \<and> chr_at s 0 = 48 \<and> u_tolower (chr_at s 1) = 120 then drop 2 s else s, base1))"

text \<open>The digit a character stands for. A \<^verbatim>\<open>char\<close> is signed, so \<open>c\<close> is its sign extension.\<close>

definition digit_val :: "u8 \<Rightarrow> u32 option" where
  "digit_val ch =
    (let c = (scast ch :: u32); lc = c OR 0x20 in
     if 48 \<le> c \<and> c \<le> 57 then Some (c - 48)
     else if 97 \<le> lc \<and> lc \<le> 102 then Some (lc - 97 + 10)
     else None)"

fun parse_loop :: "cstr \<Rightarrow> u32 \<Rightarrow> nat \<Rightarrow> u64 \<Rightarrow> u32 \<Rightarrow> u64 \<times> u32" where
  "parse_loop [] base max_chars res rv = (res, rv)"
| "parse_loop (ch # s) base max_chars res rv =
    (if max_chars = 0 then (res, rv)
     else case digit_val ch of
       None \<Rightarrow> (res, rv)
     | Some val \<Rightarrow>
         if val \<ge> base then (res, rv)
         else
           let rv1 = (if res AND push_bit 60 (NOT 0) \<noteq> 0 \<and> res > (NOT 0 - ucast val) div ucast base then rv OR KSTRTOX_OVERFLOW else rv)
           in parse_loop s base (max_chars - 1) (res * ucast base + ucast val) (rv1 + 1))"

definition u_parse_integer_limit :: "cstr \<Rightarrow> u32 \<Rightarrow> nat \<Rightarrow> u64 \<times> u32" where
  "u_parse_integer_limit s base max_chars = parse_loop s base max_chars 0 0"

abbreviation (input) INT_MAX :: nat where "INT_MAX \<equiv> 2 ^ 31 - 1"

definition u_parse_integer :: "cstr \<Rightarrow> u32 \<Rightarrow> u64 \<times> u32" where
  "u_parse_integer s base = u_parse_integer_limit s base INT_MAX"

definition u_kstrtoull :: "cstr \<Rightarrow> u32 \<Rightarrow> errno + u64" where
  "u_kstrtoull s base =
    (let (s1, base1) = u_parse_integer_fixup_radix s base; (res, rv) = u_parse_integer s1 base1 in
     if rv AND KSTRTOX_OVERFLOW \<noteq> 0 then Inl ERANGE
     else if rv = 0 then Inl EINVAL
     else let s2 = drop (unat rv) s1; s3 = (if chr_at s2 0 = 10 then drop 1 s2 else s2) in
       if chr_at s3 0 \<noteq> 0 then Inl EINVAL else Inr res)"

definition kstrtoull :: "cstr \<Rightarrow> u32 \<Rightarrow> errno + u64" where
  "kstrtoull s base = u_kstrtoull (if chr_at s 0 = 43 then drop 1 s else s) base"

definition kstrtoll :: "cstr \<Rightarrow> u32 \<Rightarrow> errno + s64" where
  "kstrtoll s base =
    (if chr_at s 0 = 45 then
       (case u_kstrtoull (drop 1 s) base of
          Inl e \<Rightarrow> Inl e
        | Inr tmp \<Rightarrow> if 0 <s - tmp then Inl ERANGE else Inr (- tmp))
     else
       (case kstrtoull s base of
          Inl e \<Rightarrow> Inl e
        | Inr tmp \<Rightarrow> if tmp <s 0 then Inl ERANGE else Inr tmp))"

text \<open>The conversions to narrower types.\<close>

definition u_kstrtoul :: "cstr \<Rightarrow> u32 \<Rightarrow> errno + u64" where
  "u_kstrtoul s base = kstrtoull s base"

definition u_kstrtol :: "cstr \<Rightarrow> u32 \<Rightarrow> errno + s64" where
  "u_kstrtol s base = kstrtoll s base"

definition narrow :: "errno + u64 \<Rightarrow> errno + 'w::len word" where
  "narrow r = (case r of Inl e \<Rightarrow> Inl e | Inr tmp \<Rightarrow> if tmp \<noteq> ucast (ucast tmp :: 'w word) then Inl ERANGE else Inr (ucast tmp))"

definition narrow_signed :: "errno + s64 \<Rightarrow> errno + 'w::len word" where
  "narrow_signed r = (case r of Inl e \<Rightarrow> Inl e | Inr tmp \<Rightarrow> if tmp \<noteq> scast (ucast tmp :: 'w word) then Inl ERANGE else Inr (ucast tmp))"

definition kstrtouint :: "cstr \<Rightarrow> u32 \<Rightarrow> errno + u32" where
  "kstrtouint s base = narrow (kstrtoull s base)"

definition kstrtoint :: "cstr \<Rightarrow> u32 \<Rightarrow> errno + s32" where
  "kstrtoint s base = narrow_signed (kstrtoll s base)"

definition kstrtou16 :: "cstr \<Rightarrow> u32 \<Rightarrow> errno + u16" where
  "kstrtou16 s base = narrow (kstrtoull s base)"

definition kstrtos16 :: "cstr \<Rightarrow> u32 \<Rightarrow> errno + s16" where
  "kstrtos16 s base = narrow_signed (kstrtoll s base)"

definition kstrtou8 :: "cstr \<Rightarrow> u32 \<Rightarrow> errno + u8" where
  "kstrtou8 s base = narrow (kstrtoull s base)"

definition kstrtos8 :: "cstr \<Rightarrow> u32 \<Rightarrow> errno + u8" where
  "kstrtos8 s base = narrow_signed (kstrtoll s base)"

definition kstrtobool :: "cstr option \<Rightarrow> errno + bool" where
  "kstrtobool str =
    (case str of
       None \<Rightarrow> Inl EINVAL
     | Some s \<Rightarrow>
         let c = chr_at s 0; d = chr_at s 1 in
         if c = 121 \<or> c = 89 \<or> c = 49 then Inr True
         else if c = 110 \<or> c = 78 \<or> c = 48 then Inr False
         else if (c = 111 \<or> c = 79) \<and> (d = 110 \<or> d = 78) then Inr True
         else if (c = 111 \<or> c = 79) \<and> (d = 102 \<or> d = 70) then Inr False
         else Inl EINVAL)"

text \<open>The older conversions: the value and the rest of the string.\<close>

definition simple_strntoull :: "cstr \<Rightarrow> nat \<Rightarrow> u32 \<Rightarrow> u64 \<times> cstr" where
  "simple_strntoull startp max_chars base =
    (let (cp, base1) = u_parse_integer_fixup_radix startp base; prefix_chars = length startp - length cp in
     if prefix_chars < max_chars then
       let (result, rv) = u_parse_integer_limit cp base1 (max_chars - prefix_chars)
       in (result, drop (unat (rv AND NOT KSTRTOX_OVERFLOW)) cp)
     else (0, drop max_chars startp))"

definition simple_strtoull :: "cstr \<Rightarrow> u32 \<Rightarrow> u64 \<times> cstr" where
  "simple_strtoull cp base = simple_strntoull cp INT_MAX base"

definition simple_strtoul :: "cstr \<Rightarrow> u32 \<Rightarrow> u64 \<times> cstr" where
  "simple_strtoul cp base = simple_strtoull cp base"

definition simple_strtol :: "cstr \<Rightarrow> u32 \<Rightarrow> s64 \<times> cstr" where
  "simple_strtol cp base =
    (if chr_at cp 0 = 45 then map_prod uminus id (simple_strtoul (drop 1 cp) base) else simple_strtoul cp base)"

definition simple_strntoll :: "cstr \<Rightarrow> nat \<Rightarrow> u32 \<Rightarrow> s64 \<times> cstr" where
  "simple_strntoll cp max_chars base =
    (if chr_at cp 0 = 45 \<and> max_chars > 0 then map_prod uminus id (simple_strntoull (drop 1 cp) (max_chars - 1) base)
     else simple_strntoull cp max_chars base)"

definition simple_strtoll :: "cstr \<Rightarrow> u32 \<Rightarrow> s64 \<times> cstr" where
  "simple_strtoll cp base = simple_strntoll cp INT_MAX base"

section \<open>What the conversions compute\<close>

fun take_digits :: "nat \<Rightarrow> cstr \<Rightarrow> nat list" where
  "take_digits b [] = []"
| "take_digits b (c # s) =
    (case digit_val c of None \<Rightarrow> [] | Some v \<Rightarrow> if unat v < b then unat v # take_digits b s else [])"

definition horner :: "nat \<Rightarrow> nat \<Rightarrow> nat list \<Rightarrow> nat" where
  "horner b a ds = foldl (\<lambda>x d. x * b + d) a ds"

lemma horner_simps [simp]: "horner b a [] = a" "horner b a (d # ds) = horner b (a * b + d) ds"
  by (simp_all add: horner_def)

lemma horner_grows: "0 < b \<Longrightarrow> a \<le> horner b a ds"
proof (induction ds arbitrary: a)
  case (Cons d ds)
  have "a \<le> a * b + d" using Cons.prems by (simp add: trans_le_add1)
  then show ?case using Cons.IH [of "a * b + d"] Cons.prems by simp
qed simp

lemma take_digits_length: "length (take_digits b s) \<le> length s"
  by (induction s) (auto split: option.splits)

text \<open>The number of digits, with the mark of an overflow.\<close>

definition rv_of :: "nat \<Rightarrow> nat \<Rightarrow> u32" where
  "rv_of a n = word_of_nat (n + (if 2 ^ 64 \<le> a then 2 ^ 31 else 0))"

lemma or_top: "n < 2 ^ 31 \<Longrightarrow> (word_of_nat n :: u32) OR KSTRTOX_OVERFLOW = word_of_nat (n + 2 ^ 31)"
proof -
  assume n: "n < 2 ^ 31"
  have "bit (word_of_nat n :: u32) 31 \<longleftrightarrow> bit n 31" by (simp add: bit_of_nat_iff)
  then have "\<not> bit (word_of_nat n :: u32) 31" using n by (simp add: bit_iff_odd)
  moreover have "KSTRTOX_OVERFLOW = (2 ^ 31 :: u32)" by simp
  ultimately have "(word_of_nat n :: u32) OR KSTRTOX_OVERFLOW = word_of_nat n + 2 ^ 31"
    by (metis bit_exp_iff disjunctive_add)
  then show ?thesis by simp
qed

lemma rv_of_or: "n < 2 ^ 31 \<Longrightarrow> rv_of a n OR KSTRTOX_OVERFLOW = rv_of (2 ^ 64) n"
proof -
  assume n: "n < 2 ^ 31"
  have "(word_of_nat (n + 2 ^ 31) :: u32) OR KSTRTOX_OVERFLOW = word_of_nat (n + 2 ^ 31)"
    unfolding or_top [OF n, symmetric] by (simp add: or.assoc)
  then show ?thesis using or_top [OF n] by (simp add: rv_of_def)
qed

lemma top_bits_clear: "(w :: u64) AND push_bit 60 (NOT 0) = 0 \<longleftrightarrow> drop_bit 60 w = 0"
proof
  assume l: "w AND push_bit 60 (NOT 0) = 0"
  show "drop_bit 60 w = 0"
  proof (rule bit_word_eqI)
    fix n :: nat
    show "bit (drop_bit 60 w) n = bit (0 :: u64) n"
      using arg_cong [OF l, of "\<lambda>x. bit x (60 + n)"] not_bit_length [where x = w and n = "60 + n"] by (cases "n < 4") (auto simp: bit_simps)
  qed
next
  assume r: "drop_bit 60 w = 0"
  show "w AND push_bit 60 (NOT 0) = 0"
  proof (rule bit_word_eqI)
    fix n :: nat
    show "bit (w AND push_bit 60 (NOT 0)) n = bit (0 :: u64) n"
      using arg_cong [OF r, of "\<lambda>x. bit x (n - 60)"] by (cases "60 \<le> n") (auto simp: bit_simps)
  qed
qed

lemma overflow_test:
  assumes "a < 2 ^ 64" "v < b" "0 < b" "b \<le> 16"
  shows "(word_of_nat a AND push_bit 60 (NOT 0) \<noteq> (0 :: u64) \<and> word_of_nat a > (NOT 0 - word_of_nat v) div (word_of_nat b :: u64)) \<longleftrightarrow> 2 ^ 64 \<le> a * b + v"
proof -
  have u: "unat (word_of_nat a :: u64) = a" "unat (word_of_nat v :: u64) = v" "unat (word_of_nat b :: u64) = b"
    using assms by (simp_all add: unsigned_of_nat take_bit_nat_eq_self)
  have "unat ((NOT 0 :: u64) - word_of_nat v) = 2 ^ 64 - 1 - v" by (simp add: unat_sub u(2) unsigned_minus_1_eq_mask mask_eq_exp_minus_1)
  then have "unat ((NOT 0 - word_of_nat v) div (word_of_nat b :: u64)) = (2 ^ 64 - 1 - v) div b" by (simp add: unat_div u(3))
  then have c: "word_of_nat a > (NOT 0 - word_of_nat v) div (word_of_nat b :: u64) \<longleftrightarrow> (2 ^ 64 - 1 - v) div b < a"
    by (simp add: word_less_nat_alt u(1))
  have "(2 ^ 64 - 1 - v) div b < a \<longleftrightarrow> 2 ^ 64 - 1 - v < a * b" using assms(3) by (simp add: div_less_iff_less_mult)
  also have "\<dots> \<longleftrightarrow> 2 ^ 64 \<le> a * b + v"
  proof -
    have "M - 1 - v < x \<longleftrightarrow> M \<le> x + v" if "v < M" for M x :: nat using that by auto
    from this [of "2 ^ 64" "a * b"] show ?thesis using assms(2,4) by simp
  qed
  finally have d: "(2 ^ 64 - 1 - v) div b < a \<longleftrightarrow> 2 ^ 64 \<le> a * b + v" .
  have "word_of_nat a AND push_bit 60 (NOT 0) = (0 :: u64) \<longleftrightarrow> drop_bit 60 (word_of_nat a :: u64) = 0"
    by (rule top_bits_clear)
  also have "\<dots> \<longleftrightarrow> a div 2 ^ 60 = 0"
    using u(1) by (simp add: word_unat_eq_iff unat_div drop_bit_eq_div)
  finally have s: "word_of_nat a AND push_bit 60 (NOT 0) \<noteq> (0 :: u64) \<longleftrightarrow> 2 ^ 60 \<le> a" by (simp add: div_eq_0_iff not_less)
  have "a * b + v < 2 ^ 64" if "a < 2 ^ 60"
  proof -
    have "a * b \<le> (2 ^ 60 - 1) * 16" using that assms(4) by (intro mult_le_mono) auto
    then show ?thesis using assms(2,4) by simp
  qed
  then show ?thesis using c d s by (metis not_le)
qed

lemma parse_loop_value:
  assumes "0 < b" "b \<le> 16" "n + length s < 2 ^ 31" "length s \<le> max_chars"
  shows "parse_loop s (word_of_nat b) max_chars (word_of_nat a) (rv_of a n) =
    (word_of_nat (horner b a (take_digits b s)), rv_of (horner b a (take_digits b s)) (n + length (take_digits b s)))"
  using assms(3,4)
proof (induction s arbitrary: a n max_chars)
  case (Cons c s)
  have ub: "unat (word_of_nat b :: u32) = b" using assms(2) by (simp add: unsigned_of_nat take_bit_nat_eq_self)
  show ?case
  proof (cases "digit_val c")
    case None
    then show ?thesis using Cons.prems by simp
  next
    case (Some v)
    show ?thesis
    proof (cases "unat v < b")
      case False
      then have "v \<ge> word_of_nat b" by (simp add: word_le_nat_alt ub)
      then show ?thesis using Some False Cons.prems by simp
    next
      case True
      let ?a = "a * b + unat v"
      have lt: "\<not> v \<ge> word_of_nat b" using True by (simp add: word_le_nat_alt ub)
      have uv: "(ucast v :: u64) = word_of_nat (unat v)" "(ucast (word_of_nat b :: u32) :: u64) = word_of_nat b"
        using assms(2) by (simp_all add: word_unat_eq_iff unsigned_ucast_eq unsigned_of_nat take_bit_nat_eq_self ub)
      have rv: "(if word_of_nat a AND push_bit 60 (NOT 0) \<noteq> (0 :: u64) \<and> word_of_nat a > (NOT 0 - ucast v) div (ucast (word_of_nat b :: u32) :: u64)
          then rv_of a n OR KSTRTOX_OVERFLOW else rv_of a n) = rv_of ?a n"
      proof (cases "a < 2 ^ 64")
        case a: True
        have "n < 2 ^ 31" using Cons.prems by simp
        then show ?thesis unfolding uv overflow_test [OF a True assms(1,2)] using rv_of_or [of n a] a by (auto simp: rv_of_def)
      next
        case False
        have "a \<le> ?a" using assms(1) by (simp add: trans_le_add1)
        then have "2 ^ 64 \<le> ?a" using False by simp
        moreover have "n < 2 ^ 31" using Cons.prems by simp
        ultimately show ?thesis using rv_of_or [of n a] False by (simp add: rv_of_def)
      qed
      have one: "rv_of ?a n + 1 = rv_of ?a (Suc n)" by (simp add: rv_of_def)
      have res: "word_of_nat a * ucast (word_of_nat b :: u32) + ucast v = (word_of_nat ?a :: u64)" unfolding uv by simp
      have nz: "max_chars \<noteq> 0" using Cons.prems by auto
      have "parse_loop (c # s) (word_of_nat b) max_chars (word_of_nat a) (rv_of a n) =
          parse_loop s (word_of_nat b) (max_chars - 1) (word_of_nat ?a) (rv_of ?a (Suc n))"
        by (simp only: parse_loop.simps Some nz lt option.case if_False Let_def rv res one)
      then show ?thesis using Cons.IH [of "Suc n" "max_chars - 1" ?a] Cons.prems Some True by simp
    qed
  qed
qed simp

text \<open>The reference: the number in unbounded arithmetic, and what may follow it.\<close>

definition ends_here :: "cstr \<Rightarrow> bool" where
  "ends_here s \<longleftrightarrow> chr_at s 0 = 0 \<or> chr_at s 0 = 10 \<and> chr_at s 1 = 0"

definition number_of :: "nat \<Rightarrow> cstr \<Rightarrow> errno + nat" where
  "number_of b s =
    (let ds = take_digits b s in
     if 2 ^ 64 \<le> horner b 0 ds then Inl ERANGE
     else if ds = [] \<or> \<not> ends_here (drop (length ds) s) then Inl EINVAL
     else Inr (horner b 0 ds))"

lemma fixup_base:
  assumes "u_parse_integer_fixup_radix s base = (s1, base1)" "unat base \<le> 16"
  shows "0 < unat base1 \<and> unat base1 \<le> 16 \<and> length s1 \<le> length s"
proof -
  have "base \<noteq> 0 \<Longrightarrow> 0 < unat base" by (simp add: unat_gt_0)
  then show ?thesis using assms by (auto simp: u_parse_integer_fixup_radix_def Let_def split: if_splits)
qed

lemma parse_integer_value:
  assumes "0 < unat base" "unat base \<le> 16" "length s < 2 ^ 31 - 1"
  shows "u_parse_integer s base =
    (word_of_nat (horner (unat base) 0 (take_digits (unat base) s)),
     rv_of (horner (unat base) 0 (take_digits (unat base) s)) (length (take_digits (unat base) s)))"
  using parse_loop_value [OF assms(1,2), of 0 s INT_MAX 0] assms(3)
  by (simp add: u_parse_integer_def u_parse_integer_limit_def rv_of_def)

lemma rv_of_flag: "n < 2 ^ 31 \<Longrightarrow> rv_of a n AND KSTRTOX_OVERFLOW \<noteq> 0 \<longleftrightarrow> 2 ^ 64 \<le> a"
proof -
  assume n: "n < 2 ^ 31"
  have top: "rv_of a n AND KSTRTOX_OVERFLOW \<noteq> 0 \<longleftrightarrow> bit (rv_of a n) 31"
  proof -
    have "KSTRTOX_OVERFLOW = push_bit 31 1" by simp
    then show ?thesis by (simp only: and_exp_eq_0_iff_not_bit push_bit_of_1 not_not)
  qed
  have b: "bit (word_of_nat m :: u32) 31 \<longleftrightarrow> odd (m div 2 ^ 31)" for m :: nat
    unfolding bit_iff_odd [of m 31, symmetric] by (simp add: bit_of_nat_iff)
  have "(n + 2 ^ 31) div 2 ^ 31 = 1" "n div 2 ^ 31 = 0" using n by simp_all
  then have "bit (rv_of a n) 31 \<longleftrightarrow> 2 ^ 64 \<le> a" unfolding rv_of_def b by (cases "2 ^ 64 \<le> a") simp_all
  then show ?thesis using top by blast
qed

lemma kstrtoull_number:
  assumes "u_parse_integer_fixup_radix s base = (s1, base1)" "unat base \<le> 16" "length s < 2 ^ 31 - 1"
  shows "u_kstrtoull s base = map_sum id word_of_nat (number_of (unat base1) s1)"
proof -
  let ?ds = "take_digits (unat base1) s1"
  let ?v = "horner (unat base1) 0 ?ds"
  have b: "0 < unat base1" "unat base1 \<le> 16" "length s1 < 2 ^ 31 - 1" using fixup_base [OF assms(1,2)] assms(3) by auto
  have n: "length ?ds < 2 ^ 31" using take_digits_length [of "unat base1" s1] b(3) by simp
  note p = parse_integer_value [OF b] rv_of_flag [OF n]
  show ?thesis
  proof (cases "2 ^ 64 \<le> ?v")
    case True
    then show ?thesis using p by (simp add: u_kstrtoull_def number_of_def assms(1) Let_def)
  next
    case False
    have u: "unat (rv_of ?v (length ?ds)) = length ?ds" using False n by (simp add: rv_of_def unsigned_of_nat take_bit_nat_eq_self)
    then have "rv_of ?v (length ?ds) = 0 \<longleftrightarrow> ?ds = []" by (simp add: unat_eq_0 [symmetric])
    moreover have "chr_at (if chr_at r 0 = 10 then drop 1 r else r) 0 = 0 \<longleftrightarrow> ends_here r" for r
      by (auto simp: ends_here_def chr_at_def)
    ultimately show ?thesis using p False u by (simp add: u_kstrtoull_def number_of_def assms(1) Let_def)
  qed
qed

section \<open>Decimal numbers\<close>

fun print_nat :: "nat \<Rightarrow> cstr" where
  "print_nat n = (if n < 10 then [word_of_nat (48 + n)] else print_nat (n div 10) @ [word_of_nat (48 + n mod 10)])"

declare print_nat.simps [simp del]

lemma digit_val_print: "d < 10 \<Longrightarrow> digit_val (word_of_nat (48 + d)) = Some (word_of_nat d)"
proof -
  have "\<forall>d \<in> set [0..<10]. digit_val (word_of_nat (48 + d)) = Some (word_of_nat d)" by code_simp
  then show "d < 10 \<Longrightarrow> ?thesis" by simp
qed

lemma take_digits_append:
  assumes "take_digits b s = ds" "length ds = length s"
  shows "take_digits b (s @ t) = ds @ take_digits b t"
  using assms by (induction s arbitrary: ds) (auto split: option.splits if_splits)

lemma print_nat_digits: "length (take_digits 10 (print_nat n)) = length (print_nat n) \<and> horner 10 0 (take_digits 10 (print_nat n)) = n"
proof (induction n rule: print_nat.induct)
  case (1 n)
  have d: "take_digits 10 [word_of_nat (48 + d)] = [d]" if "d < 10" for d
    using digit_val_print [OF that] that by (simp add: unsigned_of_nat take_bit_nat_eq_self)
  show ?case
  proof (cases "n < 10")
    case True
    then show ?thesis using d [of n] by (subst (1 2 3) print_nat.simps) simp
  next
    case False
    let ?p = "print_nat (n div 10)"
    have p: "print_nat n = ?p @ [word_of_nat (48 + n mod 10)]" using False by (subst print_nat.simps) simp
    have "take_digits 10 (print_nat n) = take_digits 10 ?p @ [n mod 10]"
      unfolding p using take_digits_append [OF refl, of 10 ?p "[word_of_nat (48 + n mod 10)]"] 1 False d [of "n mod 10"] by simp
    then show ?thesis using 1 False p by (simp add: horner_def)
  qed
qed

definition print_int :: "int \<Rightarrow> cstr" where
  "print_int i = (if i < 0 then 45 # print_nat (nat (- i)) else print_nat (nat i))"

lemma digit_chr: "d < 10 \<Longrightarrow> 48 \<le> (word_of_nat (48 + d) :: u8) \<and> (word_of_nat (48 + d) :: u8) \<le> 57"
proof -
  have "\<forall>d \<in> set [0..<10]. 48 \<le> (word_of_nat (48 + d) :: u8) \<and> (word_of_nat (48 + d) :: u8) \<le> 57" by code_simp
  then show "d < 10 \<Longrightarrow> ?thesis" by simp
qed

lemma uint_of_nat64: "n < 2 ^ 64 \<Longrightarrow> uint (word_of_nat n :: u64) = int n"
  by (simp add: uint_nat unsigned_of_nat take_bit_nat_eq_self)

lemma print_nat_first: "48 \<le> chr_at (print_nat n) 0 \<and> chr_at (print_nat n) 0 \<le> 57 \<and> print_nat n \<noteq> []"
proof (induction n rule: print_nat.induct)
  case (1 n)
  show ?case
  proof (cases "n < 10")
    case True
    then have "print_nat n = [word_of_nat (48 + n)]" by (subst print_nat.simps) simp
    then show ?thesis using digit_chr [OF True] by (simp add: chr_at_def del: of_nat_add)
  next
    case False
    then have "print_nat n = print_nat (n div 10) @ [word_of_nat (48 + n mod 10)]" by (subst print_nat.simps) simp
    then show ?thesis using 1 False by (auto simp: chr_at_def nth_append split: if_splits)
  qed
qed

lemma number_of_print: "number_of 10 (print_nat n) = (if 2 ^ 64 \<le> n then Inl ERANGE else Inr n)"
proof -
  have "take_digits 10 (print_nat n) \<noteq> []" using print_nat_digits [of n] print_nat_first [of n] by auto
  then show ?thesis using print_nat_digits [of n] by (simp add: number_of_def Let_def ends_here_def chr_at_def)
qed

lemma kstrtoull_print:
  assumes "length (print_nat n) < 2 ^ 31 - 1"
  shows "u_kstrtoull (print_nat n) 10 = (if 2 ^ 64 \<le> n then Inl ERANGE else Inr (word_of_nat n))"
    "kstrtoull (print_nat n) 10 = (if 2 ^ 64 \<le> n then Inl ERANGE else Inr (word_of_nat n))"
proof -
  have "u_parse_integer_fixup_radix (print_nat n) 10 = (print_nat n, 10)" by (simp add: u_parse_integer_fixup_radix_def)
  from kstrtoull_number [OF this _ assms]
  show u: "u_kstrtoull (print_nat n) 10 = (if 2 ^ 64 \<le> n then Inl ERANGE else Inr (word_of_nat n))" by (simp add: number_of_print)
  have "chr_at (print_nat n) 0 \<noteq> 43" using print_nat_first [of n] by auto
  then show "kstrtoull (print_nat n) 10 = (if 2 ^ 64 \<le> n then Inl ERANGE else Inr (word_of_nat n))" using u by (simp add: kstrtoull_def)
qed

lemma minus_tmp:
  assumes "0 < n" "n < 2 ^ 64"
  shows "0 <s - (word_of_nat n :: s64) \<longleftrightarrow> 2 ^ 63 < n"
proof -
  have u: "uint (word_of_nat n :: s64) = int n" by (rule uint_of_nat64 [OF assms(2)])
  have "uint (- (word_of_nat n :: s64)) = 2 ^ 64 - int n"
    using assms u by (simp add: uint_word_ariths zmod_zminus1_eq_if)
  then show ?thesis using assms by (auto simp: word_sless_alt sint_uint64)
qed

lemma kstrtoll_print:
  assumes "length (print_int i) < 2 ^ 31 - 1"
  shows "kstrtoll (print_int i) 10 = (if - (2 ^ 63) \<le> i \<and> i < 2 ^ 63 then Inr (word_of_int i) else Inl ERANGE)"
proof (cases "i < 0")
  case True
  define n where "n = nat (- i)"
  have n: "0 < n" "i = - int n" using True by (simp_all add: n_def)
  have p: "print_int i = 45 # print_nat n" using True by (simp add: print_int_def n_def)
  have "kstrtoll (print_int i) 10 = (if 2 ^ 64 \<le> n then Inl ERANGE else if 2 ^ 63 < n then Inl ERANGE else Inr (- word_of_nat n))"
    using kstrtoull_print(1) [of n] assms minus_tmp [OF n(1)] by (simp add: kstrtoll_def p chr_at_def)
  moreover have "(- word_of_nat n :: s64) = word_of_int i" by (simp add: n(2))
  ultimately show ?thesis using n by auto
next
  case False
  define n where "n = nat i"
  have n: "i = int n" using False by (simp add: n_def)
  have p: "print_int i = print_nat n" using False by (simp add: print_int_def n_def)
  have "chr_at (print_nat n) 0 \<noteq> 45" using print_nat_first [of n] by auto
  moreover have "word_of_nat n <s (0 :: s64) \<longleftrightarrow> 2 ^ 63 \<le> n" if "n < 2 ^ 64"
  proof -
    have "uint (word_of_nat n :: s64) = int n" by (rule uint_of_nat64 [OF that])
    then show ?thesis using that by (auto simp: word_sless_alt sint_uint64)
  qed
  ultimately have "kstrtoll (print_int i) 10 = (if 2 ^ 64 \<le> n then Inl ERANGE else if 2 ^ 63 \<le> n then Inl ERANGE else Inr (word_of_nat n))"
    using kstrtoull_print(2) [of n] assms by (simp add: kstrtoll_def p)
  then show ?thesis using n by auto
qed

lemma narrow_signed_32:
  assumes "- (2 ^ 63) \<le> i" "i < 2 ^ 63"
  shows "narrow_signed (Inr (word_of_int i)) = (if - (2 ^ 31) \<le> i \<and> i < 2 ^ 31 then Inr (word_of_int i :: s32) else Inl ERANGE)"
proof -
  have s: "sint (word_of_int i :: s64) = i" using assms by (simp add: sint_sbintrunc' signed_take_bit_int_eq_self)
  have u: "(ucast (word_of_int i :: s64) :: s32) = word_of_int i" by (simp add: unsigned_of_int word_of_int_eq_iff)
  have c: "sint (scast (word_of_int i :: s32) :: s64) = signed_take_bit 31 i"
    by (simp add: sint_sbintrunc' scast_eq signed_take_bit_signed_take_bit)
  have "(word_of_int i :: s64) = scast (word_of_int i :: s32) \<longleftrightarrow> i = signed_take_bit 31 i"
    by (metis c s signed_word_eqI)
  also have "\<dots> \<longleftrightarrow> - (2 ^ 31) \<le> i \<and> i < 2 ^ 31" by (metis signed_take_bit_int_eq_self_iff)
  finally show ?thesis by (simp add: narrow_signed_def u)
qed

section \<open>Properties\<close>

text \<open>
  C30. \<^verbatim>\<open>kstrtoull\<close> computes in 64 bits what the digits stand for in unbounded arithmetic, for every base up to
  16 and with the base found from a prefix: the number, \<^verbatim>\<open>ERANGE\<close> if and only if it does not fit into 64
  bits, although the overflow is only looked for when the top four bits are in use, and \<^verbatim>\<open>EINVAL\<close> if there is
  no digit or anything but one newline behind them.
\<close>

theorem kstrtoull_correct:
  assumes "unat base \<le> 16" and "length s < 2 ^ 31 - 1"
  shows "kstrtoull s base =
    (case u_parse_integer_fixup_radix (if chr_at s 0 = 43 then drop 1 s else s) base of
       (digits, base1) \<Rightarrow> map_sum id word_of_nat (number_of (unat base1) digits))"
proof -
  let ?s = "if chr_at s 0 = 43 then drop 1 s else s"
  obtain s1 base1 where f: "u_parse_integer_fixup_radix ?s base = (s1, base1)" by fastforce
  have "length ?s < 2 ^ 31 - 1" using assms(2) by auto
  then show ?thesis using kstrtoull_number [OF f assms(1)] f by (simp add: kstrtoull_def)
qed

text \<open>The strings \<^verbatim>\<open>0x1F\<close> and \<^verbatim>\<open>18446744073709551616\<close>.\<close>

theorem kstrtoull_correct_witness:
  "kstrtoull [48, 120, 49, 70, 10] 0 = Inr 31 \<and>
   kstrtoull [49, 56, 52, 52, 54, 55, 52, 52, 48, 55, 51, 55, 48, 57, 53, 53, 49, 54, 49, 54] 0 = Inl ERANGE"
proof -
  have 1: "unat (0 :: u32) \<le> 16" "length [48, 120, 49, 70, 10 :: u8] < 2 ^ 31 - 1"
    "length [49, 56, 52, 52, 54, 55, 52, 52, 48, 55, 51, 55, 48, 57, 53, 53, 49, 54, 49, 54 :: u8] < 2 ^ 31 - 1" by simp_all
  have d: "take_digits 16 [49, 70, 10] = [1, 15]"
    "take_digits 10 [49, 56, 52, 52, 54, 55, 52, 52, 48, 55, 51, 55, 48, 57, 53, 53, 49, 54, 49, 54] = [1, 8, 4, 4, 6, 7, 4, 4, 0, 7, 3, 7, 0, 9, 5, 5, 1, 6, 1, 6]"
    by code_simp+
  have "number_of 16 [49, 70, 10] = Inr 31"
    "number_of 10 [49, 56, 52, 52, 54, 55, 52, 52, 48, 55, 51, 55, 48, 57, 53, 53, 49, 54, 49, 54] = Inl ERANGE"
    unfolding number_of_def d by (simp_all add: ends_here_def chr_at_def)
  moreover have "u_parse_integer_fixup_radix [48, 120, 49, 70, 10] 0 = ([49, 70, 10], 16)" by code_simp
  ultimately show ?thesis unfolding kstrtoull_correct [OF 1(1,2)] kstrtoull_correct [OF 1(1,3)]
    by (simp add: chr_at_def u_parse_integer_fixup_radix_def)
qed

text \<open>
  Reading back what was printed: \<^verbatim>\<open>kstrtoint\<close> on the decimal representation of an integer gives the
  integer if it is an \<^verbatim>\<open>int\<close>, and \<^verbatim>\<open>ERANGE\<close> otherwise, however large it is.
\<close>

theorem kstrtoint_print:
  assumes "length (print_int i) < 2 ^ 31 - 1"
  shows "kstrtoint (print_int i) 10 = (if - (2 ^ 31) \<le> i \<and> i < 2 ^ 31 then Inr (word_of_int i) else Inl ERANGE)"
proof (cases "- (2 ^ 63) \<le> i \<and> i < 2 ^ 63")
  case True
  then show ?thesis using kstrtoll_print [OF assms] narrow_signed_32 [of i] by (simp add: kstrtoint_def)
next
  case False
  then have "\<not> (- (2 ^ 31) \<le> i \<and> i < 2 ^ 31)" by auto
  then show ?thesis using kstrtoll_print [OF assms] False by (simp only: kstrtoint_def if_False narrow_signed_def sum.case)
qed

theorem kstrtoint_print_witness:
  "kstrtoint (print_int (- 2147483648)) 10 = Inr 0x80000000 \<and> kstrtoint (print_int 2147483648) 10 = Inl ERANGE"
proof -
  have "length (print_int (- 2147483648)) < 2 ^ 31 - 1" "length (print_int 2147483648) < 2 ^ 31 - 1"
    by (simp_all add: print_int_def print_nat.simps)
  from this [THEN kstrtoint_print] show ?thesis by simp
qed

section \<open>Evaluation\<close>

text \<open>A limit beyond the length of the string makes no difference, which lets the conversions be evaluated.\<close>

lemma parse_loop_limit: "length s \<le> n \<Longrightarrow> length s \<le> k \<Longrightarrow> parse_loop s base n res rv = parse_loop s base k res rv"
proof (induction s arbitrary: n k res rv)
  case (Cons ch s)
  have z: "n \<noteq> 0" "k \<noteq> 0" "length s \<le> n - 1" "length s \<le> k - 1" using Cons.prems by auto
  show ?case using z(1,2) Cons.IH [OF z(3,4)] by (simp add: Let_def split: option.split)
qed simp

lemma simple_strntoull_limit:
  assumes "length s < n" "length s < k"
  shows "simple_strntoull s n base = simple_strntoull s k base"
proof -
  obtain cp base1 where f: "u_parse_integer_fixup_radix s base = (cp, base1)" by (cases "u_parse_integer_fixup_radix s base")
  have l: "length cp \<le> length s" using f by (auto simp: u_parse_integer_fixup_radix_def Let_def split: if_splits)
  have "parse_loop cp base1 (n - (length s - length cp)) 0 0 = parse_loop cp base1 (k - (length s - length cp)) 0 0"
    by (rule parse_loop_limit) (use l assms in auto)
  moreover have "length s - length cp < n" "length s - length cp < k" using assms by auto
  ultimately show ?thesis by (simp add: simple_strntoull_def f u_parse_integer_limit_def Let_def)
qed

lemma simple_strtoull_code [code]:
  "simple_strtoull cp base =
    (if int (length cp) < 2147483647 then simple_strntoull cp (Suc (length cp)) base else simple_strntoull cp (2 ^ 31 - 1) base)"
proof (cases "int (length cp) < 2147483647")
  case True
  then have "simple_strntoull cp (2 ^ 31 - 1) base = simple_strntoull cp (Suc (length cp)) base"
    by (intro simple_strntoull_limit) simp_all
  then show ?thesis using True by (simp add: simple_strtoull_def)
qed (simp add: simple_strtoull_def)

end
