(* ===== verification/Userns.thy ===== *)
theory Userns
  imports Idmap Kstrtox "HOL-Library.Monad_Syntax"
begin

text \<open>
  User namespaces (\<^verbatim>\<open>kernel/user_namespace.c\<close>) and the capabilities that are relative to them
  (\<^verbatim>\<open>security/commoncap.c\<close>): the tree of namespaces, the files \<^verbatim>\<open>uid_map\<close>, \<^verbatim>\<open>gid_map\<close>,
  \<^verbatim>\<open>projid_map\<close> and \<^verbatim>\<open>setgroups\<close>, and the steps the tree can take.
\<close>

unbundle bit_operations_syntax

section \<open>Namespaces and credentials\<close>

text \<open>Namespaces are the entries of a list, and a pointer to one is its index; \<^verbatim>\<open>init_user_ns\<close> is entry 0.\<close>

record user_namespace =
  uid_map :: uid_gid_map
  gid_map :: uid_gid_map
  projid_map :: uid_gid_map
  ns_parent :: "nat option"
  level :: int
  owner :: u32
  group :: u32
  flags :: u64
  parent_could_setfcap :: bool

type_synonym ns_heap = "user_namespace list"

abbreviation (input) USERNS_SETGROUPS_ALLOWED :: u64 where "USERNS_SETGROUPS_ALLOWED \<equiv> 1"
abbreviation (input) CAP_SETGID :: int where "CAP_SETGID \<equiv> 6"
abbreviation (input) CAP_SETUID :: int where "CAP_SETUID \<equiv> 7"
abbreviation (input) CAP_SYS_ADMIN :: int where "CAP_SYS_ADMIN \<equiv> 21"
abbreviation (input) CAP_SETFCAP :: int where "CAP_SETFCAP \<equiv> 31"
abbreviation (input) CAP_LAST_CAP :: int where "CAP_LAST_CAP \<equiv> 40"

definition cap_valid :: "int \<Rightarrow> bool" where
  "cap_valid x \<longleftrightarrow> x \<ge> 0 \<and> x \<le> CAP_LAST_CAP"

definition full_map :: uid_gid_map where
  "full_map = empty_map\<lparr>nr_extents := 1, extent := (extent empty_map)[0 := \<lparr>ext_first = 0, ext_lower_first = 0, ext_count = 4294967295\<rparr>]\<rparr>"

definition init_user_ns :: user_namespace where
  "init_user_ns = \<lparr>uid_map = full_map, gid_map = full_map, projid_map = full_map, ns_parent = None, level = 0, owner = 0, group = 0,
     flags = USERNS_SETGROUPS_ALLOWED, parent_could_setfcap = False\<rparr>"

record cred =
  cred_user_ns :: nat
  euid :: u32
  egid :: u32
  cap_effective :: "u32 list"

definition cap_raised :: "u32 list \<Rightarrow> int \<Rightarrow> bool" where
  "cap_raised c flag \<longleftrightarrow> (c ! nat (flag div 32)) AND push_bit (nat (flag mod 32)) 1 \<noteq> 0"

text \<open>A namespace without a parent above the level asked for would be a null pointer: no result.\<close>

partial_function (option) cap_capable :: "ns_heap \<Rightarrow> cred \<Rightarrow> nat \<Rightarrow> int \<Rightarrow> (errno + unit) option" where
  "cap_capable nss cr ns cap =
    (if ns = cred_user_ns cr then Some (if cap_raised (cap_effective cr) cap then Inr () else Inl EPERM)
     else if level (nss ! ns) \<le> level (nss ! cred_user_ns cr) then Some (Inl EPERM)
     else if ns_parent (nss ! ns) = Some (cred_user_ns cr) \<and> owner (nss ! ns) = euid cr then Some (Inr ())
     else case ns_parent (nss ! ns) of None \<Rightarrow> None | Some p \<Rightarrow> cap_capable nss cr p cap)"

declare cap_capable.simps [code]

text \<open>The other security modules can only deny: \<open>lsm\<close> is whether they all agree. No result is \<^verbatim>\<open>BUG\<close>.\<close>

type_synonym lsm_hook = "cred \<Rightarrow> nat \<Rightarrow> int \<Rightarrow> bool"

definition security_capable :: "lsm_hook \<Rightarrow> ns_heap \<Rightarrow> cred \<Rightarrow> nat \<Rightarrow> int \<Rightarrow> bool option" where
  "security_capable lsm nss cr ns cap = map_option (\<lambda>r. r = Inr () \<and> lsm cr ns cap) (cap_capable nss cr ns cap)"

definition ns_capable :: "lsm_hook \<Rightarrow> ns_heap \<Rightarrow> cred \<Rightarrow> nat \<Rightarrow> int \<Rightarrow> bool option" where
  "ns_capable lsm nss current_cred ns cap =
    (if \<not> cap_valid cap then None else security_capable lsm nss current_cred ns cap)"

definition file_ns_capable :: "lsm_hook \<Rightarrow> ns_heap \<Rightarrow> cred \<Rightarrow> nat \<Rightarrow> int \<Rightarrow> bool option" where
  "file_ns_capable lsm nss f_cred ns cap =
    (if \<not> cap_valid cap then Some False else security_capable lsm nss f_cred ns cap)"

section \<open>Ids of users, groups and projects\<close>

definition make_kuid :: "user_namespace \<Rightarrow> u32 \<Rightarrow> u32" where
  "make_kuid ns uid = map_id_down (uid_map ns) uid"

definition from_kuid :: "user_namespace \<Rightarrow> u32 \<Rightarrow> u32" where
  "from_kuid targ kuid = map_id_up (uid_map targ) kuid"

definition from_kuid_munged :: "u32 \<Rightarrow> user_namespace \<Rightarrow> u32 \<Rightarrow> u32" where
  "from_kuid_munged overflowuid targ kuid = (let uid = from_kuid targ kuid in if uid = - 1 then overflowuid else uid)"

definition make_kgid :: "user_namespace \<Rightarrow> u32 \<Rightarrow> u32" where
  "make_kgid ns gid = map_id_down (gid_map ns) gid"

definition from_kgid :: "user_namespace \<Rightarrow> u32 \<Rightarrow> u32" where
  "from_kgid targ kgid = map_id_up (gid_map targ) kgid"

definition from_kgid_munged :: "u32 \<Rightarrow> user_namespace \<Rightarrow> u32 \<Rightarrow> u32" where
  "from_kgid_munged overflowgid targ kgid = (let gid = from_kgid targ kgid in if gid = - 1 then overflowgid else gid)"

definition make_kprojid :: "user_namespace \<Rightarrow> u32 \<Rightarrow> u32" where
  "make_kprojid ns projid = map_id_down (projid_map ns) projid"

definition from_kprojid :: "user_namespace \<Rightarrow> u32 \<Rightarrow> u32" where
  "from_kprojid targ kprojid = map_id_up (projid_map targ) kprojid"

definition from_kprojid_munged :: "user_namespace \<Rightarrow> u32 \<Rightarrow> u32" where
  "from_kprojid_munged targ kprojid = (let projid = from_kprojid targ kprojid in if projid = - 1 then 65534 else projid)"

definition kuid_has_mapping :: "user_namespace \<Rightarrow> u32 \<Rightarrow> bool" where
  "kuid_has_mapping ns uid \<longleftrightarrow> from_kuid ns uid \<noteq> - 1"

definition kgid_has_mapping :: "user_namespace \<Rightarrow> u32 \<Rightarrow> bool" where
  "kgid_has_mapping ns gid \<longleftrightarrow> from_kgid ns gid \<noteq> - 1"

section \<open>Creating a namespace\<close>

definition set_cred_user_ns :: "cred \<Rightarrow> nat \<Rightarrow> cred" where
  "set_cred_user_ns cr user_ns = cr\<lparr>cap_effective := [0xffffffff, 0x1ff], cred_user_ns := user_ns\<rparr>"

text \<open>
  What the code asks of the rest of the kernel: whether the count of namespaces may grow, whether the task is
  in a changed root, and whether the allocations and registrations succeed.
\<close>

record create_env =
  ucounts_ok :: bool
  chrooted :: bool
  zalloc_ok :: bool
  inum_result :: "errno option"
  sysctls_ok :: bool

definition create_user_ns :: "create_env \<Rightarrow> ns_heap \<Rightarrow> cred \<Rightarrow> errno + (ns_heap \<times> cred)" where
  "create_user_ns env nss new =
    (let parent_ns = cred_user_ns new; owner = euid new; group = egid new
     in if level (nss ! parent_ns) > 32 then Inl ENOSPC
        else if \<not> ucounts_ok env then Inl ENOSPC
        else if chrooted env then Inl EPERM
        else if \<not> kuid_has_mapping (nss ! parent_ns) owner \<or> \<not> kgid_has_mapping (nss ! parent_ns) group then Inl EPERM
        else if \<not> zalloc_ok env then Inl ENOMEM
        else case inum_result env of
          Some err \<Rightarrow> Inl err
        | None \<Rightarrow>
            let ns = \<lparr>uid_map = empty_map, gid_map = empty_map, projid_map = empty_map, ns_parent = Some parent_ns,
                      level = level (nss ! parent_ns) + 1, owner = owner, group = group, flags = flags (nss ! parent_ns),
                      parent_could_setfcap = cap_raised (cap_effective new) CAP_SETFCAP\<rparr>
            in if \<not> sysctls_ok env then Inl ENOMEM
               else Inr (nss @ [ns], set_cred_user_ns new (length nss)))"

section \<open>Writing a map\<close>

definition verify_root_map :: "lsm_hook \<Rightarrow> ns_heap \<Rightarrow> cred \<Rightarrow> nat \<Rightarrow> uid_gid_map \<Rightarrow> bool option" where
  "verify_root_map lsm nss f_cred map_ns new_map =
    (let file_ns = cred_user_ns f_cred
     in case find (\<lambda>e. ext_lower_first e = 0) (extents_of new_map) of
          None \<Rightarrow> Some True
        | Some extent0 \<Rightarrow>
            if map_ns = file_ns then Some (parent_could_setfcap (nss ! file_ns))
            else case ns_parent (nss ! map_ns) of
              None \<Rightarrow> None
            | Some p \<Rightarrow> file_ns_capable lsm nss f_cred p CAP_SETFCAP)"

definition own_id_permitted :: "ns_heap \<Rightarrow> cred \<Rightarrow> user_namespace \<Rightarrow> nat \<Rightarrow> int \<Rightarrow> uid_gid_map \<Rightarrow> bool" where
  "own_id_permitted nss cr ns p cap_setid new_map \<longleftrightarrow>
    nr_extents new_map = 1 \<and> ext_count (extent new_map ! 0) = 1 \<and> owner ns = euid cr \<and>
    (let i = ext_lower_first (extent new_map ! 0)
     in if cap_setid = CAP_SETUID then make_kuid (nss ! p) i = euid cr
        else if cap_setid = CAP_SETGID then flags ns AND USERNS_SETGROUPS_ALLOWED = 0 \<and> make_kgid (nss ! p) i = egid cr
        else False)"

definition new_idmap_permitted :: "lsm_hook \<Rightarrow> ns_heap \<Rightarrow> cred \<Rightarrow> cred \<Rightarrow> nat \<Rightarrow> int \<Rightarrow> uid_gid_map \<Rightarrow> bool option" where
  "new_idmap_permitted lsm nss current_cred f_cred ns cap_setid new_map =
    do {
      root \<leftarrow> (if cap_setid = CAP_SETUID then verify_root_map lsm nss f_cred ns new_map else Some True);
      if \<not> root then Some False
      else do {
        p \<leftarrow> ns_parent (nss ! ns);
        if own_id_permitted nss f_cred (nss ! ns) p cap_setid new_map then Some True
        else if \<not> cap_valid cap_setid then Some True
        else do {
          c \<leftarrow> ns_capable lsm nss current_cred p cap_setid;
          if c then file_ns_capable lsm nss f_cred p cap_setid else Some False
        }
      }
    }"

fun strchr :: "cstr \<Rightarrow> u8 \<Rightarrow> nat option" where
  "strchr [] c = (if c = 0 then Some 0 else None)"
| "strchr (d # s) c = (if d = c then Some 0 else if d = 0 then None else map_option Suc (strchr s c))"

text \<open>One line of the text written to a map: three numbers, of which the low 32 bits are kept.\<close>

definition parse_extent :: "cstr \<Rightarrow> uid_gid_extent option" where
  "parse_extent line =
    (let (first, pos) = simple_strtoul (skip_spaces line) 10
     in if \<not> isspace (chr_at pos 0) then None
        else let (lower_first, pos) = simple_strtoul (skip_spaces pos) 10
        in if \<not> isspace (chr_at pos 0) then None
        else let (cnt, pos) = simple_strtoul (skip_spaces pos) 10
        in if chr_at pos 0 \<noteq> 0 \<and> \<not> isspace (chr_at pos 0) then None
        else let pos = skip_spaces pos
        in if chr_at pos 0 \<noteq> 0 then None
        else let e = \<lparr>ext_first = ucast first, ext_lower_first = ucast lower_first, ext_count = ucast cnt\<rparr>
        in if ext_first e = - 1 \<or> ext_lower_first e = - 1 then None
        else if ext_first e + ext_count e \<le> ext_first e then None
        else if ext_lower_first e + ext_count e \<le> ext_lower_first e then None
        else Some e)"

lemma strchr_in: "strchr s c = Some i \<Longrightarrow> i \<le> length s"
  by (induction s c arbitrary: i rule: strchr.induct) (auto split: if_splits)

function parse_lines :: "idmap_env \<Rightarrow> uid_gid_map \<Rightarrow> cstr \<Rightarrow> errno option \<times> uid_gid_map" where
  "parse_lines env new_map pos =
    (let nl = strchr pos 10;
         line = (case nl of None \<Rightarrow> pos | Some i \<Rightarrow> take i pos);
         next_line = (case nl of None \<Rightarrow> None | Some i \<Rightarrow> if chr_at pos (i + 1) = 0 then None else Some (drop (i + 1) pos))
     in case parse_extent line of
          None \<Rightarrow> (Some EINVAL, new_map)
        | Some e \<Rightarrow>
            if mappings_overlap new_map e then (Some EINVAL, new_map)
            else if nr_extents new_map + 1 = UID_GID_MAP_MAX_EXTENTS \<and> next_line \<noteq> None then (Some EINVAL, new_map)
            else case insert_extent env new_map e of
              Inl err \<Rightarrow> (Some err, new_map)
            | Inr new_map \<Rightarrow> (case next_line of None \<Rightarrow> (None, new_map) | Some pos \<Rightarrow> parse_lines env new_map pos))"
  by pat_completeness auto
termination
  by (relation "measure (\<lambda>(env, new_map, pos). length pos)") (auto simp: chr_at_def split: option.splits if_splits)

declare parse_lines.simps [simp del]

text \<open>The lower ids of the extents, from ids of the parent namespace to kernel ids.\<close>

fun map_lower_ids :: "uid_gid_map \<Rightarrow> uid_gid_extent list \<Rightarrow> uid_gid_extent list option" where
  "map_lower_ids parent_map [] = Some []"
| "map_lower_ids parent_map (e # es) =
    (let lower_first = map_id_range_down parent_map (ext_lower_first e) (ext_count e)
     in if lower_first = - 1 then None
        else map_option ((#) (e\<lparr>ext_lower_first := lower_first\<rparr>)) (map_lower_ids parent_map es))"

definition set_extents :: "uid_gid_map \<Rightarrow> uid_gid_extent list \<Rightarrow> uid_gid_map" where
  "set_extents mp es =
    (if nr_extents mp \<le> UID_GID_MAP_MAX_BASE_EXTENTS then mp\<lparr>extent := es @ drop (length es) (extent mp)\<rparr>
     else mp\<lparr>forward := es @ drop (length es) (forward mp)\<rparr>)"

definition install_map :: "uid_gid_map \<Rightarrow> uid_gid_map \<Rightarrow> uid_gid_map" where
  "install_map mp new_map =
    (let mp = (if nr_extents new_map \<le> UID_GID_MAP_MAX_BASE_EXTENTS
               then mp\<lparr>extent := extents_of new_map @ drop (unat (nr_extents new_map)) (extent mp)\<rparr>
               else mp\<lparr>forward := forward new_map, reverse := reverse new_map\<rparr>)
     in mp\<lparr>nr_extents := nr_extents new_map\<rparr>)"

text \<open>The way out of a write that failed.\<close>

definition map_write_fail :: "uid_gid_map \<Rightarrow> uid_gid_map \<Rightarrow> errno \<Rightarrow> (errno + u64) \<times> uid_gid_map" where
  "map_write_fail mp new_map err =
    (Inl err, if nr_extents new_map > UID_GID_MAP_MAX_BASE_EXTENTS
              then mp\<lparr>forward := [], reverse := [], nr_extents := 0\<rparr> else mp)"

record map_request =
  req_current :: cred
  req_cred :: cred
  req_ppos :: u64
  req_count :: u64
  req_kbuf :: "errno + cstr"

definition map_write ::
  "idmap_env \<Rightarrow> lsm_hook \<Rightarrow> ns_heap \<Rightarrow> map_request \<Rightarrow> nat \<Rightarrow> int \<Rightarrow> uid_gid_map \<Rightarrow> uid_gid_map \<Rightarrow> ((errno + u64) \<times> uid_gid_map) option" where
  "map_write env lsm nss req map_ns cap_setid mp parent_map =
    (if req_ppos req \<noteq> 0 \<or> req_count req \<ge> 4096 then Some (Inl EINVAL, mp)
     else case req_kbuf req of
       Inl err \<Rightarrow> Some (Inl err, mp)
     | Inr kbuf \<Rightarrow>
         if nr_extents mp \<noteq> 0 then Some (map_write_fail mp empty_map EPERM)
         else do {
           admin \<leftarrow> (if cap_valid cap_setid then file_ns_capable lsm nss (req_cred req) map_ns CAP_SYS_ADMIN else Some True);
           if \<not> admin then Some (map_write_fail mp empty_map EPERM)
           else case parse_lines env empty_map kbuf of
             (Some err, new_map) \<Rightarrow> Some (map_write_fail mp new_map err)
           | (None, new_map) \<Rightarrow>
               if nr_extents new_map = 0 then Some (map_write_fail mp new_map EINVAL)
               else do {
                 ok \<leftarrow> new_idmap_permitted lsm nss (req_current req) (req_cred req) map_ns cap_setid new_map;
                 if \<not> ok then Some (map_write_fail mp new_map EPERM)
                 else case map_lower_ids parent_map (extents_of new_map) of
                   None \<Rightarrow> Some (map_write_fail mp new_map EPERM)
                 | Some es \<Rightarrow> do {
                     (r, new_map) \<leftarrow> sort_idmaps env (set_extents new_map es);
                     case r of
                       Some err \<Rightarrow> Some (map_write_fail mp new_map err)
                     | None \<Rightarrow> Some (Inr (req_count req), install_map mp new_map)
                   }
               }
         })"

section \<open>The files of a namespace under /proc\<close>

text \<open>
  The three handlers of writes look up the namespace and its parent and leave the rest to \<^verbatim>\<open>map_write\<close>. The
  namespace of \<^verbatim>\<open>seq_user_ns\<close> is that of the opener of the file.
\<close>

definition proc_uid_map_write :: "idmap_env \<Rightarrow> lsm_hook \<Rightarrow> ns_heap \<Rightarrow> map_request \<Rightarrow> nat \<Rightarrow> ((errno + u64) \<times> ns_heap) option" where
  "proc_uid_map_write env lsm nss req ns =
    (let seq_ns = cred_user_ns (req_cred req)
     in case ns_parent (nss ! ns) of
          None \<Rightarrow> Some (Inl EPERM, nss)
        | Some p \<Rightarrow>
            if seq_ns \<noteq> ns \<and> seq_ns \<noteq> p then Some (Inl EPERM, nss)
            else map_option (\<lambda>(r, mp). (r, nss[ns := (nss ! ns)\<lparr>uid_map := mp\<rparr>]))
                   (map_write env lsm nss req ns CAP_SETUID (uid_map (nss ! ns)) (uid_map (nss ! p))))"

definition proc_gid_map_write :: "idmap_env \<Rightarrow> lsm_hook \<Rightarrow> ns_heap \<Rightarrow> map_request \<Rightarrow> nat \<Rightarrow> ((errno + u64) \<times> ns_heap) option" where
  "proc_gid_map_write env lsm nss req ns =
    (let seq_ns = cred_user_ns (req_cred req)
     in case ns_parent (nss ! ns) of
          None \<Rightarrow> Some (Inl EPERM, nss)
        | Some p \<Rightarrow>
            if seq_ns \<noteq> ns \<and> seq_ns \<noteq> p then Some (Inl EPERM, nss)
            else map_option (\<lambda>(r, mp). (r, nss[ns := (nss ! ns)\<lparr>gid_map := mp\<rparr>]))
                   (map_write env lsm nss req ns CAP_SETGID (gid_map (nss ! ns)) (gid_map (nss ! p))))"

definition proc_projid_map_write :: "idmap_env \<Rightarrow> lsm_hook \<Rightarrow> ns_heap \<Rightarrow> map_request \<Rightarrow> nat \<Rightarrow> ((errno + u64) \<times> ns_heap) option" where
  "proc_projid_map_write env lsm nss req ns =
    (let seq_ns = cred_user_ns (req_cred req)
     in case ns_parent (nss ! ns) of
          None \<Rightarrow> Some (Inl EPERM, nss)
        | Some p \<Rightarrow>
            if seq_ns \<noteq> ns \<and> seq_ns \<noteq> p then Some (Inl EPERM, nss)
            else map_option (\<lambda>(r, mp). (r, nss[ns := (nss ! ns)\<lparr>projid_map := mp\<rparr>]))
                   (map_write env lsm nss req ns (- 1) (projid_map (nss ! ns)) (projid_map (nss ! p))))"

text \<open>Reading a map: the extent at a position, and the three numbers its line shows.\<close>

definition m_start :: "u64 \<Rightarrow> uid_gid_map \<Rightarrow> uid_gid_extent option" where
  "m_start pos mp =
    (let extents = nr_extents mp
     in if pos \<ge> ucast extents then None
        else if extents \<le> UID_GID_MAP_MAX_BASE_EXTENTS then Some (extent mp ! unat pos)
        else Some (forward mp ! unat pos))"

definition lower_ns_of :: "ns_heap \<Rightarrow> nat \<Rightarrow> nat \<Rightarrow> nat" where
  "lower_ns_of nss seq_ns ns =
    (case ns_parent (nss ! seq_ns) of Some p \<Rightarrow> if seq_ns = ns then p else seq_ns | None \<Rightarrow> seq_ns)"

definition uid_m_show :: "ns_heap \<Rightarrow> nat \<Rightarrow> nat \<Rightarrow> uid_gid_extent \<Rightarrow> u32 \<times> u32 \<times> u32" where
  "uid_m_show nss seq_ns ns e = (ext_first e, from_kuid (nss ! lower_ns_of nss seq_ns ns) (ext_lower_first e), ext_count e)"

definition gid_m_show :: "ns_heap \<Rightarrow> nat \<Rightarrow> nat \<Rightarrow> uid_gid_extent \<Rightarrow> u32 \<times> u32 \<times> u32" where
  "gid_m_show nss seq_ns ns e = (ext_first e, from_kgid (nss ! lower_ns_of nss seq_ns ns) (ext_lower_first e), ext_count e)"

definition projid_m_show :: "ns_heap \<Rightarrow> nat \<Rightarrow> nat \<Rightarrow> uid_gid_extent \<Rightarrow> u32 \<times> u32 \<times> u32" where
  "projid_m_show nss seq_ns ns e = (ext_first e, from_kprojid (nss ! lower_ns_of nss seq_ns ns) (ext_lower_first e), ext_count e)"

section \<open>Supplementary groups\<close>

fun strncmp :: "cstr \<Rightarrow> cstr \<Rightarrow> nat \<Rightarrow> int" where
  "strncmp cs ct 0 = 0"
| "strncmp cs ct (Suc n) =
    (let c1 = chr_at cs 0; c2 = chr_at ct 0
     in if c1 \<noteq> c2 then (if c1 < c2 then - 1 else 1) else if c1 = 0 then 0 else strncmp (drop 1 cs) (drop 1 ct) n)"

abbreviation (input) allow_str :: cstr where "allow_str \<equiv> [97, 108, 108, 111, 119]"
abbreviation (input) deny_str :: cstr where "deny_str \<equiv> [100, 101, 110, 121]"

text \<open>The text written, or nothing when it cannot be copied from user space.\<close>

definition proc_setgroups_write :: "ns_heap \<Rightarrow> nat \<Rightarrow> u64 \<Rightarrow> u64 \<Rightarrow> cstr option \<Rightarrow> (errno + u64) \<times> ns_heap" where
  "proc_setgroups_write nss ns ppos cnt buf =
    (if ppos \<noteq> 0 \<or> cnt \<ge> 8 then (Inl EINVAL, nss)
     else case buf of
       None \<Rightarrow> (Inl EFAULT, nss)
     | Some kbuf \<Rightarrow>
         let request = (if strncmp kbuf allow_str 5 = 0 then Some (True, drop 5 kbuf)
                        else if strncmp kbuf deny_str 4 = 0 then Some (False, drop 4 kbuf) else None)
         in case request of
           None \<Rightarrow> (Inl EINVAL, nss)
         | Some (setgroups_allowed, pos) \<Rightarrow>
             if chr_at (skip_spaces pos) 0 \<noteq> 0 then (Inl EINVAL, nss)
             else if setgroups_allowed then
               (if flags (nss ! ns) AND USERNS_SETGROUPS_ALLOWED = 0 then (Inl EPERM, nss) else (Inr cnt, nss))
             else if nr_extents (gid_map (nss ! ns)) \<noteq> 0 then (Inl EPERM, nss)
             else (Inr cnt, nss[ns := (nss ! ns)\<lparr>flags := flags (nss ! ns) AND NOT USERNS_SETGROUPS_ALLOWED\<rparr>]))"

definition userns_may_setgroups :: "user_namespace \<Rightarrow> bool" where
  "userns_may_setgroups ns \<longleftrightarrow> nr_extents (gid_map ns) \<noteq> 0 \<and> flags ns AND USERNS_SETGROUPS_ALLOWED \<noteq> 0"

definition may_setgroups :: "lsm_hook \<Rightarrow> ns_heap \<Rightarrow> cred \<Rightarrow> bool option" where
  "may_setgroups lsm nss current_cred =
    (let user_ns = cred_user_ns current_cred
     in map_option (\<lambda>c. c \<and> userns_may_setgroups (nss ! user_ns)) (ns_capable lsm nss current_cred user_ns CAP_SETGID))"

section \<open>Ancestors\<close>

partial_function (option) in_userns :: "ns_heap \<Rightarrow> nat \<Rightarrow> nat \<Rightarrow> bool option" where
  "in_userns nss ancestor ns =
    (if level (nss ! ns) > level (nss ! ancestor)
     then case ns_parent (nss ! ns) of None \<Rightarrow> None | Some p \<Rightarrow> in_userns nss ancestor p
     else Some (ns = ancestor))"

declare in_userns.simps [code]

definition current_in_userns :: "ns_heap \<Rightarrow> cred \<Rightarrow> nat \<Rightarrow> bool option" where
  "current_in_userns nss current_cred target_ns = in_userns nss target_ns (cred_user_ns current_cred)"

definition proc_setgroups_show :: "user_namespace \<Rightarrow> cstr" where
  "proc_setgroups_show ns = (if flags ns AND USERNS_SETGROUPS_ALLOWED \<noteq> 0 then allow_str else deny_str) @ [10]"

text \<open>The owner of a user namespace is its parent; it is shown only to a task that lives there or above.\<close>

partial_function (option) owner_loop :: "ns_heap \<Rightarrow> nat \<Rightarrow> nat option \<Rightarrow> bool option" where
  "owner_loop nss my_user_ns p =
    (case p of None \<Rightarrow> Some False | Some q \<Rightarrow> if q = my_user_ns then Some True else owner_loop nss my_user_ns (ns_parent (nss ! q)))"

declare owner_loop.simps [code]

definition ns_get_owner :: "ns_heap \<Rightarrow> cred \<Rightarrow> nat \<Rightarrow> (errno + nat) option" where
  "ns_get_owner nss current_cred ns =
    (let owner = ns_parent (nss ! ns)
     in map_option (\<lambda>found. if found then Inr (the owner) else Inl EPERM) (owner_loop nss (cred_user_ns current_cred) owner))"

text \<open>A task that moves to a new namespace, and one that enters another.\<close>

definition unshare_userns :: "create_env \<Rightarrow> ns_heap \<Rightarrow> bool \<Rightarrow> cred option \<Rightarrow> errno + (ns_heap \<times> cred option)" where
  "unshare_userns env nss clone_newuser prepared =
    (if \<not> clone_newuser then Inr (nss, None)
     else case prepared of
       None \<Rightarrow> Inl ENOMEM
     | Some cr \<Rightarrow> (case create_user_ns env nss cr of Inl err \<Rightarrow> Inl err | Inr (nss', new) \<Rightarrow> Inr (nss', Some new)))"

definition userns_install ::
  "lsm_hook \<Rightarrow> ns_heap \<Rightarrow> cred \<Rightarrow> bool \<Rightarrow> bool \<Rightarrow> cred option \<Rightarrow> nat \<Rightarrow> (errno + cred) option" where
  "userns_install lsm nss current_cred alone fs_unshared nsset_cred user_ns =
    (if user_ns = cred_user_ns current_cred then Some (Inl EINVAL)
     else if \<not> alone then Some (Inl EINVAL)
     else if \<not> fs_unshared then Some (Inl EINVAL)
     else do {
       c \<leftarrow> ns_capable lsm nss current_cred user_ns CAP_SYS_ADMIN;
       if \<not> c then Some (Inl EPERM)
       else case nsset_cred of None \<Rightarrow> Some (Inl EINVAL) | Some cr \<Rightarrow> Some (Inr (set_cred_user_ns cr user_ns))
     })"

text \<open>
  A history of the namespaces: \<^verbatim>\<open>kmalloc_array\<close> gives arrays of 340 extents; namespaces and credentials handed in
  exist, and so does the memory of the text.
\<close>

definition env_ok :: "idmap_env \<Rightarrow> bool" where
  "env_ok env \<longleftrightarrow> (case kmalloc_forward env of None \<Rightarrow> True | Some arr \<Rightarrow> length arr = 340)"

inductive userns_step :: "ns_heap \<Rightarrow> ns_heap \<Rightarrow> bool" where
  create: "create_user_ns cenv nss new = Inr (nss', new') \<Longrightarrow> cred_user_ns new < length nss \<Longrightarrow> userns_step nss nss'"
| uid_map_write: "proc_uid_map_write env lsm nss req ns = Some (r, nss') \<Longrightarrow> env_ok env \<Longrightarrow> ns < length nss \<Longrightarrow> userns_step nss nss'"
| gid_map_write: "proc_gid_map_write env lsm nss req ns = Some (r, nss') \<Longrightarrow> env_ok env \<Longrightarrow> ns < length nss \<Longrightarrow> userns_step nss nss'"
| projid_map_write: "proc_projid_map_write env lsm nss req ns = Some (r, nss') \<Longrightarrow> env_ok env \<Longrightarrow> ns < length nss \<Longrightarrow> userns_step nss nss'"
| setgroups_write: "proc_setgroups_write nss ns ppos cnt buf = (r, nss') \<Longrightarrow> ns < length nss \<Longrightarrow> userns_step nss nss'"

inductive userns_steps :: "ns_heap \<Rightarrow> ns_heap \<Rightarrow> bool" where
  start: "userns_steps nss nss"
| more: "userns_steps nss nss' \<Longrightarrow> userns_step nss' nss'' \<Longrightarrow> userns_steps nss nss''"

end
