(* ===== verification/Userns_Write.thy ===== *)
theory Userns_Write
  imports Userns
begin

text \<open>
  What a write to a map does: the parser builds a map without overlaps, the lower ids go through the map of the
  parent, and the result is sorted and installed. A write that fails leaves the map as empty as it was.
\<close>

unbundle bit_operations_syntax

section \<open>Building a well-formed map\<close>

text \<open>A map under construction is not sorted yet.\<close>

definition build_ok :: "uid_gid_map \<Rightarrow> bool" where
  "build_ok mp \<longleftrightarrow> unat (nr_extents mp) \<le> 340 \<and> length (extent mp) = 5 \<and> extents_ok (extents_of mp) \<and>
    (nr_extents mp > 5 \<longrightarrow> length (forward mp) = 340)"

lemma build_ok_length: "build_ok mp \<Longrightarrow> length (extents_of mp) = unat (nr_extents mp)"
  by (auto simp: build_ok_def extents_of_def word_le_nat_alt word_less_nat_alt)

lemma build_ok_empty: "build_ok empty_map"
  by (simp add: build_ok_def empty_map_def extents_of_def extents_ok_def)

lemma overlap_word:
  assumes "extent_ok e" "extent_ok e'"
  shows "ext_first e' \<le> ext_first e + ext_count e - 1 \<and> ext_first e' + ext_count e' - 1 \<ge> ext_first e \<longleftrightarrow> upper e \<inter> upper e' \<noteq> {}"
    and "ext_lower_first e' \<le> ext_lower_first e + ext_count e - 1 \<and> ext_lower_first e' + ext_count e' - 1 \<ge> ext_lower_first e \<longleftrightarrow>
      lower e \<inter> lower e' \<noteq> {}"
proof -
  have iv: "{a ..< a + c} \<inter> {b ..< b + d} \<noteq> {} \<longleftrightarrow> b \<le> a + c - 1 \<and> a \<le> b + d - 1" if "0 < c" "0 < d" for a b c d :: nat
    using that by (simp only: Int_atLeastLessThan atLeastLessThan_empty_iff) linarith
  show "ext_first e' \<le> ext_first e + ext_count e - 1 \<and> ext_first e' + ext_count e' - 1 \<ge> ext_first e \<longleftrightarrow> upper e \<inter> upper e' \<noteq> {}"
    unfolding word_le_nat_alt last_of(1) [OF assms(1)] last_of(1) [OF assms(2)] upper_def
    using iv [OF count_pos [OF assms(1)] count_pos [OF assms(2)]] by simp
  show "ext_lower_first e' \<le> ext_lower_first e + ext_count e - 1 \<and> ext_lower_first e' + ext_count e' - 1 \<ge> ext_lower_first e \<longleftrightarrow>
      lower e \<inter> lower e' \<noteq> {}"
    unfolding word_le_nat_alt last_of(2) [OF assms(1)] last_of(2) [OF assms(2)] lower_def
    using iv [OF count_pos [OF assms(1)] count_pos [OF assms(2)]] by simp
qed

lemma mappings_overlap_iff:
  assumes "build_ok mp" "extent_ok e"
  shows "mappings_overlap mp e \<longleftrightarrow> (\<exists>e' \<in> set (extents_of mp). upper e \<inter> upper e' \<noteq> {} \<or> lower e \<inter> lower e' \<noteq> {})"
proof -
  have "extent_ok e'" if "e' \<in> set (extents_of mp)" for e' using that assms(1) by (auto simp: build_ok_def extents_ok_def)
  then show ?thesis unfolding mappings_overlap_def Let_def list_ex_iff using overlap_word [OF assms(2)] by (intro bex_cong) blast+
qed

lemma extents_ok_snoc:
  assumes "extents_ok es" "extent_ok e" "\<forall>e' \<in> set es. upper e \<inter> upper e' = {} \<and> lower e \<inter> lower e' = {}"
  shows "extents_ok (es @ [e])"
proof -
  have "upper e \<noteq> {}" using count_pos [OF assms(2)] by (simp add: upper_def)
  then have "e \<notin> set es" using assms(3) by auto
  then show ?thesis using assms unfolding extents_ok_def by (auto simp: Int_commute)
qed

lemma insert_extent_appends:
  assumes env: "env_ok env" and ok: "build_ok mp" and n: "unat (nr_extents mp) < 340" and r: "insert_extent env mp e = Inr mp'"
  shows "extents_of mp' = extents_of mp @ [e] \<and> unat (nr_extents mp') = unat (nr_extents mp) + 1 \<and> length (extent mp') = 5 \<and>
    (nr_extents mp' > 5 \<longrightarrow> length (forward mp') = 340)"
proof -
  have suc: "unat (nr_extents mp + 1) = unat (nr_extents mp) + 1" using n by (simp add: unat_plus_if')
  consider (small) "unat (nr_extents mp) < 5" | (five) "unat (nr_extents mp) = 5" | (large) "unat (nr_extents mp) > 5" by linarith
  then show ?thesis
  proof cases
    case small
    then have "nr_extents mp < 5" "nr_extents mp \<noteq> 5" "nr_extents mp + 1 \<le> 5" "\<not> 5 < nr_extents mp + 1" using suc by (auto simp: word_less_nat_alt word_le_nat_alt)
    then show ?thesis using r ok small suc
      by (auto simp: insert_extent_def build_ok_def extents_of_def Let_def take_Suc_conv_app_nth)
  next
    case five
    then have n5: "nr_extents mp = 5" by (simp add: word_unat_eq_iff)
    obtain arr where a: "kmalloc_forward env = Some arr" using r n5 by (cases "kmalloc_forward env") (simp_all add: insert_extent_def)
    have l: "length arr = 340" using env a by (simp add: env_ok_def)
    show ?thesis using r ok l
      by (auto simp: insert_extent_def n5 a build_ok_def extents_of_def Let_def take_Suc_conv_app_nth list_update_append)
  next
    case large
    then have "\<not> nr_extents mp < 5" "nr_extents mp \<noteq> 5" "\<not> nr_extents mp \<le> 5" "\<not> nr_extents mp + 1 \<le> 5" "nr_extents mp > 5"
      using suc by (auto simp: word_less_nat_alt word_le_nat_alt)
    then show ?thesis using r ok n suc
      by (auto simp: insert_extent_def build_ok_def extents_of_def Let_def take_Suc_conv_app_nth)
  qed
qed

lemma parse_extent_ok:
  assumes "parse_extent line = Some e" shows "extent_ok e"
proof -
  have "ext_first e < ext_first e + ext_count e" "ext_lower_first e < ext_lower_first e + ext_count e"
    using assms by (auto simp: parse_extent_def Let_def not_le split: prod.splits if_splits)
  then show ?thesis using unsigned_less [of "ext_count e", where 'a = nat]
    unfolding extent_ok_def by (auto simp: word_less_nat_alt unat_plus_if' split: if_splits)
qed

lemma parse_lines_ok:
  "env_ok env \<Longrightarrow> build_ok mp \<Longrightarrow> unat (nr_extents mp) < 340 \<Longrightarrow> parse_lines env mp pos = (None, mp') \<Longrightarrow> build_ok mp'"
proof (induction env mp pos arbitrary: mp' rule: parse_lines.induct)
  case (1 env mp pos)
  define nl where "nl = strchr pos 10"
  define line where "line = (case nl of None \<Rightarrow> pos | Some i \<Rightarrow> take i pos)"
  define nx where "nx = (case nl of None \<Rightarrow> None | Some i \<Rightarrow> if chr_at pos (i + 1) = 0 then None else Some (drop (i + 1) pos))"
  note step = "1.prems"(4) [unfolded parse_lines.simps [of env mp pos] Let_def, folded nl_def, folded line_def nx_def]
  obtain e where e: "parse_extent line = Some e" using step by (cases "parse_extent line") simp_all
  have o: "\<not> mappings_overlap mp e" using step by (auto simp: e split: if_splits)
  have c: "\<not> (nr_extents mp + 1 = 340 \<and> nx \<noteq> None)" using step by (auto simp: e o split: if_splits)
  obtain new where i: "insert_extent env mp e = Inr new" using step c by (cases "insert_extent env mp e") (auto simp: e o split: if_splits)
  note app = insert_extent_appends [OF "1.prems"(1-3) i]
  have d: "\<forall>e' \<in> set (extents_of mp). upper e \<inter> upper e' = {} \<and> lower e \<inter> lower e' = {}"
    using o mappings_overlap_iff [OF "1.prems"(2) parse_extent_ok [OF e]] by auto
  have new: "build_ok new"
    using app extents_ok_snoc [OF _ parse_extent_ok [OF e] d] "1.prems"(2,3) by (auto simp: build_ok_def)
  show ?case
  proof (cases nx)
    case None
    then show ?thesis using step c new by (simp add: e o i)
  next
    case (Some rest)
    have r: "parse_lines env new rest = (None, mp')" using step c by (simp add: e o i Some)
    have "nr_extents mp + 1 \<noteq> 340" using c Some by simp
    then have "unat (nr_extents mp) + 1 \<noteq> 340" using unat_plus_if' [of "nr_extents mp" 1] "1.prems"(3) by (auto simp: word_unat_eq_iff)
    then show ?thesis
      using "1.IH" [OF nl_def line_def nx_def e o c i Some "1.prems"(1) new _ r] app "1.prems"(3) by simp
  qed
qed

section \<open>Mapping the lower ids through the parent\<close>

definition through :: "uid_gid_map \<Rightarrow> uid_gid_extent \<Rightarrow> uid_gid_extent" where
  "through parent_map e = e\<lparr>ext_lower_first := map_id_range_down parent_map (ext_lower_first e) (ext_count e)\<rparr>"

lemma map_lower_ids_through:
  "map_lower_ids parent_map es = Some es' \<Longrightarrow>
    es' = map (through parent_map) es \<and> (\<forall>e \<in> set es. map_id_range_down parent_map (ext_lower_first e) (ext_count e) \<noteq> - 1)"
  by (induction es arbitrary: es') (auto simp: Let_def through_def split: if_splits)

lemma through_lower:
  assumes ok: "map_ok parent_map" and e: "extent_ok e" and m: "map_id_range_down parent_map (ext_lower_first e) (ext_count e) \<noteq> - 1"
  obtains pe where "pe \<in> set (extents_of parent_map)" "lower e \<subseteq> upper pe"
    "unat (ext_lower_first (through parent_map e)) = unat (ext_lower_first e) - unat (ext_first pe) + unat (ext_lower_first pe)"
    "lower (through parent_map e) \<subseteq> lower pe" "extent_ok (through parent_map e)"
proof -
  let ?l = "ext_lower_first e" and ?c = "ext_count e"
  obtain pe where f: "find (\<lambda>pe. unat ?l \<in> upper pe \<and> unat (?l + ?c - 1) \<in> upper pe) (extents_of parent_map) = Some pe"
    using m by (auto simp: map_id_range_down_find [OF ok] split: option.splits)
  have pe: "pe \<in> set (extents_of parent_map)" "unat ?l \<in> upper pe" "unat (?l + ?c - 1) \<in> upper pe" using find_in [OF f] by auto
  have pok: "extent_ok pe" by (rule map_ok_extents [OF ok pe(1)])
  have l: "ext_lower_first (through parent_map e) = ?l - ext_first pe + ext_lower_first pe"
    by (simp add: through_def map_id_range_down_find [OF ok] f)
  note u = up_down_word(1) [OF pok pe(2)]
  have ends: "unat (ext_first pe) \<le> unat ?l" "unat ?l + unat ?c \<le> unat (ext_first pe) + unat (ext_count pe)"
    using pe(2,3) last_of(2) [OF e] count_pos [OF e] by (auto simp: upper_def)
  show ?thesis
  proof (rule that [OF pe(1)])
    show "lower e \<subseteq> upper pe" using ends by (auto simp: lower_def upper_def)
    show "unat (ext_lower_first (through parent_map e)) = unat ?l - unat (ext_first pe) + unat (ext_lower_first pe)"
      unfolding l by (rule u)
    show "lower (through parent_map e) \<subseteq> lower pe" using ends u unfolding lower_def l by (auto simp: through_def)
    show "extent_ok (through parent_map e)" using ends u pok e unfolding extent_ok_def l by (auto simp: through_def)
  qed
qed

lemma upper_through [simp]: "upper (through parent_map e) = upper e"
  by (simp add: upper_def through_def)

lemma through_disjoint:
  assumes ok: "map_ok parent_map" and e: "extent_ok e" "extent_ok e'" and d: "lower e \<inter> lower e' = {}"
    and m: "map_id_range_down parent_map (ext_lower_first e) (ext_count e) \<noteq> - 1"
      "map_id_range_down parent_map (ext_lower_first e') (ext_count e') \<noteq> - 1"
  shows "lower (through parent_map e) \<inter> lower (through parent_map e') = {}"
proof -
  obtain p where p: "p \<in> set (extents_of parent_map)" "lower e \<subseteq> upper p"
    "unat (ext_lower_first (through parent_map e)) = unat (ext_lower_first e) - unat (ext_first p) + unat (ext_lower_first p)"
    "lower (through parent_map e) \<subseteq> lower p" by (rule through_lower [OF ok e(1) m(1)])
  obtain q where q: "q \<in> set (extents_of parent_map)" "lower e' \<subseteq> upper q"
    "unat (ext_lower_first (through parent_map e')) = unat (ext_lower_first e') - unat (ext_first q) + unat (ext_lower_first q)"
    "lower (through parent_map e') \<subseteq> lower q" by (rule through_lower [OF ok e(2) m(2)])
  show ?thesis
  proof (cases "p = q")
    case True
    have "unat (ext_first p) \<le> unat (ext_lower_first e)" "unat (ext_first p) \<le> unat (ext_lower_first e')"
      using p(2) q(2) True count_pos [OF e(1)] count_pos [OF e(2)] by (auto simp: lower_def upper_def subset_eq)
    then show ?thesis using d p(3) q(3) True by (auto simp: lower_def through_def)
  next
    case False
    then show ?thesis using ok p(1,4) q(1,4) unfolding map_ok_def extents_ok_def by blast
  qed
qed

lemma extents_ok_through:
  assumes ok: "map_ok parent_map" and es: "extents_ok es"
    and m: "\<forall>e \<in> set es. map_id_range_down parent_map (ext_lower_first e) (ext_count e) \<noteq> - 1"
  shows "extents_ok (map (through parent_map) es)"
proof -
  have e: "extent_ok e" if "e \<in> set es" for e using es that by (auto simp: extents_ok_def)
  have eq: "e = e'" if "e \<in> set es" "e' \<in> set es" "through parent_map e = through parent_map e'" for e e'
  proof (rule ccontr)
    assume "e \<noteq> e'"
    then have "upper e \<inter> upper e' = {}" using es that by (auto simp: extents_ok_def)
    moreover have "upper e = upper e'" using upper_through [of parent_map e] upper_through [of parent_map e'] that(3) by simp
    moreover have "upper e \<noteq> {}" using count_pos [OF e [OF that(1)]] by (simp add: upper_def)
    ultimately show False by simp
  qed
  have "distinct (map (through parent_map) es)" using es eq by (auto simp: extents_ok_def distinct_map inj_on_def)
  moreover have "extent_ok (through parent_map e)" if "e \<in> set es" for e
    using through_lower [OF ok e [OF that]] m that by blast
  moreover have "upper e \<inter> upper e' = {} \<and> lower (through parent_map e) \<inter> lower (through parent_map e') = {}"
    if "e \<in> set es" "e' \<in> set es" "through parent_map e \<noteq> through parent_map e'" for e e'
  proof -
    have "upper e \<inter> upper e' = {} \<and> lower e \<inter> lower e' = {}" using es that unfolding extents_ok_def by metis
    then show ?thesis using through_disjoint [OF ok e [OF that(1)] e [OF that(2)]] m that by simp
  qed
  ultimately show ?thesis unfolding extents_ok_def set_map by simp
qed

lemma through_down:
  assumes ok: "map_ok parent_map" and e: "extent_ok e" and i: "unat i \<in> upper e"
    and m: "map_id_range_down parent_map (ext_lower_first e) (ext_count e) \<noteq> - 1"
  shows "i - ext_first e + ext_lower_first (through parent_map e) = map_id_down parent_map (i - ext_first e + ext_lower_first e)"
proof -
  obtain pe where pe: "pe \<in> set (extents_of parent_map)" "lower e \<subseteq> upper pe"
    "unat (ext_lower_first (through parent_map e)) = unat (ext_lower_first e) - unat (ext_first pe) + unat (ext_lower_first pe)"
    by (rule through_lower [OF ok e m])
  have pok: "extent_ok pe" by (rule map_ok_extents [OF ok pe(1)])
  have l: "unat (ext_lower_first e) \<in> upper pe" using pe(2) count_pos [OF e] by (auto simp: lower_def)
  have t: "ext_lower_first (through parent_map e) = ext_lower_first e - ext_first pe + ext_lower_first pe"
    using pe(3) up_down_word(1) [OF pok l] by (simp add: word_unat_eq_iff)
  have u: "unat (i - ext_first e + ext_lower_first e) \<in> upper pe" using up_down_word(2) [OF e i] pe(2) by auto
  show ?thesis
    using upper_find [OF map_ok_extents_ok [OF ok] pe(1) u] t by (simp add: map_id_down_find [OF ok] algebra_simps)
qed

section \<open>Writing a map\<close>

lemma set_extents_of:
  assumes ok: "build_ok mp" and l: "length es = unat (nr_extents mp)" and es: "extents_ok es"
  shows "extents_of (set_extents mp es) = es \<and> build_ok (set_extents mp es) \<and> nr_extents (set_extents mp es) = nr_extents mp"
  using ok l es unfolding set_extents_def build_ok_def extents_of_def
  by (auto simp: word_le_nat_alt word_less_nat_alt)

lemma sort_idmaps_ok:
  assumes ok: "build_ok mp"
  obtains r mp' where "sort_idmaps env mp = Some (r, mp')"
    "r = None \<Longrightarrow> map_ok mp' \<and> mset (extents_of mp') = mset (extents_of mp) \<and> nr_extents mp' = nr_extents mp"
proof (cases "nr_extents mp \<le> 5")
  case True
  then have "map_ok mp" using ok by (auto simp: build_ok_def map_ok_def)
  then show ?thesis using that [of None mp] True by (simp add: sort_idmaps_def)
next
  case False
  let ?n = "nr_extents mp"
  have l: "unat ?n \<le> length (forward mp)" "length (forward mp) \<le> 340" using ok False by (auto simp: build_ok_def)
  obtain fwd where f: "sort_extents cmp_extents_forward (unaligned_ok env) (forward_addr env) (forward mp) ?n = Some fwd"
    "ordered cmp_extents_forward (take (unat ?n) fwd)" "length fwd = length (forward mp)" "mset (take (unat ?n) fwd) = mset (take (unat ?n) (forward mp))"
    using sort_extents_sorts [OF forward_order.comparison_axioms l] by metis
  have l': "unat ?n \<le> length (take (unat ?n) fwd)" "length (take (unat ?n) fwd) \<le> 340" using l f(3) by auto
  obtain rv where r: "sort_extents cmp_extents_reverse (unaligned_ok env) (reverse_addr env) (take (unat ?n) fwd) ?n = Some rv"
    "ordered cmp_extents_reverse (take (unat ?n) rv)" "length rv = length (take (unat ?n) fwd)"
    "mset (take (unat ?n) rv) = mset (take (unat ?n) (take (unat ?n) fwd))"
    using sort_extents_sorts [OF reverse_order.comparison_axioms l'] by metis
  have ex: "extents_of (mp\<lparr>forward := fwd, reverse := rv\<rparr>) = take (unat ?n) fwd" "extents_of mp = take (unat ?n) (forward mp)"
    using False by (simp_all add: extents_of_def)
  show ?thesis
  proof (cases "kmemdup_ok env")
    case True
    have "map_ok (mp\<lparr>forward := fwd, reverse := rv\<rparr>)"
      using ok False l f(2,3) r(2-4) extents_ok_mset [OF f(4)]
      unfolding map_ok_def build_ok_def ex ordered_forward ordered_reverse by simp
    then show ?thesis using that [of None "mp\<lparr>forward := fwd, reverse := rv\<rparr>"] True False f(1,4) r(1) ex
      by (simp add: sort_idmaps_def)
  next
    case no: False
    show ?thesis using that [of "Some ENOMEM" "mp\<lparr>forward := fwd, reverse := []\<rparr>"] no False f(1) by (simp add: sort_idmaps_def)
  qed
qed

lemma install_map_ok:
  assumes "map_ok new_map" "length (extent mp) = 5"
  shows "map_ok (install_map mp new_map) \<and> extents_of (install_map mp new_map) = extents_of new_map"
proof -
  have ex: "extents_of (install_map mp new_map) = extents_of new_map"
    using assms by (auto simp: install_map_def extents_of_def Let_def word_le_nat_alt map_ok_def)
  have "length (extent (install_map mp new_map)) = 5"
    using assms by (auto simp: install_map_def extents_of_def Let_def word_le_nat_alt map_ok_def)
  moreover have "nr_extents (install_map mp new_map) = nr_extents new_map" by (simp add: install_map_def Let_def)
  moreover have "nr_extents new_map > 5 \<Longrightarrow> forward (install_map mp new_map) = forward new_map \<and> reverse (install_map mp new_map) = reverse new_map"
    by (auto simp: install_map_def Let_def)
  ultimately show ?thesis using assms(1) ex unfolding map_ok_def by simp
qed

text \<open>The ids of the parent namespace that a text asks for, and what the new map then is.\<close>

definition requested :: "uid_gid_extent list \<Rightarrow> u32 \<Rightarrow> u32 option" where
  "requested es i = map_option (\<lambda>e. i - ext_first e + ext_lower_first e) (find (\<lambda>e. unat i \<in> upper e) es)"

lemma map_write_success:
  assumes env: "env_ok env" and mp: "length (extent mp) = 5" and parent: "map_ok parent_map"
    and w: "map_write env lsm nss req ns cap mp parent_map = Some (Inr n, mp')"
  obtains kbuf new_map where "nr_extents mp = 0" "req_kbuf req = Inr kbuf" "parse_lines env empty_map kbuf = (None, new_map)"
    "build_ok new_map" "nr_extents new_map \<noteq> 0"
    "new_idmap_permitted lsm nss (req_current req) (req_cred req) ns cap new_map = Some True"
    "\<forall>e \<in> set (extents_of new_map). map_id_range_down parent_map (ext_lower_first e) (ext_count e) \<noteq> - 1"
    "mset (extents_of mp') = mset (map (through parent_map) (extents_of new_map))" "map_ok mp'" "nr_extents mp' = nr_extents new_map"
proof -
  obtain kbuf where k: "req_kbuf req = Inr kbuf" using w by (cases "req_kbuf req") (simp_all add: map_write_def split: if_splits)
  have nr: "nr_extents mp = 0" using w k by (simp add: map_write_def map_write_fail_def split: if_splits)
  obtain new_map where p: "parse_lines env empty_map kbuf = (None, new_map)"
    using w by (auto simp: map_write_def map_write_fail_def k nr split: if_splits option.splits prod.splits Option.bind_splits)
  have b: "build_ok new_map" using parse_lines_ok [OF env build_ok_empty _ p] by (simp add: empty_map_def)
  have nz: "nr_extents new_map \<noteq> 0" and ok: "new_idmap_permitted lsm nss (req_current req) (req_cred req) ns cap new_map = Some True"
    using w by (auto simp: map_write_def map_write_fail_def k nr p split: if_splits option.splits prod.splits Option.bind_splits)
  obtain es where es: "map_lower_ids parent_map (extents_of new_map) = Some es"
    using w by (auto simp: map_write_def map_write_fail_def k nr p nz ok split: if_splits option.splits prod.splits Option.bind_splits)
  note t = map_lower_ids_through [OF es]
  have eok: "extents_ok es" using extents_ok_through [OF parent] t b by (simp add: build_ok_def)
  note s = set_extents_of [OF b _ eok, unfolded conjunct1 [OF t] length_map build_ok_length [OF b], OF refl, folded conjunct1 [OF t]]
  obtain r mp1 where so: "sort_idmaps env (set_extents new_map es) = Some (r, mp1)"
    "r = None \<Longrightarrow> map_ok mp1 \<and> mset (extents_of mp1) = mset (extents_of (set_extents new_map es)) \<and> nr_extents mp1 = nr_extents (set_extents new_map es)"
    using sort_idmaps_ok conjunct1 [OF conjunct2 [OF s]] by metis
  have r: "r = None" "mp' = install_map mp mp1"
    using w by (auto simp: map_write_def map_write_fail_def k nr p nz ok es so(1) split: if_splits option.splits prod.splits Option.bind_splits)
  note m = so(2) [OF r(1)]
  note inst = install_map_ok [OF conjunct1 [OF m] mp, folded r(2)]
  show ?thesis
    by (rule that [OF nr k p b nz ok conjunct2 [OF t]])
      (use m inst s t r(2) in \<open>auto simp: install_map_def Let_def\<close>)
qed

lemma map_write_error:
  assumes "map_write env lsm nss req ns cap mp parent_map = Some (Inl err, mp')"
  shows "mp' = mp \<or> nr_extents mp = 0 \<and> mp' = mp\<lparr>forward := [], reverse := [], nr_extents := 0\<rparr>"
  using assms
  by (auto simp: map_write_def map_write_fail_def empty_map_def split: if_splits option.splits prod.splits Option.bind_splits sum.splits)

definition kernel_ids :: "uid_gid_map \<Rightarrow> nat set" where
  "kernel_ids mp = (\<Union>e \<in> set (extents_of mp). lower e)"

lemma kernel_ids_empty: "nr_extents mp = 0 \<Longrightarrow> kernel_ids mp = {}"
  by (simp add: kernel_ids_def extents_of_def)

lemma map_id_up_kernel_ids: "map_ok mp \<Longrightarrow> map_id_up mp k \<noteq> - 1 \<longleftrightarrow> unat k \<in> kernel_ids mp"
  unfolding kernel_ids_def by (auto elim: map_id_upE dest: map_id_up_in(2))

lemma map_id_down_kernel_ids: "map_ok mp \<Longrightarrow> map_id_down mp i \<noteq> - 1 \<Longrightarrow> unat (map_id_down mp i) \<in> kernel_ids mp"
  unfolding kernel_ids_def by (auto elim: map_id_downE)

lemma empty_map_unmapped: "map_ok mp \<Longrightarrow> map_id_up mp k \<noteq> - 1 \<Longrightarrow> nr_extents mp \<noteq> 0"
  using map_id_up_kernel_ids [of mp k] kernel_ids_empty [of mp] by auto

lemma map_write_keeps:
  assumes env: "env_ok env" and ok: "map_ok mp" "map_ok parent_map" and sub: "kernel_ids mp \<subseteq> kernel_ids parent_map"
    and w: "map_write env lsm nss req ns cap mp parent_map = Some (r, mp')"
  shows "map_ok mp' \<and> kernel_ids mp \<subseteq> kernel_ids mp' \<and> kernel_ids mp' \<subseteq> kernel_ids parent_map \<and>
    (nr_extents mp \<noteq> 0 \<longrightarrow> mp' = mp)"
proof (cases r)
  case (Inl err)
  have c: "mp' = mp \<or> nr_extents mp = 0 \<and> mp' = mp\<lparr>forward := [], reverse := [], nr_extents := 0\<rparr>"
    by (rule map_write_error) (use w Inl in simp)
  show ?thesis
  proof (cases "nr_extents mp = 0")
    case True
    then have "map_ok (mp\<lparr>forward := [], reverse := [], nr_extents := 0\<rparr>)"
      using ok(1) by (simp add: map_ok_def extents_of_def)
    then show ?thesis using c True ok(1) sub kernel_ids_empty [of mp] kernel_ids_empty [of mp'] by auto
  next
    case False
    then show ?thesis using c ok(1) sub by simp
  qed
next
  case (Inr n)
  have len: "length (extent mp) = 5" using ok(1) by (simp add: map_ok_def)
  obtain new_map where m: "nr_extents mp = 0" "build_ok new_map"
    "\<forall>e \<in> set (extents_of new_map). map_id_range_down parent_map (ext_lower_first e) (ext_count e) \<noteq> - 1"
    "mset (extents_of mp') = mset (map (through parent_map) (extents_of new_map))" "map_ok mp'"
    using map_write_success [OF env len ok(2) w [unfolded Inr]] by metis
  have "kernel_ids mp' \<subseteq> kernel_ids parent_map"
  proof
    fix k assume "k \<in> kernel_ids mp'"
    then obtain e where e: "e \<in> set (extents_of new_map)" "k \<in> lower (through parent_map e)"
      using mset_eq_setD [OF m(4)] by (auto simp: kernel_ids_def)
    have "extent_ok e" using m(2) e(1) by (auto simp: build_ok_def extents_ok_def)
    then obtain pe where "pe \<in> set (extents_of parent_map)" "lower (through parent_map e) \<subseteq> lower pe"
      using through_lower [OF ok(2)] m(3) e(1) by metis
    then show "k \<in> kernel_ids parent_map" using e(2) by (auto simp: kernel_ids_def)
  qed
  then show ?thesis using m(1,5) kernel_ids_empty [OF m(1)] by simp
qed

lemma map_write_once: "nr_extents mp \<noteq> 0 \<Longrightarrow> map_write env lsm nss req ns cap mp parent_map = Some (r, mp') \<Longrightarrow> mp' = mp"
  by (auto simp: map_write_def map_write_fail_def empty_map_def split: if_splits option.splits prod.splits Option.bind_splits sum.splits)

end
