(* ===== verification/Userns_Theorems.thy ===== *)
theory Userns_Theorems
  imports Userns_Write
begin

text \<open>
  The invariant of the tree of namespaces and its properties: ids stay within the ancestors and never change,
  \<^verbatim>\<open>setgroups\<close> once given up stays given up, capabilities go to whom they should, and all writes return.
\<close>

unbundle bit_operations_syntax

section \<open>The tree of namespaces\<close>

definition child_ok :: "user_namespace \<Rightarrow> user_namespace \<Rightarrow> bool" where
  "child_ok p n \<longleftrightarrow> level n = level p + 1 \<and> nr_extents (gid_map p) \<noteq> 0 \<and> (flags p AND USERNS_SETGROUPS_ALLOWED = 0 \<longrightarrow> flags n AND USERNS_SETGROUPS_ALLOWED = 0) \<and>
    (\<forall>sel \<in> {uid_map, gid_map, projid_map}. kernel_ids (sel n) \<subseteq> kernel_ids (sel p))"

definition node_ok :: "ns_heap \<Rightarrow> nat \<Rightarrow> bool" where
  "node_ok nss i \<longleftrightarrow> (\<forall>sel \<in> {uid_map, gid_map, projid_map}. map_ok (sel (nss ! i))) \<and>
    (case ns_parent (nss ! i) of None \<Rightarrow> i = 0 \<and> level (nss ! i) = 0 | Some p \<Rightarrow> p < i \<and> child_ok (nss ! p) (nss ! i))"

definition heap_ok :: "ns_heap \<Rightarrow> bool" where
  "heap_ok nss \<longleftrightarrow> nss \<noteq> [] \<and> (\<forall>i < length nss. node_ok nss i)"

lemma node_parent: "heap_ok nss \<Longrightarrow> i < length nss \<Longrightarrow> ns_parent (nss ! i) = Some p \<Longrightarrow> p < i \<and> child_ok (nss ! p) (nss ! i)"
  by (auto simp: heap_ok_def node_ok_def)

lemma node_maps: "heap_ok nss \<Longrightarrow> i < length nss \<Longrightarrow> sel \<in> {uid_map, gid_map, projid_map} \<Longrightarrow> map_ok (sel (nss ! i))"
  by (auto simp: heap_ok_def node_ok_def)

definition grows :: "user_namespace \<Rightarrow> user_namespace \<Rightarrow> bool" where
  "grows n n' \<longleftrightarrow> ns_parent n' = ns_parent n \<and> level n' = level n \<and> owner n' = owner n \<and>
    (nr_extents (gid_map n) \<noteq> 0 \<longrightarrow> flags n' = flags n) \<and>
    (flags n AND USERNS_SETGROUPS_ALLOWED = 0 \<longrightarrow> flags n' AND USERNS_SETGROUPS_ALLOWED = 0) \<and>
    (\<forall>sel \<in> {uid_map, gid_map, projid_map}. kernel_ids (sel n) \<subseteq> kernel_ids (sel n') \<and> map_ok (sel n') \<and>
      (nr_extents (sel n) \<noteq> 0 \<longrightarrow> sel n' = sel n))"

lemma heap_ok_update:
  assumes ok: "heap_ok nss" and ns: "ns < length nss" and g: "grows (nss ! ns) n'"
    and p: "\<And>p sel. ns_parent (nss ! ns) = Some p \<Longrightarrow> sel \<in> {uid_map, gid_map, projid_map} \<Longrightarrow> kernel_ids (sel n') \<subseteq> kernel_ids (sel (nss ! p))"
  shows "heap_ok (nss[ns := n'])"
proof -
  let ?h = "nss[ns := n']"
  have "node_ok ?h i" if i: "i < length nss" for i
  proof (cases "i = ns")
    case True
    have e: "?h ! ns = n'" using ns by simp
    show ?thesis
    proof (cases "ns_parent (nss ! ns)")
      case None
      then show ?thesis using ok ns g unfolding True node_ok_def e heap_ok_def by (auto simp: grows_def node_ok_def)
    next
      case (Some q)
      note c = node_parent [OF ok ns Some]
      have "child_ok (nss ! q) n'" using c g p [OF Some] unfolding child_ok_def grows_def by simp
      moreover have "?h ! q = nss ! q" "ns_parent n' = Some q" using c g Some by (simp_all add: grows_def)
      ultimately show ?thesis using c g unfolding True node_ok_def e by (simp add: grows_def Some)
    qed
  next
    case False
    then have e: "?h ! i = nss ! i" by simp
    show ?thesis
    proof (cases "ns_parent (nss ! i) = Some ns")
      case True
      note c = node_parent [OF ok i True]
      have "child_ok n' (nss ! i)" using c g unfolding child_ok_def grows_def by auto
      then show ?thesis using c node_maps [OF ok i] ns e unfolding node_ok_def by (simp add: True)
    next
      case False
      then show ?thesis using ok i e unfolding heap_ok_def node_ok_def by (auto split: option.splits)
    qed
  qed
  then show ?thesis using ok by (simp add: heap_ok_def)
qed

lemma grows_refl: "heap_ok nss \<Longrightarrow> ns < length nss \<Longrightarrow> grows (nss ! ns) (nss ! ns)"
  using node_maps by (simp add: grows_def)

text \<open>What a step does to the namespaces: they stay, grow in place, and one may be added at the end.\<close>

definition extends :: "ns_heap \<Rightarrow> ns_heap \<Rightarrow> bool" where
  "extends nss nss' \<longleftrightarrow> heap_ok nss' \<and> length nss \<le> length nss' \<and> (\<forall>i < length nss. grows (nss ! i) (nss' ! i))"

lemma extends_update:
  assumes "heap_ok nss" "ns < length nss" "grows (nss ! ns) n'"
    "\<And>p sel. ns_parent (nss ! ns) = Some p \<Longrightarrow> sel \<in> {uid_map, gid_map, projid_map} \<Longrightarrow> kernel_ids (sel n') \<subseteq> kernel_ids (sel (nss ! p))"
  shows "extends nss (nss[ns := n'])"
  using heap_ok_update [OF assms] grows_refl [OF assms(1)] assms(2,3) by (auto simp: extends_def nth_list_update)

lemma extends_refl: "heap_ok nss \<Longrightarrow> extends nss nss"
  by (simp add: extends_def grows_refl)

lemma grows_trans: "grows a b \<Longrightarrow> grows b c \<Longrightarrow> grows a c"
  unfolding grows_def by (simp; (elim conjE)?; intro conjI impI) (simp_all; blast)+

lemma extends_trans: "extends a b \<Longrightarrow> extends b c \<Longrightarrow> extends a c"
  unfolding extends_def by (meson grows_trans le_trans less_le_trans)

lemma map_write_grows:
  assumes ok: "heap_ok nss" and env: "env_ok env" and ns: "ns < length nss" and p: "ns_parent (nss ! ns) = Some p"
    and sel: "sel \<in> {uid_map, gid_map, projid_map}"
    and w: "map_write env lsm nss req ns cap (sel (nss ! ns)) (sel (nss ! p)) = Some (r, mp')"
  shows "map_ok mp' \<and> kernel_ids (sel (nss ! ns)) \<subseteq> kernel_ids mp' \<and> kernel_ids mp' \<subseteq> kernel_ids (sel (nss ! p)) \<and>
    (nr_extents (sel (nss ! ns)) \<noteq> 0 \<longrightarrow> mp' = sel (nss ! ns))"
proof (rule map_write_keeps [OF env _ _ _ w])
  have c: "p < ns" "child_ok (nss ! p) (nss ! ns)" using node_parent [OF ok ns p] by auto
  show "map_ok (sel (nss ! ns))" "map_ok (sel (nss ! p))" using node_maps [OF ok _ sel] ns c(1) by auto
  show "kernel_ids (sel (nss ! ns)) \<subseteq> kernel_ids (sel (nss ! p))" using c(2) sel by (auto simp: child_ok_def)
qed

lemma siblings_in_parent:
  assumes "heap_ok nss" "ns < length nss" "ns_parent (nss ! ns) = Some p"
  shows "\<forall>sel \<in> {uid_map, gid_map, projid_map}. map_ok (sel (nss ! ns)) \<and> kernel_ids (sel (nss ! ns)) \<subseteq> kernel_ids (sel (nss ! p))"
  using node_parent [OF assms] node_maps [OF assms(1,2)] by (simp add: child_ok_def)

lemma proc_map_write_extends:
  assumes ok: "heap_ok nss" and env: "env_ok env" and ns: "ns < length nss"
  shows "proc_uid_map_write env lsm nss req ns = Some (r, nss') \<Longrightarrow> extends nss nss'"
    and "proc_gid_map_write env lsm nss req ns = Some (r, nss') \<Longrightarrow> extends nss nss'"
    and "proc_projid_map_write env lsm nss req ns = Some (r, nss') \<Longrightarrow> extends nss nss'"
proof -
  note refl = extends_refl [OF ok]
  show "extends nss nss'" if w: "proc_uid_map_write env lsm nss req ns = Some (r, nss')"
  proof (cases "nss' = nss")
    case False
    then obtain p mp where p: "ns_parent (nss ! ns) = Some p" "nss' = nss[ns := (nss ! ns)\<lparr>uid_map := mp\<rparr>]"
      "map_write env lsm nss req ns CAP_SETUID (uid_map (nss ! ns)) (uid_map (nss ! p)) = Some (r, mp)"
      using w by (auto simp: proc_uid_map_write_def Let_def split: option.splits if_splits)
    note g = map_write_grows [OF ok env ns p(1) _ p(3), simplified]
    show ?thesis unfolding p(2)
      by (rule extends_update [OF ok ns]) (use g siblings_in_parent [OF ok ns p(1)] p(1) in \<open>auto simp: grows_def\<close>)
  qed (use refl in simp)
  show "extends nss nss'" if w: "proc_gid_map_write env lsm nss req ns = Some (r, nss')"
  proof (cases "nss' = nss")
    case False
    then obtain p mp where p: "ns_parent (nss ! ns) = Some p" "nss' = nss[ns := (nss ! ns)\<lparr>gid_map := mp\<rparr>]"
      "map_write env lsm nss req ns CAP_SETGID (gid_map (nss ! ns)) (gid_map (nss ! p)) = Some (r, mp)"
      using w by (auto simp: proc_gid_map_write_def Let_def split: option.splits if_splits)
    note g = map_write_grows [OF ok env ns p(1) _ p(3), simplified]
    show ?thesis unfolding p(2)
      by (rule extends_update [OF ok ns]) (use g siblings_in_parent [OF ok ns p(1)] p(1) in \<open>auto simp: grows_def\<close>)
  qed (use refl in simp)
  show "extends nss nss'" if w: "proc_projid_map_write env lsm nss req ns = Some (r, nss')"
  proof (cases "nss' = nss")
    case False
    then obtain p mp where p: "ns_parent (nss ! ns) = Some p" "nss' = nss[ns := (nss ! ns)\<lparr>projid_map := mp\<rparr>]"
      "map_write env lsm nss req ns (- 1) (projid_map (nss ! ns)) (projid_map (nss ! p)) = Some (r, mp)"
      using w by (auto simp: proc_projid_map_write_def Let_def split: option.splits if_splits)
    note g = map_write_grows [OF ok env ns p(1) _ p(3), simplified]
    show ?thesis unfolding p(2)
      by (rule extends_update [OF ok ns]) (use g siblings_in_parent [OF ok ns p(1)] p(1) in \<open>auto simp: grows_def\<close>)
  qed (use refl in simp)
qed

lemma setgroups_extends:
  assumes ok: "heap_ok nss" and ns: "ns < length nss" and w: "proc_setgroups_write nss ns ppos cnt buf = (r, nss')"
  shows "extends nss nss'"
proof (cases "nss' = nss")
  case False
  let ?n = "(nss ! ns)\<lparr>flags := flags (nss ! ns) AND NOT 1\<rparr>"
  have n: "nss' = nss[ns := ?n]" and g: "nr_extents (gid_map (nss ! ns)) = 0"
    using w False by (auto simp: proc_setgroups_write_def Let_def split: option.splits if_splits prod.splits)
  have "(flags (nss ! ns) AND NOT 1) AND 1 = 0" by (simp add: and.assoc)
  then have "grows (nss ! ns) ?n" using grows_refl [OF ok ns] g unfolding grows_def by auto
  then show ?thesis unfolding n
    by (rule extends_update [OF ok ns]) (use siblings_in_parent [OF ok ns] in auto)
qed (use extends_refl [OF ok] in simp)

lemma empty_map_ok: "map_ok empty_map"
  by (simp add: map_ok_def empty_map_def extents_of_def extents_ok_def)

lemma create_extends:
  assumes ok: "heap_ok nss" and ns: "cred_user_ns new < length nss" and w: "create_user_ns env nss new = Inr (nss', new')"
  shows "extends nss nss'"
proof -
  let ?p = "cred_user_ns new"
  obtain n where n: "nss' = nss @ [n]" "ns_parent n = Some ?p" "level n = level (nss ! ?p) + 1" "flags n = flags (nss ! ?p)"
    "uid_map n = empty_map" "gid_map n = empty_map" "projid_map n = empty_map"
    and m: "kgid_has_mapping (nss ! ?p) (egid new)"
    using w by (auto simp: create_user_ns_def Let_def split: option.splits if_splits)
  have "nr_extents (gid_map (nss ! ?p)) \<noteq> 0"
    using m empty_map_unmapped [OF node_maps [OF ok ns, of gid_map]] by (simp add: kgid_has_mapping_def from_kgid_def)
  then have c: "child_ok (nss ! ?p) n"
    using n kernel_ids_empty [of empty_map] by (auto simp: child_ok_def empty_map_def)
  have "node_ok nss' i" if i: "i < length nss'" for i
  proof (cases "i < length nss")
    case True
    then have "node_ok nss i" using ok by (simp add: heap_ok_def)
    then show ?thesis using True n(1) by (auto simp: node_ok_def nth_append split: option.splits)
  next
    case False
    then show ?thesis using i ns c n empty_map_ok by (auto simp: node_ok_def nth_append)
  qed
  then show ?thesis using grows_refl [OF ok] n(1) by (auto simp: extends_def heap_ok_def nth_append)
qed

lemma step_extends: "userns_step nss nss' \<Longrightarrow> heap_ok nss \<Longrightarrow> extends nss nss'"
  by (induction rule: userns_step.induct) (blast intro: create_extends proc_map_write_extends setgroups_extends)+

lemma steps_extend: "userns_steps nss nss' \<Longrightarrow> heap_ok nss \<Longrightarrow> extends nss nss'"
proof (induction rule: userns_steps.induct)
  case (more nss nss' nss'')
  then show ?case using step_extends extends_trans by (metis extends_def)
qed (rule extends_refl)

lemma full_map_extents: "extents_of full_map = [\<lparr>ext_first = 0, ext_lower_first = 0, ext_count = 4294967295\<rparr>]"
  by code_simp

lemma full_map_ok: "map_ok full_map"
  unfolding map_ok_def full_map_extents by (simp add: full_map_def empty_map_def extents_ok_def extent_ok_def)

lemma init_heap_ok: "heap_ok [init_user_ns]"
  using full_map_ok by (simp add: heap_ok_def node_ok_def init_user_ns_def)

lemma reachable_heap_ok: "userns_steps [init_user_ns] nss \<Longrightarrow> heap_ok nss"
  using steps_extend [OF _ init_heap_ok] by (simp add: extends_def)

section \<open>Ancestors and capabilities\<close>

inductive ancestor :: "ns_heap \<Rightarrow> nat \<Rightarrow> nat \<Rightarrow> bool" for nss a where
  self: "ancestor nss a a"
| up: "ns_parent (nss ! i) = Some p \<Longrightarrow> ancestor nss a p \<Longrightarrow> ancestor nss a i"

lemma ancestor_iff:
  "ancestor nss a i \<longleftrightarrow> a = i \<or> (case ns_parent (nss ! i) of None \<Rightarrow> False | Some p \<Rightarrow> ancestor nss a p)"
  by (subst ancestor.simps) (auto split: option.splits)

lemma root_level: "heap_ok nss \<Longrightarrow> i < length nss \<Longrightarrow> ns_parent (nss ! i) = None \<Longrightarrow> level (nss ! i) = 0"
  unfolding heap_ok_def node_ok_def by force

lemma level_nonneg: "heap_ok nss \<Longrightarrow> i < length nss \<Longrightarrow> 0 \<le> level (nss ! i)"
proof (induction i rule: less_induct)
  case (less i)
  show ?case
  proof (cases "ns_parent (nss ! i)")
    case None
    then show ?thesis using root_level [OF less.prems] by simp
  next
    case (Some p)
    note c = node_parent [OF less.prems Some]
    then show ?thesis using less.IH [of p] less.prems by (simp add: child_ok_def)
  qed
qed

lemma ancestor_level:
  assumes "ancestor nss a i" and ok: "heap_ok nss" and i: "i < length nss"
  shows "a \<le> i \<and> (a \<noteq> i \<longrightarrow> level (nss ! a) < level (nss ! i)) \<and>
    (flags (nss ! a) AND 1 = 0 \<longrightarrow> flags (nss ! i) AND 1 = 0) \<and>
    (\<forall>sel \<in> {uid_map, gid_map, projid_map}. kernel_ids (sel (nss ! i)) \<subseteq> kernel_ids (sel (nss ! a)))"
  using assms(1) i
proof (induction rule: ancestor.induct)
  case (up i p)
  have c: "p < i" "child_ok (nss ! p) (nss ! i)" using node_parent [OF ok up.prems up.hyps(1)] by auto
  note h = up.IH [OF less_trans [OF c(1) up.prems]]
  have "level (nss ! a) < level (nss ! i)" using h c(2) by (cases "a = p") (auto simp: child_ok_def)
  moreover have "flags (nss ! a) AND 1 = 0 \<longrightarrow> flags (nss ! i) AND 1 = 0" using h c(2) by (auto simp: child_ok_def)
  moreover have "\<forall>sel \<in> {uid_map, gid_map, projid_map}. kernel_ids (sel (nss ! i)) \<subseteq> kernel_ids (sel (nss ! a))"
    using h c(2) unfolding child_ok_def by (meson order_trans)
  ultimately show ?case using h c(1) by simp
qed simp

lemma ancestor_proper: "ancestor nss a i \<Longrightarrow> heap_ok nss \<Longrightarrow> i < length nss \<Longrightarrow> level (nss ! i) \<le> level (nss ! a) \<Longrightarrow> a = i"
  using ancestor_level [of nss a i] by force

lemma in_userns_ancestor:
  assumes ok: "heap_ok nss" and a: "a < length nss"
  shows "i < length nss \<Longrightarrow> in_userns nss a i = Some (ancestor nss a i)"
proof (induction i rule: less_induct)
  case (less i)
  show ?case
  proof (cases "level (nss ! i) > level (nss ! a)")
    case True
    then obtain p where p: "ns_parent (nss ! i) = Some p"
      using level_nonneg [OF ok a] root_level [OF ok less.prems] by (cases "ns_parent (nss ! i)") auto
    have "p < i" using node_parent [OF ok less.prems p] by simp
    moreover have "ancestor nss a i = ancestor nss a p" using True p by (subst ancestor_iff) auto
    ultimately show ?thesis using less p True by (subst in_userns.simps) simp
  next
    case False
    then have "ancestor nss a i \<longleftrightarrow> i = a" using ancestor_proper [OF _ ok less.prems, of a] ancestor.self [of nss a] by fastforce
    then show ?thesis using False by (subst in_userns.simps) simp
  qed
qed

lemma owner_loop_ancestor:
  assumes ok: "heap_ok nss"
  shows "i < length nss \<Longrightarrow> owner_loop nss a (Some i) = Some (ancestor nss a i)"
proof (induction i rule: less_induct)
  case (less i)
  have step: "owner_loop nss a (Some i) = (if i = a then Some True else owner_loop nss a (ns_parent (nss ! i)))"
    by (subst owner_loop.simps) simp
  show ?case
  proof (cases "ns_parent (nss ! i)")
    case None
    have "owner_loop nss a None = Some False" by (subst owner_loop.simps) simp
    then show ?thesis unfolding step None using None by (subst ancestor_iff) auto
  next
    case (Some p)
    then have "p < i" using node_parent [OF ok less.prems] by simp
    then show ?thesis unfolding step using less Some by (subst ancestor_iff) auto
  qed
qed

text \<open>The parent of a namespace is shown exactly to the tasks that have a view of it.\<close>

lemma ns_get_owner_visible:
  assumes "heap_ok nss" "ns < length nss" "ns_parent (nss ! ns) = Some p"
  shows "ns_get_owner nss cr ns = Some (if ancestor nss (cred_user_ns cr) p then Inr p else Inl EPERM)"
proof -
  have "p < length nss" using node_parent [OF assms] assms(2) by simp
  then show ?thesis using owner_loop_ancestor [OF assms(1), of p "cred_user_ns cr"] by (simp add: ns_get_owner_def assms(3))
qed

text \<open>Who has a capability over a namespace: holders of it in the namespace or above, and owners of a namespace on the way.\<close>

definition has_cap :: "ns_heap \<Rightarrow> cred \<Rightarrow> nat \<Rightarrow> int \<Rightarrow> bool" where
  "has_cap nss cr i cap \<longleftrightarrow> ancestor nss (cred_user_ns cr) i \<and>
    (cap_raised (cap_effective cr) cap \<or>
     (\<exists>m. ancestor nss m i \<and> ns_parent (nss ! m) = Some (cred_user_ns cr) \<and> owner (nss ! m) = euid cr))"

lemma has_cap_self:
  assumes "heap_ok nss" "i < length nss" "cred_user_ns cr = i"
  shows "has_cap nss cr i cap \<longleftrightarrow> cap_raised (cap_effective cr) cap"
proof -
  have "False" if m: "ancestor nss m i" "ns_parent (nss ! m) = Some i" for m
  proof -
    note l = ancestor_level [OF m(1) assms(1,2)]
    then have "m < length nss" using assms(2) by simp
    then show False using node_parent [OF assms(1) _ m(2)] l by simp
  qed
  then show ?thesis using assms(3) ancestor.self by (auto simp: has_cap_def)
qed

lemma has_cap_up:
  assumes "ns_parent (nss ! i) = Some p" "cred_user_ns cr \<noteq> i"
  shows "has_cap nss cr i cap \<longleftrightarrow> p = cred_user_ns cr \<and> owner (nss ! i) = euid cr \<or> has_cap nss cr p cap"
proof -
  have a: "ancestor nss (cred_user_ns cr) i = ancestor nss (cred_user_ns cr) p"
    using assms by (subst ancestor_iff) (simp del: One_nat_def)
  have m: "ancestor nss m i \<longleftrightarrow> m = i \<or> ancestor nss m p" for m using assms(1) by (subst ancestor_iff) auto
  have s: "ancestor nss (cred_user_ns cr) (cred_user_ns cr)" by (rule ancestor.self)
  show ?thesis unfolding has_cap_def a m using assms s by auto
qed

lemma cap_capable_has_cap:
  assumes ok: "heap_ok nss" and c: "cred_user_ns cr < length nss"
  shows "i < length nss \<Longrightarrow> cap_capable nss cr i cap = Some (if has_cap nss cr i cap then Inr () else Inl EPERM)"
proof (induction i rule: less_induct)
  case (less i)
  consider (self) "i = cred_user_ns cr" | (below) "i \<noteq> cred_user_ns cr" "level (nss ! i) \<le> level (nss ! cred_user_ns cr)"
    | (climb) "i \<noteq> cred_user_ns cr" "level (nss ! i) > level (nss ! cred_user_ns cr)" by linarith
  then show ?case
  proof cases
    case self
    then show ?thesis using has_cap_self [OF ok less.prems, of cr cap] by (subst cap_capable.simps) simp
  next
    case below
    then have "\<not> has_cap nss cr i cap" using ancestor_proper [OF _ ok less.prems] by (auto simp: has_cap_def)
    then show ?thesis using below by (subst cap_capable.simps) simp
  next
    case climb
    then obtain p where p: "ns_parent (nss ! i) = Some p"
      using level_nonneg [OF ok c] root_level [OF ok less.prems] by (cases "ns_parent (nss ! i)") auto
    have "p < i" using node_parent [OF ok less.prems p] by simp
    then show ?thesis using less climb p has_cap_up [OF p, of cr cap] by (subst cap_capable.simps) auto
  qed
qed

section \<open>Writes return\<close>

lemma capable_returns:
  assumes "heap_ok nss" "cred_user_ns cr < length nss" "i < length nss"
  shows "\<exists>b. file_ns_capable lsm nss cr i cap = Some b" and "cap_valid cap \<Longrightarrow> \<exists>b. ns_capable lsm nss cr i cap = Some b"
  using cap_capable_has_cap [OF assms, of cap] by (auto simp: file_ns_capable_def ns_capable_def security_capable_def)

lemma some_false [simp]: "Ex Not"
  by (rule exI [of _ False]) simp

lemma new_idmap_permitted_returns:
  assumes ok: "heap_ok nss" and ns: "ns < length nss" and p: "ns_parent (nss ! ns) = Some p"
    and cur: "cred_user_ns cur < length nss" and cr: "cred_user_ns cr < length nss"
  shows "\<exists>b. new_idmap_permitted lsm nss cur cr ns cap new_map = Some b"
proof -
  have pl: "p < length nss" using node_parent [OF ok ns p] ns by simp
  have "\<exists>r. verify_root_map lsm nss cr ns new_map = Some r"
    using capable_returns(1) [OF ok cr pl, of lsm CAP_SETFCAP]
    by (auto simp: verify_root_map_def p Let_def split: option.split)
  then obtain r where r: "(if cap = CAP_SETUID then verify_root_map lsm nss cr ns new_map else Some True) = Some r"
    by (cases "cap = CAP_SETUID") auto
  have "new_idmap_permitted lsm nss cur cr ns cap new_map \<noteq> None"
    using capable_returns(1) [OF ok cr pl, of lsm cap] capable_returns(2) [OF ok cur pl, of cap lsm]
    unfolding new_idmap_permitted_def r p by auto
  then show ?thesis by blast
qed

lemma map_write_returns:
  assumes ok: "heap_ok nss" and env: "env_ok env" and ns: "ns < length nss" and p: "ns_parent (nss ! ns) = Some p"
    and cr: "cred_user_ns (req_current req) < length nss" "cred_user_ns (req_cred req) < length nss" and parent: "map_ok parent_map"
  shows "\<exists>r mp'. map_write env lsm nss req ns cap mp parent_map = Some (r, mp')"
proof -
  obtain admin where a: "(if cap_valid cap then file_ns_capable lsm nss (req_cred req) ns CAP_SYS_ADMIN else Some True) = Some admin"
    using capable_returns(1) [OF ok cr(2) ns] by (cases "cap_valid cap") auto
  have s: "\<exists>r mp'. sort_idmaps env (set_extents new_map es) = Some (r, mp')"
    if pl: "parse_lines env empty_map kbuf = (None, new_map)" and es: "map_lower_ids parent_map (extents_of new_map) = Some es" for kbuf new_map es
  proof -
    have b: "build_ok new_map" using parse_lines_ok [OF env build_ok_empty _ pl] by (simp add: empty_map_def)
    note t = map_lower_ids_through [OF es]
    have "extents_ok es" using extents_ok_through [OF parent] t b by (simp add: build_ok_def)
    then have "build_ok (set_extents new_map es)" using set_extents_of [OF b] t build_ok_length [OF b] by simp
    then show ?thesis using sort_idmaps_ok by metis
  qed
  note n = new_idmap_permitted_returns [OF ok ns p cr, of lsm cap]
  show ?thesis
    unfolding map_write_def a map_write_fail_def
    apply (cases "req_kbuf req")
     apply simp
    subgoal for kbuf
      apply (cases "parse_lines env empty_map kbuf")
      subgoal for r new_map
        using n [of new_map] s [of kbuf new_map]
        by (cases "map_lower_ids parent_map (extents_of new_map)") (fastforce split: option.splits)+
      done
    done
qed

section \<open>Properties of namespaces\<close>

text \<open>
  An unprivileged user creates a namespace, gives up \<^verbatim>\<open>setgroups\<close> and maps its own ids to 0: the texts are
  \<^verbatim>\<open>0 1000 1\<close>, \<^verbatim>\<open>deny\<close> and \<^verbatim>\<open>0 100 1\<close>.
\<close>

definition demo_cred :: cred where
  "demo_cred = \<lparr>cred_user_ns = 0, euid = 1000, egid = 100, cap_effective = [0, 0]\<rparr>"

definition demo_root_cred :: cred where
  "demo_root_cred = set_cred_user_ns demo_cred 1"

definition demo_env :: idmap_env where
  "demo_env = \<lparr>kmalloc_forward = None, kmemdup_ok = True, forward_addr = 0, reverse_addr = 0, unaligned_ok = True\<rparr>"

definition demo_request :: "cstr \<Rightarrow> map_request" where
  "demo_request s = \<lparr>req_current = demo_root_cred, req_cred = demo_root_cred, req_ppos = 0, req_count = word_of_nat (length s), req_kbuf = Inr s\<rparr>"

definition demo_create_env :: create_env where
  "demo_create_env = \<lparr>ucounts_ok = True, chrooted = False, zalloc_ok = True, inum_result = None, sysctls_ok = True\<rparr>"

definition demo_map :: "u32 \<Rightarrow> uid_gid_map" where
  "demo_map k = empty_map\<lparr>nr_extents := 1, extent := \<lparr>ext_first = 0, ext_lower_first = k, ext_count = 1\<rparr> # replicate 4 zero_extent\<rparr>"

definition demo_ns :: user_namespace where
  "demo_ns = \<lparr>uid_map = empty_map, gid_map = empty_map, projid_map = empty_map, ns_parent = Some 0, level = 1, owner = 1000, group = 100,
     flags = 1, parent_could_setfcap = False\<rparr>"

abbreviation (input) demo_uid_text :: cstr where "demo_uid_text \<equiv> [48, 32, 49, 48, 48, 48, 32, 49, 10]"
abbreviation (input) demo_gid_text :: cstr where "demo_gid_text \<equiv> [48, 32, 49, 48, 48, 32, 49, 10]"

definition demo_heap1 :: ns_heap where "demo_heap1 = [init_user_ns, demo_ns]"
definition demo_heap2 :: ns_heap where "demo_heap2 = [init_user_ns, demo_ns\<lparr>uid_map := demo_map 1000\<rparr>]"
definition demo_heap3 :: ns_heap where "demo_heap3 = [init_user_ns, demo_ns\<lparr>uid_map := demo_map 1000, flags := 0\<rparr>]"
definition demo_heap4 :: ns_heap where "demo_heap4 = [init_user_ns, demo_ns\<lparr>uid_map := demo_map 1000, flags := 0, gid_map := demo_map 100\<rparr>]"

lemma demo_create: "create_user_ns demo_create_env [init_user_ns] demo_cred = Inr (demo_heap1, demo_root_cred)"
  by code_simp

abbreviation (input) all_allow :: lsm_hook where "all_allow \<equiv> \<lambda>_ _ _. True"

lemma demo_uid_write: "proc_uid_map_write demo_env all_allow demo_heap1 (demo_request demo_uid_text) 1 = Some (Inr 9, demo_heap2)"
  by code_simp

lemma demo_deny: "proc_setgroups_write demo_heap2 1 0 4 (Some [100, 101, 110, 121]) = (Inr 4, demo_heap3)"
  by code_simp

lemma demo_gid_write: "proc_gid_map_write demo_env all_allow demo_heap3 (demo_request demo_gid_text) 1 = Some (Inr 8, demo_heap4)"
  by code_simp

lemma demo_env_ok: "env_ok demo_env"
  by code_simp

lemma demo_lengths: "length demo_heap1 = 2" "length demo_heap2 = 2" "length demo_heap3 = 2" "length demo_heap4 = 2"
  by (simp_all add: demo_heap1_def demo_heap2_def demo_heap3_def demo_heap4_def)

lemma demo_reachable3: "userns_steps [init_user_ns] demo_heap3"
proof -
  have s1: "userns_step [init_user_ns] demo_heap1" by (rule userns_step.create [OF demo_create]) (simp add: demo_cred_def)
  have s2: "userns_step demo_heap1 demo_heap2" by (rule userns_step.uid_map_write [OF demo_uid_write demo_env_ok]) (simp add: demo_lengths)
  have s3: "userns_step demo_heap2 demo_heap3" by (rule userns_step.setgroups_write [OF demo_deny]) (simp add: demo_lengths)
  show ?thesis by (rule userns_steps.more [OF userns_steps.more [OF userns_steps.more [OF userns_steps.start s1] s2] s3])
qed

lemma demo_step4: "userns_step demo_heap3 demo_heap4"
  by (rule userns_step.gid_map_write [OF demo_gid_write demo_env_ok]) (simp add: demo_lengths)

lemma demo_reachable4: "userns_steps [init_user_ns] demo_heap4"
  by (rule userns_steps.more [OF demo_reachable3 demo_step4])

text \<open>
  C6. No namespace reaches beyond its ancestors: in every state that creations and writes can lead to, a kernel id
  that a user, group or project id of a namespace stands for has an id in each ancestor of it, and that id
  stands for the same kernel id.
\<close>

theorem ids_in_ancestors:
  assumes "userns_steps [init_user_ns] nss" and "i < length nss" and "a < length nss" and "in_userns nss a i = Some True"
  shows "(make_kuid (nss ! i) x \<noteq> - 1 \<longrightarrow> from_kuid (nss ! a) (make_kuid (nss ! i) x) \<noteq> - 1 \<and>
      make_kuid (nss ! a) (from_kuid (nss ! a) (make_kuid (nss ! i) x)) = make_kuid (nss ! i) x) \<and>
    (make_kgid (nss ! i) x \<noteq> - 1 \<longrightarrow> from_kgid (nss ! a) (make_kgid (nss ! i) x) \<noteq> - 1 \<and>
      make_kgid (nss ! a) (from_kgid (nss ! a) (make_kgid (nss ! i) x)) = make_kgid (nss ! i) x) \<and>
    (make_kprojid (nss ! i) x \<noteq> - 1 \<longrightarrow> from_kprojid (nss ! a) (make_kprojid (nss ! i) x) \<noteq> - 1 \<and>
      make_kprojid (nss ! a) (from_kprojid (nss ! a) (make_kprojid (nss ! i) x)) = make_kprojid (nss ! i) x)"
proof -
  have ok: "heap_ok nss" by (rule reachable_heap_ok [OF assms(1)])
  have anc: "ancestor nss a i" using in_userns_ancestor [OF ok assms(3,2)] assms(4) by simp
  have "map_id_up (sel (nss ! a)) (map_id_down (sel (nss ! i)) x) \<noteq> - 1 \<and>
      map_id_down (sel (nss ! a)) (map_id_up (sel (nss ! a)) (map_id_down (sel (nss ! i)) x)) = map_id_down (sel (nss ! i)) x"
    if sel: "sel \<in> {uid_map, gid_map, projid_map}" and m: "map_id_down (sel (nss ! i)) x \<noteq> - 1" for sel
  proof -
    have "unat (map_id_down (sel (nss ! i)) x) \<in> kernel_ids (sel (nss ! a))"
      using map_id_down_kernel_ids [OF node_maps [OF ok assms(2) sel] m] ancestor_level [OF anc ok assms(2)] sel by blast
    then have "map_id_up (sel (nss ! a)) (map_id_down (sel (nss ! i)) x) \<noteq> - 1"
      using map_id_up_kernel_ids [OF node_maps [OF ok assms(3) sel]] by simp
    then show ?thesis using down_of_up [OF node_maps [OF ok assms(3) sel]] by simp
  qed
  then show ?thesis
    unfolding make_kuid_def from_kuid_def make_kgid_def from_kgid_def make_kprojid_def from_kprojid_def by simp
qed

theorem ids_in_ancestors_witness:
  "in_userns demo_heap4 0 1 = Some True \<and> make_kuid (demo_heap4 ! 1) 0 = 1000 \<and> from_kuid (demo_heap4 ! 0) 1000 \<noteq> - 1"
proof -
  have i: "in_userns demo_heap4 0 1 = Some True" by code_simp
  have k: "make_kuid (demo_heap4 ! 1) 0 = 1000" by code_simp
  show ?thesis using ids_in_ancestors [OF demo_reachable4 _ _ i, of 0] i k by (simp add: demo_lengths)
qed

text \<open>
  C7. What a successful write installs: the map was empty, the text has been read to a list of ranges the
  writer may use, and the new map takes each id of the namespace to the kernel id of the id of the parent
  the text asks for, and no other id anywhere. The map is well formed: its ranges do not wrap or overlap, on
  either side, and the arrays of a large map are sorted.
\<close>

theorem map_write_composes:
  assumes "env_ok env" and "map_ok mp" and "map_ok parent_map"
    and "map_write env lsm nss req ns cap mp parent_map = Some (Inr n, mp')"
  shows "\<exists>kbuf new_map. req_kbuf req = Inr kbuf \<and> parse_lines env empty_map kbuf = (None, new_map) \<and>
    nr_extents mp = 0 \<and> new_idmap_permitted lsm nss (req_current req) (req_cred req) ns cap new_map = Some True \<and> map_ok mp' \<and>
    (\<forall>i. map_id_down mp' i =
      (case requested (extents_of new_map) i of Some j \<Rightarrow> map_id_down parent_map j | None \<Rightarrow> - 1))"
proof -
  have len: "length (extent mp) = 5" using assms(2) by (simp add: map_ok_def)
  obtain kbuf new_map where m: "nr_extents mp = 0" "req_kbuf req = Inr kbuf" "parse_lines env empty_map kbuf = (None, new_map)"
    "build_ok new_map" "new_idmap_permitted lsm nss (req_current req) (req_cred req) ns cap new_map = Some True"
    "\<forall>e \<in> set (extents_of new_map). map_id_range_down parent_map (ext_lower_first e) (ext_count e) \<noteq> - 1"
    "mset (extents_of mp') = mset (map (through parent_map) (extents_of new_map))" "map_ok mp'"
    by (rule map_write_success [OF assms(1) len assms(3,4)])
  have new: "extents_ok (extents_of new_map)" using m(4) by (simp add: build_ok_def)
  have "map_id_down mp' i = (case requested (extents_of new_map) i of Some j \<Rightarrow> map_id_down parent_map j | None \<Rightarrow> - 1)" for i
  proof (cases "find (\<lambda>e. unat i \<in> upper e) (extents_of new_map)")
    case None
    then have "find (\<lambda>e. unat i \<in> upper e) (extents_of mp') = None" using mset_eq_setD [OF m(7)] by (auto simp: find_None_iff)
    then show ?thesis using None by (simp add: map_id_down_find [OF m(8)] requested_def)
  next
    case (Some e)
    note e = conjunct1 [OF find_in [OF Some]] conjunct2 [OF find_in [OF Some]]
    have "through parent_map e \<in> set (extents_of mp')" using mset_eq_setD [OF m(7)] e(1) by simp
    then have f: "find (\<lambda>e. unat i \<in> upper e) (extents_of mp') = Some (through parent_map e)"
      by (rule upper_find [OF map_ok_extents_ok [OF m(8)]]) (simp add: e(2))
    have "extent_ok e" using new e(1) by (auto simp: extents_ok_def)
    then show ?thesis
      using through_down [OF assms(3) _ e(2)] m(6) e(1) Some f by (simp add: map_id_down_find [OF m(8)] requested_def through_def)
  qed
  then show ?thesis using m by blast
qed

text \<open>Two ranges of a namespace that has ids of its own, written in the other order.\<close>

definition demo_parent :: uid_gid_map where
  "demo_parent = empty_map\<lparr>nr_extents := 1, extent := \<lparr>ext_first = 0, ext_lower_first = 5000, ext_count = 100\<rparr> # replicate 4 zero_extent\<rparr>"

theorem map_write_composes_witness:
  "\<exists>mp'. map_write demo_env all_allow demo_heap1 (demo_request [55, 32, 51, 32, 50, 10, 48, 32, 57, 32, 49]) 1 (- 1) empty_map demo_parent =
      Some (Inr 11, mp') \<and> map_ok mp' \<and> map_id_down mp' 8 = 5004 \<and> map_id_down mp' 0 = 5009 \<and> map_id_down mp' 9 = - 1"
proof -
  let ?req = "demo_request [55, 32, 51, 32, 50, 10, 48, 32, 57, 32, 49]"
  define mp' where "mp' = empty_map\<lparr>nr_extents := 2, extent := \<lparr>ext_first = 7, ext_lower_first = 5003, ext_count = 2\<rparr> #
    \<lparr>ext_first = 0, ext_lower_first = 5009, ext_count = 1\<rparr> # replicate 3 zero_extent\<rparr>"
  have w: "map_write demo_env all_allow demo_heap1 ?req 1 (- 1) empty_map demo_parent = Some (Inr 11, mp')"
    unfolding mp'_def by code_simp
  have x: "extents_of demo_parent = [\<lparr>ext_first = 0, ext_lower_first = 5000, ext_count = 100\<rparr>]" by code_simp
  have p: "map_ok demo_parent"
    unfolding map_ok_def x by (simp add: demo_parent_def empty_map_def extents_ok_def extent_ok_def)
  have d: "map_id_down mp' 8 = 5004 \<and> map_id_down mp' 0 = 5009 \<and> map_id_down mp' 9 = - 1" unfolding mp'_def by code_simp
  show ?thesis using map_write_composes [OF demo_env_ok empty_map_ok p w] w d by auto
qed

text \<open>
  C8. Dropping groups is not a way to gain access: when a writer without \<^verbatim>\<open>CAP_SETGID\<close> over the parent has
  written a \<^verbatim>\<open>gid_map\<close>, then neither that namespace nor any descendant of it, now or later, allows
  \<^verbatim>\<open>setgroups\<close>, whatever is created and written afterwards.
\<close>

theorem unprivileged_gid_map:
  assumes "userns_steps [init_user_ns] nss" and "env_ok env" and "ns < length nss"
    and "proc_gid_map_write env lsm nss req ns = Some (Inr n, nss')" and "ns_parent (nss ! ns) = Some p"
    and "ns_capable lsm nss (req_current req) p CAP_SETGID \<noteq> Some True" and "userns_steps nss' nss''"
    and "d < length nss''" and "in_userns nss'' ns d = Some True"
  shows "\<not> userns_may_setgroups (nss'' ! d)"
proof -
  have ok: "heap_ok nss" by (rule reachable_heap_ok [OF assms(1)])
  have pl: "p < length nss" using node_parent [OF ok assms(3,5)] assms(3) by simp
  obtain mp where w: "map_write env lsm nss req ns CAP_SETGID (gid_map (nss ! ns)) (gid_map (nss ! p)) = Some (Inr n, mp)"
    and n: "nss' = nss[ns := (nss ! ns)\<lparr>gid_map := mp\<rparr>]"
    using assms(4,5) by (auto simp: proc_gid_map_write_def Let_def split: if_splits)
  have maps: "map_ok (gid_map (nss ! ns))" "map_ok (gid_map (nss ! p))" using node_maps [OF ok, of _ gid_map] assms(3) pl by simp_all
  obtain new_map where "new_idmap_permitted lsm nss (req_current req) (req_cred req) ns CAP_SETGID new_map = Some True"
    using map_write_success [OF assms(2) _ maps(2) w] maps(1) unfolding map_ok_def by metis
  then have "own_id_permitted nss (req_cred req) (nss ! ns) p CAP_SETGID new_map"
    using assms(5,6) by (auto simp: new_idmap_permitted_def cap_valid_def split: if_splits Option.bind_splits)
  then have "flags (nss ! ns) AND 1 = 0" by (simp add: own_id_permitted_def)
  then have f: "flags (nss' ! ns) AND 1 = 0" using n assms(3) by simp
  have e: "extends nss nss'" by (rule proc_map_write_extends(2) [OF ok assms(2,3,4)])
  then have e': "extends nss' nss''" using steps_extend [OF assms(7)] by (simp add: extends_def)
  have l: "ns < length nss'" "ns < length nss''" using e e' assms(3) by (auto simp: extends_def)
  have ok'': "heap_ok nss''" using e' by (simp add: extends_def)
  have "flags (nss'' ! ns) AND 1 = 0" using e' f l(1) by (auto simp: extends_def grows_def)
  moreover have "ancestor nss'' ns d" using in_userns_ancestor [OF ok'' l(2) assms(8)] assms(9) by simp
  ultimately have "flags (nss'' ! d) AND 1 = 0" using ancestor_level [OF _ ok'' assms(8)] by blast
  then show ?thesis by (simp add: userns_may_setgroups_def)
qed

theorem unprivileged_gid_map_witness:
  "proc_gid_map_write demo_env all_allow demo_heap3 (demo_request demo_gid_text) 1 = Some (Inr 8, demo_heap4) \<and>
   nr_extents (gid_map (demo_heap4 ! 1)) \<noteq> 0 \<and> \<not> userns_may_setgroups (demo_heap4 ! 1)"
proof -
  have c: "ns_capable all_allow demo_heap3 (req_current (demo_request demo_gid_text)) 0 CAP_SETGID \<noteq> Some True" by code_simp
  have i: "in_userns demo_heap4 1 1 = Some True" "nr_extents (gid_map (demo_heap4 ! 1)) \<noteq> 0" by code_simp+
  have p: "ns_parent (demo_heap3 ! 1) = Some 0" by code_simp
  have l: "1 < length demo_heap3" "1 < length demo_heap4" by (simp_all add: demo_lengths)
  show ?thesis
    using unprivileged_gid_map [OF demo_reachable3 demo_env_ok l(1) demo_gid_write p c userns_steps.start l(2) i(1)] demo_gid_write i(2) by blast
qed

text \<open>
  C25. The walk of \<^verbatim>\<open>cap_capable\<close> up the tree ends and grants a capability exactly to two kinds of credentials:
  those that live in the namespace or an ancestor of it and have the capability raised, and those of the
  owner of the namespace, or of one between, who lives in the parent of what they own.
\<close>

theorem cap_capable_exact:
  assumes "userns_steps [init_user_ns] nss" and "cred_user_ns cr < length nss" and "i < length nss"
  shows "cap_capable nss cr i cap =
    Some (if ancestor nss (cred_user_ns cr) i \<and>
             (cap_raised (cap_effective cr) cap \<or>
              (\<exists>m. ancestor nss m i \<and> ns_parent (nss ! m) = Some (cred_user_ns cr) \<and> owner (nss ! m) = euid cr))
          then Inr () else Inl EPERM)"
  using cap_capable_has_cap [OF reachable_heap_ok [OF assms(1)] assms(2,3)] by (simp add: has_cap_def)

theorem cap_capable_exact_witness:
  "cap_capable demo_heap4 demo_cred 1 21 = Some (Inr ()) \<and> cap_capable demo_heap4 (demo_cred\<lparr>euid := 7\<rparr>) 1 21 = Some (Inl EPERM)"
proof -
  have l: "cred_user_ns demo_cred < length demo_heap4" "cred_user_ns (demo_cred\<lparr>euid := 7\<rparr>) < length demo_heap4" "1 < length demo_heap4"
    by (simp_all add: demo_lengths demo_cred_def)
  have p: "ns_parent (demo_heap4 ! 1) = Some 0" "ns_parent (demo_heap4 ! 0) = None" "owner (demo_heap4 ! 1) = 1000" by code_simp+
  have a: "ancestor demo_heap4 m 1 \<longleftrightarrow> m = 1 \<or> m = 0" for m
    by (subst ancestor_iff, simp only: p option.case, subst ancestor_iff) (auto simp: p)
  have c: "cred_user_ns demo_cred = 0" "euid demo_cred = 1000" "\<not> cap_raised (cap_effective demo_cred) 21" by code_simp+
  show ?thesis
    unfolding cap_capable_exact [OF demo_reachable4 l(1,3)] cap_capable_exact [OF demo_reachable4 l(2,3)] a
    using p c by (auto intro!: gr0I)
qed

text \<open>
  C28. A map is written once: after that the kernel id behind an id of the namespace, and the id of a kernel id,
  stay what they are through every later creation and write.
\<close>

theorem ids_never_change:
  assumes "userns_steps [init_user_ns] nss" and "userns_steps nss nss'" and "i < length nss"
    and "nr_extents (uid_map (nss ! i)) \<noteq> 0" and "nr_extents (gid_map (nss ! i)) \<noteq> 0"
  shows "make_kuid (nss' ! i) x = make_kuid (nss ! i) x \<and> from_kuid (nss' ! i) x = from_kuid (nss ! i) x \<and>
    make_kgid (nss' ! i) x = make_kgid (nss ! i) x \<and> from_kgid (nss' ! i) x = from_kgid (nss ! i) x \<and>
    userns_may_setgroups (nss' ! i) = userns_may_setgroups (nss ! i)"
proof -
  have "grows (nss ! i) (nss' ! i)"
    using steps_extend [OF assms(2) reachable_heap_ok [OF assms(1)]] assms(3) by (simp add: extends_def)
  then show ?thesis
    using assms(4,5)
    by (simp add: grows_def make_kuid_def from_kuid_def make_kgid_def from_kgid_def userns_may_setgroups_def)
qed

theorem ids_never_change_witness:
  "\<exists>r nss'. proc_projid_map_write demo_env all_allow demo_heap4 (demo_request demo_gid_text) 1 = Some (r, nss') \<and> nss' \<noteq> demo_heap4 \<and>
    make_kuid (nss' ! 1) 0 = 1000 \<and> make_kgid (nss' ! 1) 0 = 100 \<and> \<not> userns_may_setgroups (nss' ! 1)"
proof -
  define nss' where "nss' = [init_user_ns, demo_ns\<lparr>uid_map := demo_map 1000, flags := 0, gid_map := demo_map 100, projid_map := demo_map 100\<rparr>]"
  have w: "proc_projid_map_write demo_env all_allow demo_heap4 (demo_request demo_gid_text) 1 = Some (Inr 8, nss')"
    unfolding nss'_def by code_simp
  have s: "userns_steps demo_heap4 nss'"
    by (rule userns_steps.more [OF userns_steps.start userns_step.projid_map_write [OF w demo_env_ok]]) (simp add: demo_lengths)
  have ne: "nss' \<noteq> demo_heap4" unfolding nss'_def by (simp add: demo_heap4_def demo_ns_def demo_map_def empty_map_def)
  have v: "nr_extents (uid_map (demo_heap4 ! 1)) \<noteq> 0" "nr_extents (gid_map (demo_heap4 ! 1)) \<noteq> 0"
    "make_kuid (demo_heap4 ! 1) 0 = 1000" "make_kgid (demo_heap4 ! 1) 0 = 100" "\<not> userns_may_setgroups (demo_heap4 ! 1)" by code_simp+
  have l: "1 < length demo_heap4" by (simp add: demo_lengths)
  show ?thesis using ids_never_change [OF demo_reachable4 s l v(1,2), of 0] w ne v(3-5) by auto
qed

text \<open>
  C29. Every write to a map returns, with an error or with the number of bytes written: the search for
  capabilities climbs a finite tree, the parser reaches the end of the text, and the sorts of a large map end.
\<close>

theorem map_writes_return:
  assumes "userns_steps [init_user_ns] nss" and "env_ok env" and "ns < length nss"
    and "cred_user_ns (req_current req) < length nss" and "cred_user_ns (req_cred req) < length nss"
  shows "(\<exists>r nss'. proc_uid_map_write env lsm nss req ns = Some (r, nss')) \<and>
    (\<exists>r nss'. proc_gid_map_write env lsm nss req ns = Some (r, nss')) \<and>
    (\<exists>r nss'. proc_projid_map_write env lsm nss req ns = Some (r, nss'))"
proof (cases "ns_parent (nss ! ns)")
  case None
  then show ?thesis by (simp add: proc_uid_map_write_def proc_gid_map_write_def proc_projid_map_write_def)
next
  case (Some p)
  have ok: "heap_ok nss" by (rule reachable_heap_ok [OF assms(1)])
  have pl: "p < length nss" using node_parent [OF ok assms(3) Some] assms(3) by simp
  have r: "\<exists>r mp'. map_write env lsm nss req ns cap mp (sel (nss ! p)) = Some (r, mp')" if "sel \<in> {uid_map, gid_map, projid_map}" for sel cap mp
    by (rule map_write_returns [OF ok assms(2,3) Some assms(4,5) node_maps [OF ok pl that]])
  show ?thesis
    using r [of uid_map CAP_SETUID "uid_map (nss ! ns)"] r [of gid_map CAP_SETGID "gid_map (nss ! ns)"]
      r [of projid_map "- 1" "projid_map (nss ! ns)"]
    by (auto simp: proc_uid_map_write_def proc_gid_map_write_def proc_projid_map_write_def Some Let_def)
qed

theorem map_writes_return_witness:
  "\<exists>r nss'. proc_uid_map_write demo_env all_allow demo_heap4 (demo_request demo_uid_text) 1 = Some (r, nss')"
proof -
  have l: "1 < length demo_heap4" "cred_user_ns (req_current (demo_request demo_uid_text)) < length demo_heap4"
    "cred_user_ns (req_cred (demo_request demo_uid_text)) < length demo_heap4"
    by (simp_all add: demo_lengths demo_request_def demo_root_cred_def set_cred_user_ns_def)
  show ?thesis using map_writes_return [OF demo_reachable4 demo_env_ok l] by simp
qed

end
