(* ===== verification/Vsprintf.thy ===== *)
theory Vsprintf
  imports Kstrtox "HOL-Library.Monad_Syntax"
begin

text \<open>
  Printing of decimal numbers from \<^verbatim>\<open>lib/vsprintf.c\<close>: both versions of \<^verbatim>\<open>put_dec\<close>, with the table of digit
  pairs and the divisions by multiplication, and \<^verbatim>\<open>num_to_str\<close>. The text is the decimal representation, which the
  conversions of \<open>Kstrtox\<close> read back.
\<close>

unbundle bit_operations_syntax

section \<open>The code\<close>

text \<open>The table of digit pairs. A pair is stored with its low byte, the ones, first.\<close>

definition decpair :: "u16 list" where
  "decpair = map (\<lambda>x. ((x mod 10) OR push_bit 8 (x div 10)) + 0x3030) (map word_of_nat [0..<100])"

definition store16 :: "cstr \<Rightarrow> nat \<Rightarrow> u16 \<Rightarrow> cstr option" where
  "store16 buf pos w = (if pos + 2 \<le> length buf then Some (buf[pos := ucast w, pos + 1 := ucast (drop_bit 8 w)]) else None)"

definition put_pair :: "cstr \<Rightarrow> nat \<Rightarrow> u32 \<Rightarrow> cstr option" where
  "put_pair buf pos r = (if unat r < length decpair then store16 buf pos (decpair ! unat r) else None)"

definition out_r :: "cstr \<Rightarrow> nat \<Rightarrow> u32 \<Rightarrow> (cstr \<times> nat) option" where
  "out_r buf pos r = do { buf \<leftarrow> put_pair buf pos r; Some (buf, pos + (if r < 10 then 1 else 2)) }"

definition put_dec_trunc8 :: "cstr \<Rightarrow> nat \<Rightarrow> u32 \<Rightarrow> (cstr \<times> nat) option" where
  "put_dec_trunc8 buf pos r =
    (if r < 100 then out_r buf pos r
     else let q = ucast (drop_bit 32 (ucast r * 0x28f5c29 :: u64)) in
       do {
         buf \<leftarrow> put_pair buf pos (r - 100 * q);
         if q < 100 then out_r buf (pos + 2) q
         else let r = ucast (drop_bit 32 (ucast q * 0x28f5c29 :: u64)) in
           do {
             buf \<leftarrow> put_pair buf (pos + 2) (q - 100 * r);
             if r < 100 then out_r buf (pos + 4) r
             else let q = drop_bit 19 (r * 0x147b) in
               do {
                 buf \<leftarrow> put_pair buf (pos + 4) (r - 100 * q);
                 out_r buf (pos + 6) q
               }
           }
       })"

definition put_dec_full8 :: "cstr \<Rightarrow> nat \<Rightarrow> u32 \<Rightarrow> (cstr \<times> nat) option" where
  "put_dec_full8 buf pos r =
    (let q = ucast (drop_bit 32 (ucast r * 0x28f5c29 :: u64)) in
     do {
       buf \<leftarrow> put_pair buf pos (r - 100 * q);
       let r = ucast (drop_bit 32 (ucast q * 0x28f5c29 :: u64)) in
       do {
         buf \<leftarrow> put_pair buf (pos + 2) (q - 100 * r);
         let q = drop_bit 19 (r * 0x147b) in
         do {
           buf \<leftarrow> put_pair buf (pos + 4) (r - 100 * q);
           buf \<leftarrow> put_pair buf (pos + 6) q;
           Some (buf, pos + 8)
         }
       }
     })"

text \<open>The version for 64 bit machines: up to two groups of eight digits, then the rest.\<close>

definition put_dec_group :: "cstr \<times> nat \<times> u64 \<Rightarrow> (cstr \<times> nat \<times> u64) option" where
  "put_dec_group s =
    (case s of (buf, pos, n) \<Rightarrow>
      if n \<ge> 100000000 then map_option (\<lambda>(buf, pos). (buf, pos, n div 100000000)) (put_dec_full8 buf pos (ucast (n mod 100000000)))
      else Some (buf, pos, n))"

definition put_dec :: "cstr \<Rightarrow> nat \<Rightarrow> u64 \<Rightarrow> (cstr \<times> nat) option" where
  "put_dec buf pos n =
    do {
      s \<leftarrow> put_dec_group (buf, pos, n);
      (buf, pos, n) \<leftarrow> put_dec_group s;
      put_dec_trunc8 buf pos (ucast n)
    }"

text \<open>The version for 32 bit machines, with 32 bit products of the 16 bit pieces of the number.\<close>

definition put_dec_full4 :: "cstr \<Rightarrow> nat \<Rightarrow> u32 \<Rightarrow> cstr option" where
  "put_dec_full4 buf pos r =
    (let q = drop_bit 19 (r * 0x147b) in
     do { buf \<leftarrow> put_pair buf pos (r - 100 * q); put_pair buf (pos + 2) q })"

definition put_dec_helper4 :: "cstr \<Rightarrow> nat \<Rightarrow> u32 \<Rightarrow> (cstr \<times> u32) option" where
  "put_dec_helper4 buf pos x =
    (let q = ucast (drop_bit 43 (ucast x * 0x346DC5D7 :: u64)) in
     map_option (\<lambda>buf. (buf, q)) (put_dec_full4 buf pos (x - q * 10000)))"

fun strip_zeros :: "cstr \<Rightarrow> nat \<Rightarrow> nat option" where
  "strip_zeros buf 0 = None"
| "strip_zeros buf (Suc pos) = (if buf ! pos = 48 then strip_zeros buf pos else Some (Suc pos))"

definition put_dec_32bit :: "cstr \<Rightarrow> nat \<Rightarrow> u64 \<Rightarrow> (cstr \<times> nat) option" where
  "put_dec_32bit buf pos n =
    (if n < 100000000 then put_dec_trunc8 buf pos (ucast n)
     else
       let d1 = drop_bit 16 (ucast n :: u32); h = (ucast (drop_bit 32 n) :: u32); d2 = h AND 0xffff; d3 = drop_bit 16 h;
           q = 656 * d3 + 7296 * d2 + 5536 * d1 + ((ucast n :: u32) AND 0xffff)
       in do {
         (buf, q) \<leftarrow> put_dec_helper4 buf pos q;
         (buf, q) \<leftarrow> put_dec_helper4 buf (pos + 4) (q + (7671 * d3 + 9496 * d2 + 6 * d1));
         (buf, q) \<leftarrow> put_dec_helper4 buf (pos + 8) (q + (4749 * d3 + 42 * d2));
         let q = q + 281 * d3 in
         if q \<noteq> 0 then put_dec_trunc8 buf (pos + 12) q
         else map_option (\<lambda>p. (buf, p)) (strip_zeros buf (pos + 12))
       })"

text \<open>
  The result of \<^verbatim>\<open>num_to_str\<close> and the buffer; \<open>tmp\<close> is the contents of the array on the stack before it is
  written. A write outside of either buffer is \<open>None\<close>. \<open>long64\<close> selects the version of \<^verbatim>\<open>put_dec\<close>.
\<close>

definition num_to_str :: "bool \<Rightarrow> cstr \<Rightarrow> cstr \<Rightarrow> s32 \<Rightarrow> u64 \<Rightarrow> u32 \<Rightarrow> (s32 \<times> cstr) option" where
  "num_to_str long64 tmp buf sz num width =
    do {
      (tmp, len) \<leftarrow> (if num \<le> 9 then (if 0 < length tmp then Some (tmp[0 := 48 + ucast num], 1) else None)
                     else if long64 then put_dec tmp 0 num else put_dec_32bit tmp 0 num);
      let slen = word_of_nat len :: s32 in
      if sz <s slen \<or> width > sz then Some (0, buf)
      else
        let pad = (if width > slen then unat (width - slen) else 0) in
        if pad + len \<le> length buf
        then Some (slen + word_of_nat pad, replicate pad 32 @ rev (take len tmp) @ drop (pad + len) buf)
        else None
    }"

section \<open>Digits\<close>

text \<open>The lowest \<open>k\<close> digits of a number and all its digits, the ones first as the code writes them.\<close>

definition digit :: "nat \<Rightarrow> u8" where
  "digit d = word_of_nat (48 + d)"

definition digs :: "nat \<Rightarrow> nat \<Rightarrow> cstr" where
  "digs k n = map (\<lambda>i. digit (n div 10 ^ i mod 10)) [0..<k]"

definition rdigits :: "nat \<Rightarrow> cstr" where
  "rdigits n = rev (print_nat n)"

lemma digs_length [simp]: "length (digs k n) = k"
  by (simp add: digs_def)

lemma digs_append: "digs (a + b) n = digs a n @ digs b (n div 10 ^ a)"
  by (rule nth_equalityI) (auto simp: digs_def nth_append simp flip: div_mult2_eq power_add)

lemma digs_mod: "k \<le> j \<Longrightarrow> digs k (n mod 10 ^ j) = digs k n"
proof (rule nth_equalityI)
  fix i assume "k \<le> j" "i < length (digs k (n mod 10 ^ j))"
  then have i: "i < k" "i < j" by simp_all
  have "(n mod 10 ^ j) div 10 ^ i mod 10 = n div 10 ^ i mod 10"
  proof -
    have j: "(10 :: nat) ^ j = 10 ^ i * (10 * 10 ^ (j - i - 1))" using i(2) by (simp flip: power_add power_Suc)
    have "n mod 10 ^ j div 10 ^ i = n div 10 ^ i mod (10 * 10 ^ (j - i - 1))"
      unfolding j by (simp add: mod_mult2_eq)
    then show ?thesis by (simp add: mod_mod_cancel)
  qed
  then show "digs k (n mod 10 ^ j) ! i = digs k n ! i" using i by (simp add: digs_def)
qed simp

lemma rdigits_simps:
  "n < 10 \<Longrightarrow> rdigits n = [digit n]" "10 \<le> n \<Longrightarrow> rdigits n = digit (n mod 10) # rdigits (n div 10)"
  by (simp_all add: rdigits_def digit_def print_nat.simps [of n])

lemma digs_Suc: "digs (Suc k) n = digit (n mod 10) # digs k (n div 10)"
  using digs_append [of 1 k n] by (simp add: digs_def)

lemma rdigits_append: "10 ^ a \<le> n \<Longrightarrow> rdigits n = digs a n @ rdigits (n div 10 ^ a)"
proof (induction a arbitrary: n)
  case 0
  then show ?case by (simp add: digs_def)
next
  case (Suc a)
  have "10 ^ a \<le> n div 10" using Suc.prems by (simp add: less_eq_div_iff_mult_less_eq mult.commute)
  moreover have "10 \<le> n" using Suc.prems le_trans [of 10 "10 * 10 ^ a" n] by simp
  ultimately show ?case using Suc.IH [of "n div 10"] by (simp add: rdigits_simps(2) digs_Suc div_mult2_eq)
qed

lemma rdigits_pair: "n < 100 \<Longrightarrow> rdigits n = (if n < 10 then take 1 (digs 2 n) else digs 2 n)"
  by (simp add: rdigits_simps digs_def numeral_2_eq_2)

lemma rdigits_nonempty [simp]: "0 < length (rdigits n)"
  by (cases "n < 10") (simp_all add: rdigits_simps)

lemma rdigits_prefix: "0 < n \<Longrightarrow> n < 10 ^ k \<Longrightarrow> length (rdigits n) \<le> k \<and> rdigits n = take (length (rdigits n)) (digs k n)"
proof (induction k arbitrary: n)
  case (Suc k)
  show ?case
  proof (cases "n < 10")
    case True
    then show ?thesis by (simp add: rdigits_simps digs_Suc)
  next
    case False
    have "n div 10 < 10 ^ k" using Suc.prems(2) by (simp add: div_less_iff_less_mult mult.commute)
    moreover have "0 < n div 10" using False by simp
    ultimately show ?thesis using False Suc.IH [of "n div 10"] by (simp add: rdigits_simps(2) digs_Suc)
  qed
qed simp

section \<open>Divisions by multiplication\<close>

lemma div_100_nat: "x < 1073741800 \<Longrightarrow> x * 0x28f5c29 div 2 ^ 32 = x div (100 :: nat)"
proof (rule div_nat_eqI)
  assume x: "x < 1073741800"
  have s: "x = 100 * (x div 100) + x mod 100" "x mod 100 \<le> 99" by (simp_all add: less_Suc_eq_le[symmetric])
  show "2 ^ 32 * (x div 100) \<le> x * 0x28f5c29" "x * 0x28f5c29 < 2 ^ 32 * Suc (x div 100)" using x s by simp_all
qed

lemma div_100_small: "x < 43600 \<Longrightarrow> x * 0x147b div 2 ^ 19 = x div (100 :: nat)"
proof (rule div_nat_eqI)
  assume x: "x < 43600"
  have s: "x = 100 * (x div 100) + x mod 100" "x mod 100 \<le> 99" by (simp_all add: less_Suc_eq_le[symmetric])
  show "2 ^ 19 * (x div 100) \<le> x * 0x147b" "x * 0x147b < 2 ^ 19 * Suc (x div 100)" using x s by simp_all
qed

lemma div_10000_nat: "x < 1128860000 \<Longrightarrow> x * 0x346DC5D7 div 2 ^ 43 = x div (10000 :: nat)"
proof (rule div_nat_eqI)
  assume x: "x < 1128860000"
  have s: "x = 10000 * (x div 10000) + x mod 10000" "x mod 10000 \<le> 9999" by (simp_all add: less_Suc_eq_le[symmetric])
  show "2 ^ 43 * (x div 10000) \<le> x * 0x346DC5D7" "x * 0x346DC5D7 < 2 ^ 43 * Suc (x div 10000)" using x s by simp_all
qed

lemma unat_ucast_32: "unat (x :: u64) < 2 ^ 32 \<Longrightarrow> unat (ucast x :: u32) = unat x"
  by (simp add: unsigned_ucast_eq take_bit_nat_eq_self)

lemma unat_mult_small: "unat x * unat y < 2 ^ LENGTH('a) \<Longrightarrow> unat (x * y :: 'a::len word) = unat x * unat y"
  by (simp add: unat_word_ariths)

lemma div_100_word: "unat (r :: u32) < 100000000 \<Longrightarrow> unat (ucast (drop_bit 32 (ucast r * 0x28f5c29 :: u64)) :: u32) = unat r div 100"
proof -
  assume r: "unat r < 100000000"
  have m: "unat (ucast r * 0x28f5c29 :: u64) = unat r * 0x28f5c29"
    using r unat_mult_small [of "ucast r :: u64" "0x28f5c29"] by (simp add: unat_ucast_64)
  have d: "unat (drop_bit 32 (ucast r * 0x28f5c29 :: u64)) = unat r div 100"
    unfolding unat_drop_bit_eq m using r by (simp only: drop_bit_eq_div div_100_nat)
  then show ?thesis using r by (subst unat_ucast_32) (simp_all add: d)
qed

lemma div_100_word_small: "unat (r :: u32) < 10000 \<Longrightarrow> unat (drop_bit 19 (r * 0x147b) :: u32) = unat r div 100"
proof -
  assume r: "unat r < 10000"
  have m: "unat (r * 0x147b) = unat r * 0x147b" using r unat_mult_small [of r "0x147b"] by simp
  show ?thesis unfolding unat_drop_bit_eq m using r by (simp only: drop_bit_eq_div div_100_small)
qed

lemma div_10000_word: "unat (x :: u32) < 1128860000 \<Longrightarrow> unat (ucast (drop_bit 43 (ucast x * 0x346DC5D7 :: u64)) :: u32) = unat x div 10000"
proof -
  assume x: "unat x < 1128860000"
  have m: "unat (ucast x * 0x346DC5D7 :: u64) = unat x * 0x346DC5D7"
    using x unat_mult_small [of "ucast x :: u64" "0x346DC5D7"] by (simp add: unat_ucast_64)
  have d: "unat (drop_bit 43 (ucast x * 0x346DC5D7 :: u64)) = unat x div 10000"
    unfolding unat_drop_bit_eq m by (simp only: drop_bit_eq_div div_10000_nat [OF x])
  then show ?thesis using x by (subst unat_ucast_32) (simp_all add: d)
qed

lemma rest_word:
  assumes "unat q = unat r div d" "unat (d' :: u32) = d" "0 < d"
  shows "unat (r - d' * q) = unat r mod d" "unat (r - q * d') = unat r mod d"
proof -
  have le: "d * (unat r div d) \<le> unat r" by simp
  have "d * (unat r div d) < 2 ^ 32" using le_less_trans [OF le] unsigned_less [of r, where 'a = nat] by simp
  then have m: "unat (d' * q) = d * (unat r div d)" using unat_mult_small [of d' q] assms by simp
  then have "d' * q \<le> r" using le by (simp add: word_le_nat_alt)
  then show e: "unat (r - d' * q) = unat r mod d" using m by (simp add: unat_sub minus_div_mult_eq_mod [symmetric] mult.commute)
  then show "unat (r - q * d') = unat r mod d" by (simp add: mult.commute)
qed

section \<open>What the buffer holds\<close>

text \<open>The text up to a position has been extended, and nothing before it has changed.\<close>

definition appended :: "cstr \<Rightarrow> nat \<Rightarrow> cstr \<Rightarrow> cstr \<Rightarrow> bool" where
  "appended buf pos ds buf' \<longleftrightarrow> length buf' = length buf \<and> pos + length ds \<le> length buf \<and> take (pos + length ds) buf' = take pos buf @ ds"

lemma appended_trans:
  "appended buf pos ds b \<Longrightarrow> appended b (pos + length ds) es b' \<Longrightarrow> appended buf pos (ds @ es) b'"
  by (simp add: appended_def add.assoc)

lemma appended_prefix:
  assumes "appended buf pos ds b" "n \<le> length ds"
  shows "appended buf pos (take n ds) b"
proof -
  have l: "pos + n \<le> pos + length ds" "pos \<le> length buf" using assms by (simp_all add: appended_def)
  have "take (pos + n) b = take (pos + n) (take (pos + length ds) b)" using l by (simp add: min_absorb1)
  also have "\<dots> = take pos buf @ take n ds" using assms l by (simp add: appended_def)
  finally show ?thesis using assms by (simp add: appended_def)
qed

lemma decpair_digits:
  assumes "i < 100"
  shows "length decpair = 100" "ucast (decpair ! i) = digit (i mod 10)" "ucast (drop_bit 8 (decpair ! i)) = digit (i div 10)"
proof -
  have l: "length decpair = 100" by (simp add: decpair_def)
  have m: "map ucast decpair = map (\<lambda>i. digit (i mod 10)) [0..<100]" "map (\<lambda>w. ucast (drop_bit 8 w)) decpair = map (\<lambda>i. digit (i div 10)) [0..<100]"
    by code_simp+
  show "length decpair = 100" "ucast (decpair ! i) = digit (i mod 10)" "ucast (drop_bit 8 (decpair ! i)) = digit (i div 10)"
    using assms l arg_cong [OF m(1), where f = "\<lambda>xs. xs ! i"] arg_cong [OF m(2), where f = "\<lambda>xs. xs ! i"] by simp_all
qed

lemma digs_2: "digs 2 n = [digit (n mod 10), digit (n div 10 mod 10)]"
  by (simp add: digs_def numeral_2_eq_2)

lemma put_pair_appends:
  assumes "unat r < 100" "pos + 2 \<le> length buf"
  obtains b where "put_pair buf pos r = Some b" "appended buf pos (digs 2 (unat r)) b"
proof
  let ?b = "buf[pos := digit (unat r mod 10), pos + 1 := digit (unat r div 10)]"
  show "put_pair buf pos r = Some ?b" using assms by (simp add: put_pair_def store16_def decpair_digits)
  have "take (pos + 2) ?b = take pos buf @ [digit (unat r mod 10), digit (unat r div 10)]"
    by (rule nth_equalityI) (use assms in \<open>auto simp: nth_append nth_list_update nth_Cons split: nat.splits\<close>)
  then show "appended buf pos (digs 2 (unat r)) ?b" using assms by (simp add: appended_def digs_2)
qed

lemma out_r_appends:
  assumes "unat r < 100" "pos + 2 \<le> length buf"
  shows "\<exists>b. out_r buf pos r = Some (b, pos + length (rdigits (unat r))) \<and> appended buf pos (rdigits (unat r)) b"
proof -
  obtain b where b: "put_pair buf pos r = Some b" "appended buf pos (digs 2 (unat r)) b" by (rule put_pair_appends [OF assms])
  have "appended buf pos (rdigits (unat r)) b"
    using appended_prefix [OF b(2), of 1] b(2) by (simp add: rdigits_pair [OF assms(1)])
  moreover have "out_r buf pos r = Some (b, pos + length (rdigits (unat r)))"
    using b(1) assms(1) by (simp add: out_r_def rdigits_pair word_less_nat_alt)
  ultimately show ?thesis by blast
qed

lemma digs_2_mod: "digs 2 (n mod 100) = digs 2 n"
  using digs_mod [of 2 2 n] by simp

lemma rdigits_100: "100 \<le> n \<Longrightarrow> rdigits n = digs 2 n @ rdigits (n div 100)"
  using rdigits_append [of 2 n] by simp

text \<open>Writing two digits and going on with the rest, for a number without leading zeros and for a fixed width.\<close>

lemma put_pair_step:
  assumes q: "unat q = unat r div 100" and room: "pos + 2 \<le> length buf" and p: "p = pos + 2"
    and cont: "\<And>b1. length b1 = length buf \<Longrightarrow> \<exists>b. k b1 = Some (b, p + length es) \<and> appended b1 p es b"
  shows "\<exists>b. (put_pair buf pos (r - 100 * q) \<bind> k) = Some (b, pos + length (digs 2 (unat r) @ es)) \<and> appended buf pos (digs 2 (unat r) @ es) b"
proof -
  have rest: "unat (r - 100 * q) = unat r mod 100" by (rule rest_word) (simp_all add: q)
  obtain b1 where b1: "put_pair buf pos (r - 100 * q) = Some b1" "appended buf pos (digs 2 (unat r)) b1"
    using put_pair_appends [OF _ room, of "r - 100 * q"] unfolding rest digs_2_mod by (metis mod_less_divisor zero_less_numeral)
  obtain b where b: "k b1 = Some (b, pos + 2 + length es)" "appended b1 (pos + 2) es b"
    using cont [of b1] b1(2) p by (auto simp: appended_def)
  show ?thesis using b1 b appended_trans [OF b1(2), of es b] by simp
qed

lemma trunc_step:
  assumes n: "\<not> unat r < 100" and q: "unat q = unat r div 100" and room: "pos + 2 \<le> length buf" and p: "p = pos + 2"
    and cont: "\<And>b1. length b1 = length buf \<Longrightarrow> \<exists>b. k b1 = Some (b, p + length (rdigits (unat q))) \<and> appended b1 p (rdigits (unat q)) b"
  shows "\<exists>b. (put_pair buf pos (r - 100 * q) \<bind> k) = Some (b, pos + length (rdigits (unat r))) \<and> appended buf pos (rdigits (unat r)) b"
  using put_pair_step [OF q room p cont] rdigits_100 [of "unat r"] n q by simp

lemma put_dec_trunc8_appends:
  assumes r: "unat r < 100000000" and room: "pos + 8 \<le> length buf"
  shows "\<exists>b. put_dec_trunc8 buf pos r = Some (b, pos + length (rdigits (unat r))) \<and> appended buf pos (rdigits (unat r)) b"
proof (cases "unat r < 100")
  case True
  then show ?thesis using out_r_appends [OF True, of pos buf] room by (simp add: put_dec_trunc8_def word_less_nat_alt)
next
  case False
  define q where "q = (ucast (drop_bit 32 (ucast r * 0x28f5c29 :: u64)) :: u32)"
  define r1 where "r1 = (ucast (drop_bit 32 (ucast q * 0x28f5c29 :: u64)) :: u32)"
  define q1 where "q1 = (drop_bit 19 (r1 * 0x147b) :: u32)"
  have q: "unat q = unat r div 100" unfolding q_def by (rule div_100_word [OF r])
  have ql: "unat q < 100000000" "unat q < 1000000" using q r by (simp_all add: div_less_iff_less_mult)
  have r1: "unat r1 = unat q div 100" unfolding r1_def by (rule div_100_word [OF ql(1)])
  have r1l: "unat r1 < 10000" using r1 ql by (simp add: div_less_iff_less_mult)
  have q1: "unat q1 = unat r1 div 100" unfolding q1_def by (rule div_100_word_small [OF r1l])
  have q1l: "unat q1 < 100" using q1 r1l by (simp add: div_less_iff_less_mult)
  define k3 where "k3 b = out_r b (pos + 6) q1" for b
  define k2 where "k2 b = (if r1 < 100 then out_r b (pos + 4) r1 else put_pair b (pos + 4) (r1 - 100 * q1) \<bind> k3)" for b
  define k1 where "k1 b = (if q < 100 then out_r b (pos + 2) q else put_pair b (pos + 2) (q - 100 * r1) \<bind> k2)" for b
  have c3: "\<exists>b. k3 b1 = Some (b, pos + 6 + length (rdigits (unat q1))) \<and> appended b1 (pos + 6) (rdigits (unat q1)) b" if "length b1 = length buf" for b1
    using out_r_appends [OF q1l, of "pos + 6" b1] room that by (simp add: k3_def)
  have c2: "\<exists>b. k2 b1 = Some (b, pos + 4 + length (rdigits (unat r1))) \<and> appended b1 (pos + 4) (rdigits (unat r1)) b" if b1: "length b1 = length buf" for b1
  proof (cases "unat r1 < 100")
    case True
    then show ?thesis using out_r_appends [OF True, of "pos + 4" b1] room b1 by (simp add: k2_def word_less_nat_alt)
  next
    case False
    have "\<exists>b. (put_pair b1 (pos + 4) (r1 - 100 * q1) \<bind> k3) = Some (b, pos + 4 + length (rdigits (unat r1))) \<and> appended b1 (pos + 4) (rdigits (unat r1)) b"
      by (rule trunc_step [OF False q1 _ _ c3]) (use room b1 in auto)
    then show ?thesis using False by (simp add: k2_def word_less_nat_alt)
  qed
  have c1: "\<exists>b. k1 b1 = Some (b, pos + 2 + length (rdigits (unat q))) \<and> appended b1 (pos + 2) (rdigits (unat q)) b" if b1: "length b1 = length buf" for b1
  proof (cases "unat q < 100")
    case True
    then show ?thesis using out_r_appends [OF True, of "pos + 2" b1] room b1 by (simp add: k1_def word_less_nat_alt)
  next
    case False
    have "\<exists>b. (put_pair b1 (pos + 2) (q - 100 * r1) \<bind> k2) = Some (b, pos + 2 + length (rdigits (unat q))) \<and> appended b1 (pos + 2) (rdigits (unat q)) b"
      by (rule trunc_step [OF False r1 _ _ c2]) (use room b1 in auto)
    then show ?thesis using False by (simp add: k1_def word_less_nat_alt)
  qed
  have "put_dec_trunc8 buf pos r = (put_pair buf pos (r - 100 * q) \<bind> k1)"
    using False unfolding k1_def k2_def k3_def put_dec_trunc8_def Let_def q1_def r1_def q_def by (simp add: word_less_nat_alt)
  moreover have "\<exists>b. (put_pair buf pos (r - 100 * q) \<bind> k1) = Some (b, pos + length (rdigits (unat r))) \<and> appended buf pos (rdigits (unat r)) b"
    by (rule trunc_step [OF False q _ _ c1]) (use room in auto)
  ultimately show ?thesis by simp
qed

lemma digs_add: "unat q = unat r div 100 \<Longrightarrow> digs 2 (unat r) @ digs k (unat q) = digs (2 + k) (unat r)"
  using digs_append [of 2 k "unat r"] by simp

lemma put_dec_full8_appends:
  assumes r: "unat r < 100000000" and room: "pos + 8 \<le> length buf"
  shows "\<exists>b. put_dec_full8 buf pos r = Some (b, pos + 8) \<and> appended buf pos (digs 8 (unat r)) b"
proof -
  define q where "q = (ucast (drop_bit 32 (ucast r * 0x28f5c29 :: u64)) :: u32)"
  define r1 where "r1 = (ucast (drop_bit 32 (ucast q * 0x28f5c29 :: u64)) :: u32)"
  define q1 where "q1 = (drop_bit 19 (r1 * 0x147b) :: u32)"
  have q: "unat q = unat r div 100" unfolding q_def by (rule div_100_word [OF r])
  have ql: "unat q < 100000000" "unat q < 1000000" using q r by (simp_all add: div_less_iff_less_mult)
  have r1: "unat r1 = unat q div 100" unfolding r1_def by (rule div_100_word [OF ql(1)])
  have r1l: "unat r1 < 10000" using r1 ql by (simp add: div_less_iff_less_mult)
  have q1: "unat q1 = unat r1 div 100" unfolding q1_def by (rule div_100_word_small [OF r1l])
  have q1l: "unat q1 < 100" using q1 r1l by (simp add: div_less_iff_less_mult)
  define k3 where "k3 b = (put_pair b (pos + 6) q1 \<bind> (\<lambda>b. Some (b, pos + 8)))" for b
  define k2 where "k2 b = (put_pair b (pos + 4) (r1 - 100 * q1) \<bind> k3)" for b
  define k1 where "k1 b = (put_pair b (pos + 2) (q - 100 * r1) \<bind> k2)" for b
  have c3: "\<exists>b. k3 b1 = Some (b, pos + 6 + length (digs 2 (unat q1))) \<and> appended b1 (pos + 6) (digs 2 (unat q1)) b" if "length b1 = length buf" for b1
  proof -
    have "pos + 6 + 2 \<le> length b1" using room that by simp
    then obtain b where "put_pair b1 (pos + 6) q1 = Some b" "appended b1 (pos + 6) (digs 2 (unat q1)) b"
      by (rule put_pair_appends [OF q1l])
    then show ?thesis by (simp add: k3_def)
  qed
  have d: "digs 4 (unat r1) = digs 2 (unat r1) @ digs 2 (unat q1)" "digs 6 (unat q) = digs 2 (unat q) @ digs 4 (unat r1)"
    "digs 8 (unat r) = digs 2 (unat r) @ digs 6 (unat q)"
    using digs_add [OF q1, of 2] digs_add [OF r1, of 4] digs_add [OF q, of 6] by simp_all
  have c2: "\<exists>b. k2 b1 = Some (b, pos + 4 + length (digs 4 (unat r1))) \<and> appended b1 (pos + 4) (digs 4 (unat r1)) b"
    if "length b1 = length buf" for b1
    unfolding k2_def d(1) by (rule put_pair_step [OF q1 _ _ c3]) (use room that in auto)
  have c1: "\<exists>b. k1 b1 = Some (b, pos + 2 + length (digs 6 (unat q))) \<and> appended b1 (pos + 2) (digs 6 (unat q)) b"
    if "length b1 = length buf" for b1
    unfolding k1_def d(2) by (rule put_pair_step [OF r1 _ _ c2]) (use room that in auto)
  have "put_dec_full8 buf pos r = (put_pair buf pos (r - 100 * q) \<bind> k1)"
    unfolding k1_def k2_def k3_def put_dec_full8_def Let_def q1_def r1_def q_def by simp
  moreover have "\<exists>b. (put_pair buf pos (r - 100 * q) \<bind> k1) = Some (b, pos + length (digs 8 (unat r))) \<and> appended buf pos (digs 8 (unat r)) b"
    unfolding d(3) by (rule put_pair_step [OF q _ _ c1]) (use room in auto)
  ultimately show ?thesis by simp
qed

section \<open>The two versions of put\_dec\<close>

lemma digs_cong: "a mod 10 ^ k = b mod 10 ^ k \<Longrightarrow> digs k a = digs k b"
  using digs_mod [of k k a] digs_mod [of k k b] by simp

definition low8 :: "u64 \<Rightarrow> cstr" where
  "low8 n = (if n \<ge> 100000000 then digs 8 (unat n) else [])"

definition high8 :: "u64 \<Rightarrow> u64" where
  "high8 n = (if n \<ge> 100000000 then n div 100000000 else n)"

lemma low8_length: "length (low8 n) \<le> 8"
  by (simp add: low8_def)

lemma put_dec_group_appends:
  assumes room: "pos + 8 \<le> length buf"
  shows "\<exists>b. put_dec_group (buf, pos, n) = Some (b, pos + length (low8 n), high8 n) \<and> appended buf pos (low8 n) b"
proof (cases "n \<ge> 100000000")
  case True
  have m: "unat (n mod 100000000) = unat n mod 100000000" by (simp add: unat_mod)
  have u: "unat (ucast (n mod 100000000) :: u32) = unat n mod 100000000"
    by (subst unat_ucast_32) (simp_all add: m less_trans [OF mod_less_divisor])
  then have r: "unat (ucast (n mod 100000000) :: u32) < 100000000" by simp
  have d: "digs 8 (unat n mod 100000000) = digs 8 (unat n)" using digs_mod [of 8 8 "unat n"] by simp
  obtain b where b: "put_dec_full8 buf pos (ucast (n mod 100000000)) = Some (b, pos + 8)" "appended buf pos (digs 8 (unat n)) b"
    using put_dec_full8_appends [OF r room] unfolding u d by blast
  show ?thesis by (rule exI [of _ b]) (use b True in \<open>simp add: put_dec_group_def low8_def high8_def\<close>)
next
  case False
  then show ?thesis using room by (simp add: put_dec_group_def appended_def low8_def high8_def)
qed

lemma rdigits_low8: "rdigits (unat n) = low8 n @ rdigits (unat (high8 n))"
  using rdigits_append [of 8 "unat n"] by (simp add: low8_def high8_def word_le_nat_alt unat_div)

lemma high8_small: "unat (high8 (high8 n)) < 100000000"
  using unsigned_less [of n, where 'a = nat] by (auto simp: high8_def word_le_nat_alt unat_div div_less_iff_less_mult)

lemma put_dec_appends:
  assumes room: "pos + 24 \<le> length buf"
  shows "\<exists>b. put_dec buf pos n = Some (b, pos + length (rdigits (unat n))) \<and> appended buf pos (rdigits (unat n)) b"
proof -
  let ?n1 = "high8 n" and ?n2 = "high8 (high8 n)"
  have room1: "pos + 8 \<le> length buf" using room by simp
  obtain b1 where g1: "put_dec_group (buf, pos, n) = Some (b1, pos + length (low8 n), ?n1)" "appended buf pos (low8 n) b1"
    using put_dec_group_appends [OF room1] by blast
  have room2: "pos + length (low8 n) + 8 \<le> length b1" using g1(2) room low8_length [of n] by (simp add: appended_def)
  obtain b2 where g2: "put_dec_group (b1, pos + length (low8 n), ?n1) = Some (b2, pos + length (low8 n) + length (low8 ?n1), ?n2)"
    "appended b1 (pos + length (low8 n)) (low8 ?n1) b2"
    using put_dec_group_appends [OF room2] by blast
  have room3: "pos + length (low8 n) + length (low8 ?n1) + 8 \<le> length b2"
    using g1(2) g2(2) room low8_length [of n] low8_length [of ?n1] by (simp add: appended_def)
  have c: "unat (ucast ?n2 :: u32) = unat ?n2" using high8_small [of n] by (simp add: unat_ucast_32)
  have small: "unat (ucast ?n2 :: u32) < 100000000" unfolding c by (rule high8_small)
  obtain b where b: "put_dec_trunc8 b2 (pos + length (low8 n) + length (low8 ?n1)) (ucast ?n2) =
      Some (b, pos + length (low8 n) + length (low8 ?n1) + length (rdigits (unat ?n2)))"
    "appended b2 (pos + length (low8 n) + length (low8 ?n1)) (rdigits (unat ?n2)) b"
    using put_dec_trunc8_appends [OF small room3] unfolding c by blast
  have rd: "rdigits (unat n) = (low8 n @ low8 ?n1) @ rdigits (unat ?n2)" using rdigits_low8 [of n] rdigits_low8 [of ?n1] by simp
  have "appended buf pos (low8 n @ low8 ?n1) b2" by (rule appended_trans [OF g1(2) g2(2)])
  then have "appended buf pos (rdigits (unat n)) b" unfolding rd by (rule appended_trans) (use b(2) in \<open>simp add: add.assoc\<close>)
  moreover have "put_dec buf pos n = Some (b, pos + length (rdigits (unat n)))"
    unfolding rd using g1(1) g2(1) b(1) by (simp add: put_dec_def)
  ultimately show ?thesis by blast
qed

lemma put_dec_helper4_appends:
  assumes x: "unat x < 1128860000" and room: "pos + 4 \<le> length buf"
  obtains b q where "put_dec_helper4 buf pos x = Some (b, q)" "unat q = unat x div 10000" "appended buf pos (digs 4 (unat x)) b"
proof -
  define q where "q = (ucast (drop_bit 43 (ucast x * 0x346DC5D7 :: u64)) :: u32)"
  have q: "unat q = unat x div 10000" unfolding q_def by (rule div_10000_word [OF x])
  define r where "r = x - q * 10000"
  have r: "unat r = unat x mod 10000" unfolding r_def by (rule rest_word [OF q]) simp_all
  define q1 where "q1 = (drop_bit 19 (r * 0x147b) :: u32)"
  have rl: "unat r < 10000" using r by simp
  have q1: "unat q1 = unat r div 100" unfolding q1_def by (rule div_100_word_small [OF rl])
  have q1l: "unat q1 < 100" using q1 rl by (simp add: div_less_iff_less_mult)
  have c: "\<exists>b. (put_pair b1 (pos + 2) q1 \<bind> (\<lambda>b. Some (b, pos + 4))) = Some (b, pos + 2 + length (digs 2 (unat q1))) \<and> appended b1 (pos + 2) (digs 2 (unat q1)) b"
    if "length b1 = length buf" for b1
  proof -
    have "pos + 2 + 2 \<le> length b1" using room that by simp
    then obtain b where "put_pair b1 (pos + 2) q1 = Some b" "appended b1 (pos + 2) (digs 2 (unat q1)) b" by (rule put_pair_appends [OF q1l])
    then show ?thesis by simp
  qed
  have "\<exists>b. (put_pair buf pos (r - 100 * q1) \<bind> (\<lambda>b. put_pair b (pos + 2) q1 \<bind> (\<lambda>b. Some (b, pos + 4)))) =
      Some (b, pos + length (digs 2 (unat r) @ digs 2 (unat q1))) \<and> appended buf pos (digs 2 (unat r) @ digs 2 (unat q1)) b"
    by (rule put_pair_step [OF q1 _ _ c]) (use room in auto)
  then obtain b where b: "(put_pair buf pos (r - 100 * q1) \<bind> (\<lambda>b. put_pair b (pos + 2) q1)) = Some b" "appended buf pos (digs 2 (unat r) @ digs 2 (unat q1)) b"
    by (auto split: Option.bind_splits)
  have "digs 2 (unat r) @ digs 2 (unat q1) = digs 4 (unat x)"
    using digs_add [OF q1, of 2] digs_mod [of 4 4 "unat x"] r by simp
  then show ?thesis
    using that [of b q] b q by (simp add: put_dec_helper4_def put_dec_full4_def Let_def q1_def r_def q_def)
qed

lemma digit_zero: "d < 10 \<Longrightarrow> digit d = 48 \<longleftrightarrow> d = 0"
proof -
  have "\<forall>d \<in> set [0..<10]. (digit d = 48) = (d = 0)" by code_simp
  then show "d < 10 \<Longrightarrow> ?thesis" by simp
qed

lemma strip_zeros_digits:
  "0 < n \<Longrightarrow> n < 10 ^ k \<Longrightarrow> take (pos + k) b = pre @ digs k n \<Longrightarrow> length pre = pos \<Longrightarrow> pos + k \<le> length b \<Longrightarrow>
    strip_zeros b (pos + k) = Some (pos + length (rdigits n))"
proof (induction k)
  case (Suc k)
  have d: "digs (Suc k) n = digs k n @ [digit (n div 10 ^ k)]"
    using Suc.prems(2) by (simp add: digs_def div_less_iff_less_mult mult.commute)
  have bk: "b ! (pos + k) = digit (n div 10 ^ k)"
    using arg_cong [OF Suc.prems(3), where f = "\<lambda>xs. xs ! (pos + k)"] Suc.prems(4) d by (simp add: nth_append)
  have l10: "n div 10 ^ k < 10" using Suc.prems(2) by (simp add: div_less_iff_less_mult mult.commute)
  show ?case
  proof (cases "n < 10 ^ k")
    case True
    have "take (pos + k) b = pre @ digs k n"
      using arg_cong [OF Suc.prems(3), where f = "take (pos + k)"] Suc.prems(4) d by (simp add: min_def)
    then show ?thesis using Suc.IH True Suc.prems bk digit_zero [OF l10] by simp
  next
    case False
    then have "n div 10 ^ k \<noteq> 0" by (simp add: div_eq_0_iff)
    moreover have "length (rdigits n) = Suc k" using rdigits_append [of k n] False l10 by (simp add: rdigits_simps(1))
    ultimately show ?thesis using bk digit_zero [OF l10] by simp
  qed
qed simp

text \<open>The four 16 bit pieces of a number, and the number as the code adds them up in groups of four digits.\<close>

lemma and_ffff: "unat (w AND 0xffff :: u32) = unat w mod 65536"
proof -
  have "w AND 0xffff = take_bit 16 w" by (simp add: take_bit_eq_mask mask_eq_exp_minus_1)
  then show ?thesis by (simp add: take_bit_eq_mod unat_mod)
qed

lemma pieces:
  fixes n :: u64
  defines "h \<equiv> (ucast (drop_bit 32 n) :: u32)"
  shows "unat n = 281474976710656 * unat (drop_bit 16 h) + 4294967296 * unat (h AND 0xffff) +
      65536 * unat (drop_bit 16 (ucast n :: u32)) + unat ((ucast n :: u32) AND 0xffff)"
    and "unat (drop_bit 16 h) < 65536" "unat (h AND 0xffff) < 65536" "unat (drop_bit 16 (ucast n :: u32)) < 65536" "unat ((ucast n :: u32) AND 0xffff) < 65536"
proof -
  have nl: "unat n < 18446744073709551616" using unsigned_less [of n, where 'a = nat] by simp
  have d: "unat (drop_bit 32 n) = unat n div 4294967296" by (simp add: drop_bit_eq_div unat_div)
  have h: "unat h = unat n div 4294967296" unfolding h_def
    by (subst unat_ucast_32) (use nl in \<open>simp_all add: d div_less_iff_less_mult\<close>)
  have l: "unat (ucast n :: u32) = unat n mod 4294967296" by (simp add: unsigned_ucast_eq take_bit_eq_mod)
  have hl: "unat h < 4294967296" "unat (ucast n :: u32) < 4294967296" using h l nl by (simp_all add: div_less_iff_less_mult)
  have s: "unat (drop_bit 16 w) = unat w div 65536" for w :: u32 by (simp add: drop_bit_eq_div unat_div)
  show "unat (drop_bit 16 h) < 65536" "unat (h AND 0xffff) < 65536" "unat (drop_bit 16 (ucast n :: u32)) < 65536" "unat ((ucast n :: u32) AND 0xffff) < 65536"
    using hl by (simp_all add: s and_ffff div_less_iff_less_mult)
  have "unat n = 4294967296 * unat h + unat (ucast n :: u32)" unfolding h l by simp
  moreover have "unat h = 65536 * (unat h div 65536) + unat h mod 65536" by simp
  moreover have "unat (ucast n :: u32) = 65536 * (unat (ucast n :: u32) div 65536) + unat (ucast n :: u32) mod 65536" by simp
  ultimately show "unat n = 281474976710656 * unat (drop_bit 16 h) + 4294967296 * unat (h AND 0xffff) +
      65536 * unat (drop_bit 16 (ucast n :: u32)) + unat ((ucast n :: u32) AND 0xffff)"
    unfolding s and_ffff by linarith
qed

lemma groups_of_four:
  fixes d0 d1 d2 d3 :: nat
  defines "n \<equiv> 281474976710656 * d3 + 4294967296 * d2 + 65536 * d1 + d0"
    and "x0 \<equiv> 656 * d3 + 7296 * d2 + 5536 * d1 + d0"
  defines "x1 \<equiv> x0 div 10000 + (7671 * d3 + 9496 * d2 + 6 * d1)"
  defines "x2 \<equiv> x1 div 10000 + (4749 * d3 + 42 * d2)"
  shows "n mod 10000 = x0 mod 10000" "n div 10000 mod 10000 = x1 mod 10000" "n div 100000000 mod 10000 = x2 mod 10000"
    "n div 1000000000000 = x2 div 10000 + 281 * d3"
proof -
  define y3 where "y3 = 281 * d3"
  define y2 where "y2 = 4749 * d3 + 42 * d2 + y3 * 10000"
  define y1 where "y1 = 7671 * d3 + 9496 * d2 + 6 * d1 + y2 * 10000"
  have n0: "n = x0 + y1 * 10000" by (simp add: n_def x0_def y1_def y2_def y3_def)
  then show "n mod 10000 = x0 mod 10000" by simp
  have n1: "n div 10000 = x1 + y2 * 10000" unfolding n0 x1_def by (simp add: y1_def)
  then show "n div 10000 mod 10000 = x1 mod 10000" by simp
  have n2: "n div 100000000 = x2 + y3 * 10000"
    using div_mult2_eq [of n 10000 10000] unfolding n1 x2_def by (simp add: y2_def)
  then show "n div 100000000 mod 10000 = x2 mod 10000" by simp
  show "n div 1000000000000 = x2 div 10000 + 281 * d3" using div_mult2_eq [of n 100000000 10000] unfolding n2 by (simp add: y3_def)
qed

lemma digs_12: "digs 4 n @ digs 4 (n div 10000) @ digs 4 (n div 100000000) = digs 12 n"
  using digs_append [of 4 8 n] digs_append [of 4 4 "n div 10000"] div_mult2_eq [of n 10000 10000] by simp

lemma digs_4_cong: "a mod 10000 = b mod 10000 \<Longrightarrow> digs 4 a = digs 4 b"
  using digs_cong [of a 4 b] by simp

lemma unat_word_of_nat: "k < 2 ^ 32 \<Longrightarrow> unat (word_of_nat k :: u32) = k"
  by (simp add: unsigned_of_nat take_bit_nat_eq_self)

lemma put_dec_32bit_groups:
  assumes room: "pos + 24 \<le> length buf" and False: "\<not> n < 100000000"
  obtains b3 x3 where "put_dec_32bit buf pos n =
      (if x3 \<noteq> 0 then put_dec_trunc8 b3 (pos + 12) x3 else map_option (\<lambda>p. (b3, p)) (strip_zeros b3 (pos + 12)))"
    "unat x3 = unat n div 1000000000000" "unat x3 < 100000000" "appended buf pos (digs 12 (unat n)) b3"
proof -
  define h where "h = (ucast (drop_bit 32 n) :: u32)"
  define d3 where "d3 = drop_bit 16 h"
  define d2 where "d2 = h AND 0xffff"
  define d1 where "d1 = drop_bit 16 (ucast n :: u32)"
  define d0 where "d0 = (ucast n :: u32) AND 0xffff"
  note p = pieces [of n, folded h_def, folded d3_def d2_def d1_def d0_def]
  define x0 where "x0 = 656 * d3 + 7296 * d2 + 5536 * d1 + d0"
  have x0: "unat x0 = 656 * unat d3 + 7296 * unat d2 + 5536 * unat d1 + unat d0"
    unfolding x0_def using p(2-5) unat_word_of_nat [of "656 * unat d3 + 7296 * unat d2 + 5536 * unat d1 + unat d0"] by simp
  have x0l: "unat x0 < 1128860000" using x0 p(2-5) by linarith
  obtain b1 q1 where h1: "put_dec_helper4 buf pos x0 = Some (b1, q1)" "unat q1 = unat x0 div 10000" "appended buf pos (digs 4 (unat x0)) b1"
    by (rule put_dec_helper4_appends [OF x0l, of pos buf]) (use room in auto)
  define x1 where "x1 = q1 + (7671 * d3 + 9496 * d2 + 6 * d1)"
  have q1l: "unat q1 \<le> 88400" using h1(2) x0 p(2-5) by linarith
  have x1: "unat x1 = unat x0 div 10000 + (7671 * unat d3 + 9496 * unat d2 + 6 * unat d1)"
    unfolding x1_def h1(2) [symmetric] using p(2-5) q1l unat_word_of_nat [of "unat q1 + (7671 * unat d3 + 9496 * unat d2 + 6 * unat d1)"] by simp
  have x1l: "unat x1 < 1128860000" using x1 q1l h1(2) p(2-5) by linarith
  have l1: "length b1 = length buf" using h1(3) by (simp add: appended_def)
  obtain b2 q2 where h2: "put_dec_helper4 b1 (pos + 4) x1 = Some (b2, q2)" "unat q2 = unat x1 div 10000" "appended b1 (pos + 4) (digs 4 (unat x1)) b2"
    by (rule put_dec_helper4_appends [OF x1l, of "pos + 4" b1]) (use room l1 in auto)
  define x2 where "x2 = q2 + (4749 * d3 + 42 * d2)"
  have q2l: "unat q2 \<le> 112886" using h2(2) x1l by linarith
  have x2: "unat x2 = unat x1 div 10000 + (4749 * unat d3 + 42 * unat d2)"
    unfolding x2_def h2(2) [symmetric] using p(2-5) q2l unat_word_of_nat [of "unat q2 + (4749 * unat d3 + 42 * unat d2)"] by simp
  have x2l: "unat x2 < 1128860000" using x2 q2l h2(2) p(2-5) by linarith
  have l2: "length b2 = length buf" using h2(3) l1 by (simp add: appended_def)
  obtain b3 q3 where h3: "put_dec_helper4 b2 (pos + 8) x2 = Some (b3, q3)" "unat q3 = unat x2 div 10000" "appended b2 (pos + 8) (digs 4 (unat x2)) b3"
    by (rule put_dec_helper4_appends [OF x2l, of "pos + 8" b2]) (use room l2 in auto)
  have l3: "length b3 = length buf" using h3(3) l2 by (simp add: appended_def)
  define x3 where "x3 = q3 + 281 * d3"
  have q3l: "unat q3 \<le> 112886" using h3(2) x2l by linarith
  have x3: "unat x3 = unat x2 div 10000 + 281 * unat d3"
    unfolding x3_def h3(2) [symmetric] using p(2-5) q3l unat_word_of_nat [of "unat q3 + 281 * unat d3"] by simp
  have x3l: "unat x3 < 100000000" using x3 q3l h3(2) p(2-5) by linarith
  note g = groups_of_four [of "unat d3" "unat d2" "unat d1" "unat d0", folded p(1) x0, folded x1, folded x2, folded x3]
  have a3: "appended buf pos (digs 12 (unat n)) b3"
    using appended_trans [OF appended_trans [OF h1(3)], of "digs 4 (unat x1)" b2 "digs 4 (unat x2)" b3] h2(3) h3(3)
      digs_4_cong [OF g(1)] digs_4_cong [OF g(2)] digs_4_cong [OF g(3)] digs_12 [of "unat n"] by (simp add: add.assoc)
  have run: "put_dec_32bit buf pos n = (if x3 \<noteq> 0 then put_dec_trunc8 b3 (pos + 12) x3 else map_option (\<lambda>p. (b3, p)) (strip_zeros b3 (pos + 12)))"
    using False h1(1) h2(1) h3(1)
    by (simp add: put_dec_32bit_def Let_def flip: h_def d0_def d1_def d2_def d3_def x0_def x1_def x2_def x3_def)
  show ?thesis by (rule that [OF run g(4) [symmetric] x3l a3])
qed

lemma put_dec_32bit_appends:
  assumes room: "pos + 24 \<le> length buf"
  shows "\<exists>b. put_dec_32bit buf pos n = Some (b, pos + length (rdigits (unat n))) \<and> appended buf pos (rdigits (unat n)) b"
proof (cases "n < 100000000")
  case True
  then have u: "unat (ucast n :: u32) = unat n" "unat n < 100000000" by (simp_all add: word_less_nat_alt unat_ucast_32)
  have room8: "pos + 8 \<le> length buf" using room by simp
  have "unat (ucast n :: u32) < 100000000" using u by simp
  from put_dec_trunc8_appends [OF this room8] show ?thesis using True u by (simp add: put_dec_32bit_def)
next
  case False
  obtain b3 x3 where run: "put_dec_32bit buf pos n =
      (if x3 \<noteq> 0 then put_dec_trunc8 b3 (pos + 12) x3 else map_option (\<lambda>p. (b3, p)) (strip_zeros b3 (pos + 12)))"
    and x3: "unat x3 = unat n div 1000000000000" and x3l: "unat x3 < 100000000" and a3: "appended buf pos (digs 12 (unat n)) b3"
    by (rule put_dec_32bit_groups [OF room False])
  have l3: "length b3 = length buf" using a3 by (simp add: appended_def)
  show ?thesis
  proof (cases "x3 = 0")
    case True
    then have "unat n < 10 ^ 12" using x3 by (simp add: div_eq_0_iff)
    moreover have "0 < unat n" using False by (simp add: word_less_nat_alt)
    ultimately have n: "0 < unat n" "unat n < 10 ^ 12" by simp_all
    have t: "take (pos + 12) b3 = take pos buf @ digs 12 (unat n)" using a3 by (simp add: appended_def)
    have "strip_zeros b3 (pos + 12) = Some (pos + length (rdigits (unat n)))"
      by (rule strip_zeros_digits [OF n t]) (use room l3 in auto)
    moreover have "appended buf pos (rdigits (unat n)) b3"
      using appended_prefix [OF a3, of "length (rdigits (unat n))"] rdigits_prefix [OF n] by simp
    ultimately show ?thesis using run True by simp
  next
    case nz: False
    have room12: "pos + 12 + 8 \<le> length b3" using room l3 by simp
    obtain b where b: "put_dec_trunc8 b3 (pos + 12) x3 = Some (b, pos + 12 + length (rdigits (unat x3)))" "appended b3 (pos + 12) (rdigits (unat x3)) b"
      using put_dec_trunc8_appends [OF x3l room12] by blast
    have "0 < unat x3" using nz by (simp add: unat_gt_0)
    then have "10 ^ 12 \<le> unat n" using x3 by (cases "unat n < 1000000000000") simp_all
    then have rd: "rdigits (unat n) = digs 12 (unat n) @ rdigits (unat x3)" using rdigits_append [of 12 "unat n"] x3 by simp
    have "appended buf pos (rdigits (unat n)) b" unfolding rd using appended_trans [OF a3] b(2) by simp
    then show ?thesis using run nz b(1) rd by simp
  qed
qed

section \<open>Properties\<close>

lemma rdigits_length: "n < 10 ^ k \<Longrightarrow> 0 < k \<Longrightarrow> length (rdigits n) \<le> k"
  using rdigits_prefix [of n k] by (cases "n = 0") (simp_all add: rdigits_simps(1))

lemma print_nat_length: "length (print_nat (unat (n :: u64))) \<le> 20"
  using rdigits_length [of "unat n" 20] unsigned_less [of n, where 'a = nat] by (simp add: rdigits_def)

lemma tmp_holds_digits:
  assumes "length tmp = 24"
  shows "\<exists>b. (if num \<le> 9 then (if 0 < length tmp then Some (tmp[0 := 48 + ucast num], 1) else None)
      else if long64 then put_dec tmp 0 num else put_dec_32bit tmp 0 num) = Some (b, length (rdigits (unat num))) \<and>
    take (length (rdigits (unat num))) b = rdigits (unat num)"
proof (cases "num \<le> 9")
  case True
  then have n: "unat num < 10" by (simp add: word_le_nat_alt)
  have "(48 + ucast num :: u8) = digit (unat num)" by (simp add: digit_def)
  then show ?thesis using True n assms by (simp add: rdigits_simps(1) take_Suc_conv_app_nth)
next
  case False
  have room: "0 + 24 \<le> length tmp" using assms by simp
  show ?thesis using False put_dec_appends [OF room, of num] put_dec_32bit_appends [OF room, of num] by (auto simp: appended_def)
qed

lemma num_to_str_text:
  fixes num :: u64 and width :: u32 and sz :: s32
  defines "d \<equiv> print_nat (unat num)"
  defines "pad \<equiv> unat width - length d"
  assumes tmp: "length tmp = 24" and buf: "sint sz \<le> int (length buf)"
  shows "num_to_str long64 tmp buf sz num width =
    Some (if sint sz < int (length d) \<or> unat sz < unat width then (0, buf)
          else (word_of_nat (pad + length d), replicate pad 32 @ d @ drop (pad + length d) buf))"
proof -
  obtain b where b: "(if num \<le> 9 then (if 0 < length tmp then Some (tmp[0 := 48 + ucast num], 1) else None)
      else if long64 then put_dec tmp 0 num else put_dec_32bit tmp 0 num) = Some (b, length d)" "rev (take (length d) b) = d"
    using tmp_holds_digits [OF tmp, of num long64] by (auto simp: d_def rdigits_def)
  have dl: "length d \<le> 20" unfolding d_def by (rule print_nat_length)
  have us: "unat (word_of_nat (length d) :: s32) = length d" using dl by (simp add: unsigned_of_nat take_bit_nat_eq_self)
  have ss: "sint (word_of_nat (length d) :: s32) = int (length d)" using dl us by (simp add: sint_uint32 uint_nat)
  have c: "sz <s word_of_nat (length d) \<longleftrightarrow> sint sz < int (length d)" by (simp add: word_sless_alt ss)
  have w: "sz < width \<longleftrightarrow> unat sz < unat width" by (simp add: word_less_nat_alt)
  have p: "(if width > word_of_nat (length d) then unat (width - word_of_nat (length d)) else 0) = pad"
    using us by (auto simp: pad_def word_less_nat_alt unat_sub word_le_nat_alt)
  show ?thesis
  proof (cases "sint sz < int (length d) \<or> unat sz < unat width")
    case True
    then show ?thesis unfolding num_to_str_def b(1) by (simp add: c w Let_def)
  next
    case False
    then have "0 \<le> sint sz" by linarith
    then have "int (unat sz) = sint sz" using sint_nonneg_uint [of sz] by (simp only: uint_nat)
    then have fit: "pad + length d \<le> length buf" using False buf unfolding pad_def by linarith
    show ?thesis
      unfolding num_to_str_def b(1) using False fit b(2) p by (simp add: c w Let_def add.commute)
  qed
qed

text \<open>
  C33. \<^verbatim>\<open>num_to_str\<close> prints: the text is the decimal representation of the number, with spaces in front up to the
  width, or nothing at all if the buffer is too small for either. Both versions of \<^verbatim>\<open>put_dec\<close>, which divide by
  multiplying with fixed-point reciprocals, give it for every 64 bit number, and never write outside the
  24 bytes on the stack or the buffer.
\<close>

theorem num_to_str_prints:
  assumes "length tmp = 24" and "sint sz \<le> int (length buf)"
  shows "num_to_str long64 tmp buf sz num width =
    (let d = print_nat (unat num); pad = unat width - length d
     in Some (if sint sz < int (length d) \<or> unat sz < unat width then (0, buf)
              else (word_of_nat (pad + length d), replicate pad 32 @ d @ drop (pad + length d) buf)))"
  using num_to_str_text [OF assms] by (simp add: Let_def)

theorem num_to_str_prints_witness:
  "num_to_str False (replicate 24 0) (replicate 13 1) 13 1000000042 12 = Some (12, [32, 32, 49, 48, 48, 48, 48, 48, 48, 48, 52, 50, 1])"
proof -
  have d: "print_nat 1000000042 = [49, 48, 48, 48, 48, 48, 48, 48, 52, 50]" by (simp add: print_nat.simps)
  have r: "replicate 2 (32 :: u8) = [32, 32]" by (simp add: numeral_2_eq_2)
  have "length (replicate 24 (0 :: u8)) = 24" "sint (13 :: s32) \<le> int (length (replicate 13 (1 :: u8)))" by simp_all
  from num_to_str_prints [OF this] show ?thesis by (simp add: d r Let_def)
qed

text \<open>
  C34. What \<^verbatim>\<open>num_to_str\<close> prints, \<^verbatim>\<open>kstrtoull\<close> reads: every 64 bit number survives the round trip through the two
  routines, on 64 and on 32 bit machines, with a buffer of at least 20 bytes.
\<close>

theorem num_to_str_read_back:
  assumes "length tmp = 24" and "20 \<le> sint sz" and "sint sz \<le> int (length buf)"
  shows "\<exists>n text. num_to_str long64 tmp buf sz num 0 = Some (n, text) \<and> kstrtoull (take (unat n) text) 10 = Inr num"
proof -
  let ?d = "print_nat (unat num)"
  have l: "length ?d \<le> 20" by (rule print_nat_length)
  then have u: "unat (word_of_nat (length ?d) :: s32) = length ?d" by (simp add: unsigned_of_nat take_bit_nat_eq_self)
  have "kstrtoull ?d 10 = Inr num"
    using kstrtoull_print(2) [of "unat num"] l unsigned_less [of num, where 'a = nat] by simp
  then show ?thesis using num_to_str_text [OF assms(1,3), of long64 num 0] assms(2) l u by simp
qed

theorem num_to_str_read_back_witness:
  "\<exists>n text. num_to_str True (replicate 24 7) (replicate 20 0) 20 18446744073709551615 0 = Some (n, text) \<and>
    kstrtoull (take (unat n) text) 10 = Inr 18446744073709551615"
  by (rule num_to_str_read_back) simp_all

end
