(* ===== verification/Spec2Isabelle.thy ===== *)
theory Spec2Isabelle
  imports Bpf_Branch Bpf_Prune Memblock_Theorems Userns_Theorems Vsprintf
begin

text \<open>
  This development verifies parts of the Linux kernel 5.10 sources: the BPF verifier and the BPF
  interpreter it protects, the boot-time memory allocator memblock, user namespaces with their id maps and
  the capability check, and the library routines these maps rely on: sorting, binary search, and the
  conversion of numbers from and to text. The definitions are translated from the C sources; a name with
  leading underscores gets one \<open>u\<close> per underscore, a name that clashes with the logic gets a suffix.

  \<^bold>\<open>Machine integers.\<close> Every C integer is a word of its width. Signed values are words with the same
  bits; signed comparisons are written \<open><s\<close> and \<open>\<le>s\<close>. Arithmetic wraps as the machine does.

  \<^bold>\<open>Errors.\<close> A function that returns an error code returns a sum with the code on the left, or the code
  itself next to the new state. \<open>None\<close> stands for what C gives no meaning to or does not survive: a
  \<^verbatim>\<open>BUG_ON\<close>, a division by zero in the interpreter, a loop that does not end.

  \<^bold>\<open>The BPF verifier and interpreter.\<close> A BPF program is loaded into the kernel only after
  \<^verbatim>\<open>kernel/bpf/verifier.c\<close> has followed it with abstract values; \<^verbatim>\<open>kernel/bpf/core.c\<close> then runs it.
  \<^item> \<open>Prelude\<close> holds the machine types and the facts on words, sums and lists the rest shares.
  \<^item> \<open>Tnum\<close> is \<^verbatim>\<open>kernel/bpf/tnum.c\<close>: tracked numbers, with the soundness of every operation.
  \<^item> \<open>Bpf_Reg\<close> is \<^verbatim>\<open>struct bpf_reg_state\<close> with the functions that set, widen and deduce its bounds;
    \<open>reg_contains\<close> says which values a state allows.
  \<^item> \<open>Bpf_Scalar\<close> has the transfer functions of the scalar operations, \<open>Bpf_Alu\<close> the function that selects
    among them with the sanitation of speculative paths, \<open>Bpf_Branch\<close> the branch prediction and the
    refinement of registers at a conditional jump.
  \<^item> \<open>Bpf_Insn\<close> has the encoding and the opcode tables, \<open>Bpf_Interp\<close> the interpreter, one step per
    instruction, with its memory as a function from addresses to bytes. Helper calls, calls between BPF
    functions, program arrays and probe reads are fields of \<open>interp_env\<close>.
  \<^item> \<open>Bpf_Mem\<close> has the bounds checks of memory accesses, \<open>Bpf_Live\<close> the operand checks and the
    propagation of read marks along the parent states (the walk is bounded by the number of parents),
    \<open>Bpf_Ptr\<close> pointer arithmetic, \<open>Bpf_Check\<close> the check of a whole arithmetic instruction.
    \<^verbatim>\<open>mark_chain_precision\<close> is a parameter; its early return for unprivileged programs instantiates it.
  \<^item> \<open>Bpf_Safety\<close> lifts the instruction checks to straight-line programs through the locales
    \<open>sound_check\<close>, \<open>safe_check\<close> and \<open>alu_checker\<close>.
  \<^item> \<open>Bpf_Prune\<close> compares an explored state with the current one, frames, stack slots and references
    included (\<^verbatim>\<open>states_equal\<close>), and cleans explored states. The array of id pairs is passed along; it has
    one entry per register and stack slot, as in the code.

  The properties say that the verifier's state covers every run of the interpreter, over arithmetic
  programs and both sides of a jump, that accepted pointers and accesses stay inside their object and
  off its spin lock, that accepted arithmetic stops only at a division by a zero register, that a pruned
  state allows nothing the explored one does not, so that accesses checked there stay inside their
  object, and that cleaning changes no comparison. The read marks stay closed under the parent relation.
  One property is a pair of states the comparison accepts although the sharing of ids is lost.

  \<^bold>\<open>Memblock.\<close> \<^verbatim>\<open>mm/memblock.c\<close> manages memory before the other allocators exist: one array of regions for the
  memory there is, one for what is reserved. Arrays that are full are doubled, and the room for the new
  array comes from the allocator itself.
  \<^item> \<open>Memblock\<close> has one array: inserting, removing, merging, splitting. Its meaning is \<open>attr_at\<close>, a map from
    addresses to flags and node; \<open>ty_ok\<close> is the invariant (sorted, disjoint, no empty region, the size is
    the sum of the sizes).
  \<^item> \<open>Memblock_Iter\<close> has the iterators over free memory, whose state is one 64 bit number, and the searches.
    The locale \<open>range_iterator\<close> is the contract of an iterator; both directions are instances.
  \<^item> \<open>Memblock_Ops\<close> has the operations on both arrays and \<^verbatim>\<open>memblock_double_array\<close>, which calls them again.
    The operations take the doubling function as an argument, and \<open>double_array\<close> closes the recursion
    after \<open>n\<close> levels. The locales \<open>reserved_doubling\<close> and \<open>memory_doubling\<close> are what an operation may rely
    on; every level of the recursion is an instance. One level is enough for allocation.
  \<^item> \<open>Memblock_Alloc\<close> has the interface and allocation, \<open>Memblock_Query\<close> lookups, limits and trimming,
    \<open>Memblock_Theorems\<close> the reachable states and the properties.

  The properties say that an allocation only takes memory that was free, always returns, and is aligned,
  that adding, removing and marking refine operations on maps from addresses to attributes, that the
  iterators visit exactly the free memory, that the searches are first fit and the lookups linear, and
  that the invariant holds in all reachable states. Arrays are assumed to hold less than \<open>2 ^ 31 - 1\<close>
  regions, as their indices are \<^verbatim>\<open>int\<close>. Three properties are concrete runs in which the code falls short.

  \<^bold>\<open>Sorting, searching, numbers.\<close> Memory is a list of bytes.
  \<^item> \<open>Heapsort\<close> is the algorithm of \<^verbatim>\<open>lib/sort.c\<close> on a list of elements and \<open>Sort\<close> the code on byte offsets, with
    the three swap loops; a simulation connects them. The loops are partial functions, and the property
    includes that they end. The comparison function is a parameter; the locale \<open>comparison\<close> is what a caller has to
    provide, and the two orders of id map extents are its instances. The binary search is in \<open>Sort\<close> too.
  \<^item> \<open>Kstrtox\<close> is \<^verbatim>\<open>lib/kstrtox.c\<close> and the \<^verbatim>\<open>simple_strto\<close> functions, on strings that end with a zero byte;
    \<open>Vsprintf\<close> is \<^verbatim>\<open>num_to_str\<close> with both variants of \<^verbatim>\<open>put_dec\<close>. Writing outside a buffer is \<open>None\<close>.

  The properties say that sorting gives an ordered permutation, that parsing computes the number in
  unbounded arithmetic or reports that it does not fit, that printing writes exactly the decimal
  digits, and that parsing reads printed numbers back.

  \<^bold>\<open>User namespaces.\<close> A namespace translates its user, group and project ids to ids of the kernel. A process writes
  the maps once, as text, and each map refers to ids of the parent namespace.
  \<^item> \<open>Idmap\<close> has extents and maps of \<^verbatim>\<open>kernel/user_namespace.c\<close>: lookup in both directions by scanning or by
    binary search, insertion, the overlap test and the sorting of both copies.
  \<^item> \<open>Userns\<close> has the tree of namespaces as a list in which parents come first, their creation, the writes
    to the files under \<^verbatim>\<open>/proc\<close>, and \<^verbatim>\<open>cap_capable\<close>. Allocations, the counters of namespaces and the hooks of
    other security modules are arguments. The walk towards the root is a
    partial function that is shown to end.
  \<^item> \<open>Userns_Write\<close> follows one write of a map, \<open>Userns_Theorems\<close> the reachable states and the properties.

  The properties say that a written map is the composition of what was asked for with the map of the
  parent, that the ids of a namespace belong to all its ancestors in every reachable state and never
  change once written, that a namespace mapped without privilege never regains \<^verbatim>\<open>setgroups\<close>, that looking up
  and back gives the same id, that a capability is granted exactly to its holders above and to owners on
  the way, and that every write returns.

  \<^bold>\<open>Not modelled.\<close> Of the verifier: the main loop \<^verbatim>\<open>do_check\<close>, the search over explored states, calls, BTF,
  stack accesses, and the rewriting of the program after the check. Of the interpreter's file: program allocation,
  constant blinding, statistics. Of memblock: the hand-over to the buddy allocator and the debug output. Of user namespaces: freeing, keyrings and the
  copies from user space. Of the conversions: format strings and \<^verbatim>\<open>sscanf\<close>.
  The rest of the kernel (scheduling, file systems, networking, architecture code) is concurrent code
  driven by hardware and user space, and is outside this development.
\<close>

section \<open>Sample states\<close>

text \<open>Concrete inputs at which the properties below are instantiated.\<close>

definition sample_reg :: "u64 \<Rightarrow> bpf_reg_state" where
  "sample_reg v = uu_mark_reg_known (reg_zero\<lparr>reg_type := SCALAR_VALUE\<rparr>) v"

definition sample_env :: "u64 \<Rightarrow> bpf_verifier_env" where
  "sample_env v = \<lparr>insn_idx = 0, cur_state = \<lparr>st_regs = replicate 11 (sample_reg v), st_speculative = False\<rparr>, parent_regs = [],
     stack_head = [], stack_size = 0, kzalloc_ok = True, id_gen = 0, explore_alu_limits = False, allow_ptr_leaks = False,
     bpf_capable = False, bypass_spec_v1 = False, longest_mark_read_walk = 0,
     insn_aux_data = (\<lambda>_. \<lparr>alu_state = 0, alu_limit = 0, zext_dst = False\<rparr>),
     map_of_ptr = (\<lambda>_. \<lparr>value_size = 16, spin_lock_off = -1\<rparr>), subprog_cnt = 1\<rparr>"

text \<open>\<^verbatim>\<open>r1 = 3; r1 += r2\<close>, and a division by a register.\<close>

definition sample_add :: bpf_insn where
  "sample_add = \<lparr>insn_code = 0x0f, insn_dst = 1, insn_src = 2, insn_off = 0, insn_imm = 0\<rparr>"

definition sample_prog :: "bpf_insn list" where
  "sample_prog = [\<lparr>insn_code = 0xb7, insn_dst = 1, insn_src = 0, insn_off = 0, insn_imm = 3\<rparr>, sample_add]"

definition sample_div :: bpf_insn where
  "sample_div = \<lparr>insn_code = 0x3f, insn_dst = 1, insn_src = 2, insn_off = 0, insn_imm = 0\<rparr>"

definition sample_ienv :: interp_env where
  "sample_ienv = \<lparr>little_endian = True, helper_call = (\<lambda>_ _ m. (0, m)), subprog_call = (\<lambda>_ _ _ _ m. (0, m)),
     prog_array_max_entries = (\<lambda>_. 0), prog_array_ptrs = (\<lambda>_ _. None), probe_read_kernel = (\<lambda>_ _ _ _. 0)\<rparr>"

definition sample_st :: "u64 \<Rightarrow> interp_state" where
  "sample_st v = \<lparr>m_regs = replicate 12 v, m_mem = (\<lambda>_. 0), m_prog = [], m_pc = 0, m_tail_call_cnt = 0\<rparr>"

lemma sample_reg_ok: "reg_ok (sample_reg v) v" and sample_reg_type: "reg_type (sample_reg v) = SCALAR_VALUE"
  by (simp_all add: sample_reg_def uu_mark_reg_known_ok) (simp add: uu_mark_reg_known_def uuu_mark_reg_known_def)

lemma sample_gamma: "alu_gamma {0} (sample_env v) (sample_st v)"
  unfolding alu_gamma_def
  by (intro exI [of _ "replicate 11 0"])
    (use sample_reg_ok in \<open>simp add: regs_models_def reg_models_def sample_env_def sample_st_def cur_regs_def nth_replicate sample_reg_type\<close>)

section \<open>The verifier and the interpreter\<close>

text \<open>
  C1. Straight-line arithmetic: if the registers of the machine agree with the verifier's state and
  \<^verbatim>\<open>check_alu_op\<close> accepts every instruction of a sequence, then after the interpreter has
  executed the sequence the registers agree with the verifier's final state: scalars are within their
  bounds and tracked bits, pointers point into one of the objects they pointed into before.
\<close>

theorem alu_program_sound:
  assumes "keeps_values mcp" and "alu_gamma B env st"
    and "steps (alu_check mcp) insns env = Some env'" and "steps (alu_exec ienv) insns st = Some st'"
  shows "alu_gamma B env' st'"
  by (rule alu_straight_line [OF assms])

theorem alu_program_sound_witness:
  "\<exists>env' st'. steps (alu_check no_precision) sample_prog (sample_env 5) = Some env' \<and>
     steps (alu_exec sample_ienv) sample_prog (sample_st 5) = Some st' \<and> m_regs st' ! 1 = 8 \<and> alu_gamma {0} env' st'"
proof -
  have "\<not> Option.is_none (steps (alu_check no_precision) sample_prog (sample_env 5))" by code_simp
  then obtain env' where 1: "steps (alu_check no_precision) sample_prog (sample_env 5) = Some env'" by (auto simp: Option.is_none_def)
  have "map_option (\<lambda>s. m_regs s ! 1) (steps (alu_exec sample_ienv) sample_prog (sample_st 5)) = Some 8" by code_simp
  then obtain st' where 2: "steps (alu_exec sample_ienv) sample_prog (sample_st 5) = Some st'" "m_regs st' ! 1 = 8" by auto
  show ?thesis using alu_program_sound [OF no_precision_values sample_gamma 1 2(1)] 1 2 by blast
qed

text \<open>
  C12. Accepted straight-line arithmetic only gets stuck at a division or modulo whose divisor register
  holds zero, the case the kernel patches with a test before the program runs.
\<close>

theorem alu_program_stuck:
  assumes "keeps_values mcp" and "alu_gamma B env st"
    and "steps (alu_check mcp) insns env = Some env'" and "steps (alu_exec ienv) insns st = None"
  shows "\<exists>pre insn post st' wide op. insns = pre @ insn # post \<and> steps (alu_exec ienv) pre st = Some st' \<and>
    jumptable (insn_code insn) = L_ALU wide op True \<and> zero_divisor wide op (m_regs st' ! insn_src insn)"
proof -
  obtain pre insn post st' where 1: "insns = pre @ insn # post" "steps (alu_exec ienv) pre st = Some st'" "\<not> alu_fine insn st'"
    using alu_straight_line_stuck [OF assms] by blast
  then obtain wide op where "jumptable (insn_code insn) = L_ALU wide op True" "zero_divisor wide op (m_regs st' ! insn_src insn)"
    by (auto simp: alu_fine_def split: bpf_label.splits bool.splits)
  with 1 show ?thesis by blast
qed

theorem alu_program_stuck_witness:
  "\<exists>pre insn post st' wide op. [sample_div] = pre @ insn # post \<and> steps (alu_exec sample_ienv) pre (sample_st 0) = Some st' \<and>
    jumptable (insn_code insn) = L_ALU wide op True \<and> zero_divisor wide op (m_regs st' ! insn_src insn)"
proof -
  have "\<not> Option.is_none (steps (alu_check no_precision) [sample_div] (sample_env 0))" by code_simp
  then obtain env' where 1: "steps (alu_check no_precision) [sample_div] (sample_env 0) = Some env'" by (auto simp: Option.is_none_def)
  have "Option.is_none (steps (alu_exec sample_ienv) [sample_div] (sample_st 0))" by code_simp
  then have 2: "steps (alu_exec sample_ienv) [sample_div] (sample_st 0) = None" by (simp add: Option.is_none_def split: option.splits)
  from alu_program_stuck [OF no_precision_values sample_gamma 1 2] show ?thesis .
qed

text \<open>
  C2. A load or store through a register that holds a pointer to a map value: if
  \<^verbatim>\<open>check_map_access\<close> accepts the access at the instruction's offset plus the fixed offset of the
  register, every byte the interpreter touches is inside the value.
\<close>

theorem map_access_inside:
  assumes "regs_models bs (cur_regs env) (m_regs st)" and "r < MAX_BPF_REG"
    and "reg_type (cur_regs env ! r) \<noteq> NOT_INIT" and "reg_type (cur_regs env ! r) \<noteq> SCALAR_VALUE"
    and "check_map_access mp (cur_regs env ! r) (scast (insn_off insn) + reg_off (cur_regs env ! r)) len z = Inr ()"
    and "\<bar>sint (reg_off (cur_regs env ! r))\<bar> < 2 ^ 29" and "int k < sint len"
  shows "uint (mem_addr r insn st + of_nat k - bs ! r) < uint (value_size mp)"
proof -
  have "ptr_contains (cur_regs env ! r) (bs ! r) (m_regs st ! r)"
    using regs_models_nth(1) [OF assms(1,2)] assms(3,4) by (simp add: reg_models_def)
  from map_value_access [OF assms(5) this assms(6,7)] show ?thesis by (simp add: mem_addr_def)
qed

text \<open>A pointer to offset 4 of a map value of 16 bytes at address 4096.\<close>

definition sample_ptr :: bpf_reg_state where
  "sample_ptr = (uu_mark_reg_known (reg_zero\<lparr>reg_type := PTR_TO_MAP_VALUE\<rparr>) 0)\<lparr>reg_off := 4\<rparr>"

definition sample_ptr_env :: bpf_verifier_env where
  "sample_ptr_env = (sample_env 4100)\<lparr>cur_state := \<lparr>st_regs = replicate 11 sample_ptr, st_speculative = False\<rparr>\<rparr>"

lemma sample_ptr_contains: "ptr_contains sample_ptr 4096 4100"
proof -
  have "reg_contains sample_ptr 0"
    using reg_okD(1) [OF uu_mark_reg_known_ok [of "reg_zero\<lparr>reg_type := PTR_TO_MAP_VALUE\<rparr>" 0]]
    by (simp add: sample_ptr_def reg_contains_def bounds64_def bounds32_def)
  then show ?thesis unfolding ptr_contains_def by (intro exI [of _ 0]) (simp add: sample_ptr_def)
qed

lemma sample_ptr_type: "reg_type sample_ptr = PTR_TO_MAP_VALUE" "reg_off sample_ptr = 4"
  by (simp_all add: sample_ptr_def uu_mark_reg_known_def uuu_mark_reg_known_def)

lemma sample_ptr_models: "regs_models (replicate 11 4096) (cur_regs sample_ptr_env) (m_regs (sample_st 4100))"
  by (simp add: regs_models_def reg_models_def sample_ptr_env_def sample_st_def cur_regs_def nth_replicate sample_ptr_type sample_ptr_contains)

theorem map_access_inside_witness:
  "uint (mem_addr 1 (sample_add\<lparr>insn_off := 2\<rparr>) (sample_st 4100) + of_nat 3 - replicate 11 4096 ! 1) < uint (value_size \<lparr>value_size = 16, spin_lock_off = 12\<rparr>)"
proof -
  have r: "cur_regs sample_ptr_env ! Suc 0 = sample_ptr" by (simp add: sample_ptr_env_def cur_regs_def)
  have a: "check_map_access \<lparr>value_size = 16, spin_lock_off = 12\<rparr> sample_ptr 6 4 False = Inr ()" by code_simp
  show ?thesis
    by (rule map_access_inside [OF sample_ptr_models, of 1 _ _ 4 False]) (use a in \<open>simp_all add: r sample_ptr_type\<close>)
qed

text \<open>
  C3. An accepted arithmetic instruction on two scalar registers: if
  \<^verbatim>\<open>adjust_scalar_min_max_vals\<close> returns a new state for the destination, that state allows the
  value the interpreter computes.
\<close>

theorem alu_transfer_sound:
  assumes "adjust_scalar_min_max_vals env insn dst src = Inr (env', dst')"
    and "jumptable (insn_code insn) = L_ALU wide op is_x" and "op \<noteq> OP_MOV"
    and "reg_ok dst x" and "reg_ok src y" and "interp_alu wide op is_x x y = Some (z, ax)"
  shows "reg_ok dst' z"
  by (rule adjust_scalar_sound [OF assms])

lemma sample_add_label: "jumptable (insn_code sample_add) = L_ALU True OP_ADD True"
  by (rule jumptable_entry) (simp add: sample_add_def jumptable_entries_def BPF_INSN_MAP_def)

theorem alu_transfer_sound_witness:
  "\<exists>env' dst'. adjust_scalar_min_max_vals (sample_env 5) sample_add (sample_reg 5) (sample_reg 7) = Inr (env', dst') \<and> reg_ok dst' 12"
proof -
  have "case adjust_scalar_min_max_vals (sample_env 5) sample_add (sample_reg 5) (sample_reg 7) of Inl _ \<Rightarrow> False | Inr _ \<Rightarrow> True" by code_simp
  then obtain env' dst' where a: "adjust_scalar_min_max_vals (sample_env 5) sample_add (sample_reg 5) (sample_reg 7) = Inr (env', dst')"
    by (auto split: sum.splits)
  have "interp_alu True OP_ADD True 5 7 = Some (12, None)" by (simp add: interp_alu_def interp_alu64_def)
  from alu_transfer_sound [OF a sample_add_label _ sample_reg_ok sample_reg_ok this] a show ?thesis by auto
qed



text \<open>
  C35. A map value with a spin lock: an access that \<^verbatim>\<open>check_map_access\<close> accepts stays inside the
  value and does not touch the four bytes of the lock, whatever value within its bounds the variable
  offset has.
\<close>

theorem map_access_avoids_lock:
  assumes "check_map_access mp reg off len z = Inr ()" and "bounds64 reg x" and "map_value_has_spin_lock mp"
    and "uint x + sint off \<le> a" and "a < uint x + sint off + sint len"
  shows "0 \<le> a \<and> a < uint (value_size mp) \<and> \<not> (sint (spin_lock_off mp) \<le> a \<and> a < sint (spin_lock_off mp) + 4)"
  using check_map_access_sound [OF assms(1,2)] assms(3-) by auto

theorem map_access_avoids_lock_witness:
  "0 \<le> (9 :: int) \<and> 9 < uint (16 :: u32) \<and> \<not> (sint (12 :: s32) \<le> 9 \<and> 9 < sint (12 :: s32) + 4)"
proof -
  let ?r = "uu_mark_reg_known reg_zero 4" and ?m = "\<lparr>value_size = 16, spin_lock_off = 12\<rparr> :: bpf_map"
  have "check_map_access ?m ?r 4 4 False = Inr ()" "bounds64 ?r 4" "map_value_has_spin_lock ?m" by code_simp+
  from map_access_avoids_lock [OF this, of 9] show ?thesis by simp
qed



text \<open>
  C14. Refinement at a conditional jump on a constant: \<^verbatim>\<open>reg_set_min_max\<close> narrows the states of the
  register for the two branches, and the value of the register stays in the state of the branch the
  interpreter takes.
\<close>

theorem branch_refined:
  assumes "reg_ok tr x" and "reg_ok fr x" and "exact_val half val val32 y"
  shows "reg_ok ((if interp_cond half c x y then fst else snd) (reg_set_min_max tr fr val val32 (jmp_opcode c) half)) x"
  using reg_set_min_max_sound [OF prod.collapse [symmetric] assms(3)] assms(1,2) by auto

definition sample_any :: bpf_reg_state where
  "sample_any = uu_mark_reg_unknown (sample_env 0) reg_zero"

theorem branch_refined_witness:
  "reg_ok (fst (reg_set_min_max sample_any sample_any 10 10 (jmp_opcode C_JLT) False)) 3"
  using branch_refined [of sample_any 3 sample_any False 10 10 10 C_JLT]
  by (simp add: sample_any_def exact_val_def interp_cond_def cond64_def)

text \<open>
  C16. The same with the constant on the left: \<^verbatim>\<open>reg_set_min_max_inv\<close> turns the comparison round
  before it refines the register on the right.
\<close>

theorem branch_refined_inv:
  assumes "reg_ok tr y" and "reg_ok fr y" and "exact_val half val val32 x"
  shows "reg_ok ((if interp_cond half c x y then fst else snd) (reg_set_min_max_inv tr fr val val32 (jmp_opcode c) half)) y"
  using reg_set_min_max_inv_sound [OF prod.collapse [symmetric] assms(3)] assms(1,2) by auto

theorem branch_refined_inv_witness:
  "reg_ok (fst (reg_set_min_max_inv sample_any sample_any 10 10 (jmp_opcode C_JLT) False)) 30"
  using branch_refined_inv [of sample_any 30 sample_any False 10 10 10 C_JLT]
  by (simp add: sample_any_def exact_val_def interp_cond_def cond64_def)

text \<open>
  C17. Comparing two registers: on the branch where the comparison found them equal,
  \<^verbatim>\<open>reg_combine_min_max\<close> intersects both states, and both values stay in the states of the branch
  the interpreter takes.
\<close>

theorem branch_combined:
  assumes "reg_combine_min_max ts td fs fd (jmp_opcode c) = (ts', td', fs', fd')"
    and "reg_ok ts y" and "reg_ok td x" and "reg_ok fs y" and "reg_ok fd x"
  shows "if interp_cond False c x y then reg_ok ts' y \<and> reg_ok td' x else reg_ok fs' y \<and> reg_ok fd' x"
  using reg_combine_min_max_sound [OF assms(1)] assms(2-) by (simp add: interp_cond_def)

theorem branch_combined_witness:
  "\<exists>ts' td' fs' fd'. reg_combine_min_max (sample_reg 5) sample_any (sample_reg 5) sample_any (jmp_opcode C_JEQ) = (ts', td', fs', fd') \<and>
     reg_ok td' 5"
proof -
  obtain ts' td' fs' fd' where r: "reg_combine_min_max (sample_reg 5) sample_any (sample_reg 5) sample_any (jmp_opcode C_JEQ) = (ts', td', fs', fd')"
    by (metis prod_cases4)
  have "reg_ok sample_any 5" by (simp add: sample_any_def)
  then show ?thesis
    using branch_combined [OF r sample_reg_ok _ sample_reg_ok, of 5] r by (simp add: interp_cond_def cond64_def)
qed

text \<open>
  Truncation: after \<^verbatim>\<open>coerce_reg_to_size\<close> the state of a register allows the lower bytes of
  every value it allowed before, and its bounds still agree on the sign.
\<close>

theorem coerce_sound:
  assumes "reg_ok r x" and "sz < 8"
  shows "reg_ok (coerce_reg_to_size r sz) (x AND mask (sz * 8))"
  by (rule coerce_reg_to_size_sound [OF assms])

theorem coerce_sound_witness: "reg_ok (coerce_reg_to_size (sample_reg 0x12345) 2) 0x2345"
  using coerce_sound [OF sample_reg_ok, of 2 "0x12345"] by (simp add: mask_eq_exp_minus_1)

section \<open>Liveness\<close>

text \<open>
  Marking a read terminates: where every state comes after its parent, the walk of
  \<^verbatim>\<open>mark_reg_read\<close> along the parents returns for every operand the verifier checks.
\<close>

theorem check_reg_arg_returns:
  assumes "live_ok env" and "length (cur_regs env) = MAX_BPF_REG"
  shows "\<exists>res. check_reg_arg env insn n t = Some res"
  using check_reg_arg_live(1) [OF assms] by blast

text \<open>One parent state, whose registers are the parents of the current ones.\<close>

definition sample_live_env :: bpf_verifier_env where
  "sample_live_env = (sample_env 5)\<lparr>parent_regs := [sample_reg 5],
     cur_state := \<lparr>st_regs = replicate 11 ((sample_reg 5)\<lparr>reg_parent := Some 0\<rparr>), st_speculative = False\<rparr>\<rparr>"

lemma sample_live_ok: "live_ok sample_live_env" "length (cur_regs sample_live_env) = MAX_BPF_REG"
  by code_simp+

theorem check_reg_arg_returns_witness: "\<exists>res. check_reg_arg sample_live_env sample_add 2 SRC_OP = Some res"
  by (rule check_reg_arg_returns [OF sample_live_ok])

text \<open>
  Reads reach every state that needs them: if each read mark of a state that did not write the
  register itself is also on its parent, an accepted operand check keeps it so. The walk may
  therefore stop at the first parent that has the mark.
\<close>

theorem check_reg_arg_keeps_live:
  assumes "live_ok env" and "length (cur_regs env) = MAX_BPF_REG" and "check_reg_arg env insn n t = Some (Inr env')"
  shows "live_closed (parent_regs env') \<and> parents_before (parent_regs env')"
  using check_reg_arg_live(2) [OF assms] by (simp add: live_ok_def)

theorem check_reg_arg_keeps_live_witness:
  "\<exists>env'. check_reg_arg sample_live_env sample_add 2 SRC_OP = Some (Inr env') \<and>
     live_closed (parent_regs env') \<and> parents_before (parent_regs env')"
proof -
  have "case check_reg_arg sample_live_env sample_add 2 SRC_OP of Some (Inr _) \<Rightarrow> True | _ \<Rightarrow> False" by code_simp
  then obtain env' where "check_reg_arg sample_live_env sample_add 2 SRC_OP = Some (Inr env')" by (auto split: option.splits sum.splits)
  from check_reg_arg_keeps_live [OF sample_live_ok this] this show ?thesis by blast
qed

text \<open>
  A read that is not screened by a write of the same state marks its parent with the width of
  the read.
\<close>

theorem mark_reg_read_marks:
  assumes "mark_reg_read env r (Some p) flag = Some (Inr env')" and "read_flag flag" and "p < length (parent_regs env)"
    and "reg_parent r = Some p" and "reg_live r AND REG_LIVE_WRITTEN = 0"
  shows "reg_live (parent_regs env' ! p) AND REG_LIVE_READ \<noteq> 0 \<and>
    (flag = REG_LIVE_READ64 \<longrightarrow> reg_live (parent_regs env' ! p) AND REG_LIVE_READ64 \<noteq> 0)"
  by (rule mark_reg_read_walk [OF assms(1)], rule walk_marks [OF _ assms(2) _ assms(3)]) (use assms(4,5) in auto)

theorem mark_reg_read_marks_witness:
  "\<exists>env'. mark_reg_read sample_live_env ((sample_reg 5)\<lparr>reg_parent := Some 0\<rparr>) (Some 0) REG_LIVE_READ64 = Some (Inr env') \<and>
     reg_live (parent_regs env' ! 0) AND REG_LIVE_READ64 \<noteq> 0"
proof -
  let ?r = "(sample_reg 5)\<lparr>reg_parent := Some 0\<rparr>"
  have "case mark_reg_read sample_live_env ?r (Some 0) REG_LIVE_READ64 of Some (Inr _) \<Rightarrow> True | _ \<Rightarrow> False" by code_simp
  then obtain env' where e: "mark_reg_read sample_live_env ?r (Some 0) REG_LIVE_READ64 = Some (Inr env')" by (auto split: option.splits sum.splits)
  have "0 < length (parent_regs sample_live_env)" "reg_live ?r AND REG_LIVE_WRITTEN = 0" by code_simp+
  from mark_reg_read_marks [OF e _ this(1) _ this(2)] e show ?thesis by (auto simp: read_flag_def)
qed

end
